(* ===== verification/Prelude.thy ===== *)
theory Prelude
  imports Main "HOL-Library.Monad_Syntax" "HOL-Library.Signed_Division"
begin

text \<open>
  What every component theory shares.

  A C computation that may have undefined behaviour (an index outside its array, a dereference
  of a null or freed pointer, signed overflow, a read of an uninitialised cell) has type
  \<open>'a option\<close>, with \<open>None\<close> for undefined behaviour; the \<open>do\<close>-notation of
  \<open>Monad_Syntax\<close> sequences such computations. Where the code can also end the process the
  result is a sum with a \<open>stop\<close> on the left.

  The collection \<open>c_def\<close> holds the defining equations of the straight-line operations,
  \<open>config\<close> the macros of automaton_config.h.
\<close>

named_theorems c_def
named_theorems config

section \<open>How a computation may end\<close>

text \<open>A process either runs into undefined behaviour or calls \<open>exit(code)\<close>.\<close>

datatype stop = Undefined | Exited int

fun and_then :: "stop + 'a \<Rightarrow> ('a \<Rightarrow> stop + 'b) \<Rightarrow> stop + 'b" where
  "and_then (Inl e) f = Inl e"
| "and_then (Inr x) f = f x"

lemma and_then_Inr: "and_then r f = Inr y \<longleftrightarrow> (\<exists>x. r = Inr x \<and> f x = Inr y)"
  by (cases r) simp_all

text \<open>A call that may wait gives \<open>Inr None\<close> as long as it does.\<close>

definition when_done :: "stop + 'a option \<Rightarrow> ('a \<Rightarrow> stop + 'b option) \<Rightarrow> stop + 'b option" where
  "when_done r f = and_then r (\<lambda>x. case x of None \<Rightarrow> Inr None | Some y \<Rightarrow> f y)"

lemma when_done_simps [simp]:
  "when_done (Inl e) f = Inl e" "when_done (Inr None) f = Inr None" "when_done (Inr (Some y)) f = f y"
  by (simp_all add: when_done_def)

section \<open>Machine integers of the C code\<close>

text \<open>
  The type \<open>int\<close> of C has 32 bits. \<open>cint\<close> is the result of an \<open>int\<close> expression whose
  mathematical value is given: signed overflow is undefined behaviour. \<open>wrap32\<close> is the
  conversion of a wider value to \<open>int\<close>, which keeps the low 32 bits.
\<close>

definition INT_MAX :: int where
  "INT_MAX = 2 ^ 31 - 1"

definition cint :: "int \<Rightarrow> int option" where
  "cint x = (if - (2 ^ 31) \<le> x \<and> x < 2 ^ 31 then Some x else None)"

definition wrap32 :: "int \<Rightarrow> int" where
  "wrap32 x = signed_take_bit 31 x"

definition wrap64 :: "int \<Rightarrow> int" where
  "wrap64 x = signed_take_bit 63 x"

definition in_int :: "int \<Rightarrow> bool" where
  "in_int x \<longleftrightarrow> - (2 ^ 31) \<le> x \<and> x < 2 ^ 31"

definition in_llong :: "int \<Rightarrow> bool" where
  "in_llong x \<longleftrightarrow> - (2 ^ 63) \<le> x \<and> x < 2 ^ 63"

lemma cint_in [simp]: "in_int x \<Longrightarrow> cint x = Some x"
  by (simp add: cint_def in_int_def)

lemma cint_Some_iff: "cint x = Some y \<longleftrightarrow> y = x \<and> in_int x"
  by (auto simp: cint_def in_int_def)

lemma wrap32_id [simp]: "in_int x \<Longrightarrow> wrap32 x = x"
  by (simp add: wrap32_def in_int_def signed_take_bit_int_eq_self)

lemma wrap64_id [simp]: "in_llong x \<Longrightarrow> wrap64 x = x"
  by (simp add: wrap64_def in_llong_def signed_take_bit_int_eq_self)

lemma in_int_wrap32 [simp]: "in_int (wrap32 x)"
  using signed_take_bit_int_greater_eq_minus_exp [of 31 x] signed_take_bit_int_less_exp [of 31 x]
  by (simp add: wrap32_def in_int_def)

lemma in_int_llong: "in_int x \<Longrightarrow> in_llong x"
  by (simp add: in_int_def in_llong_def)

text \<open>Characters are signed bytes on the target, so codes from 128 on are negative.\<close>

definition schar :: "char \<Rightarrow> int" where
  "schar c = (if of_char c \<ge> (128::int) then of_char c - 256 else of_char c)"

text \<open>
  A C string is the \<open>string\<close> of the characters before its terminator. Reading at the
  index of the terminator gives the null character, reading past it is undefined.
\<close>

definition NUL :: char where
  "NUL = CHR 0x00"

definition char_at :: "string \<Rightarrow> nat \<Rightarrow> char option" where
  "char_at s i = (if i < length s then Some (s ! i) else if i = length s then Some NUL else None)"

section \<open>Early-return loops\<close>

text \<open>
  \<open>for_any f i n\<close> is \<open>for(; i<n; ++i) if(f(i)) return 1; return 0;\<close> and
  \<open>for_all f i n\<close> is \<open>for(; i<n; ++i) if(!f(i)) return 0; return 1;\<close>.
\<close>

function for_any :: "(nat \<Rightarrow> int option) \<Rightarrow> nat \<Rightarrow> nat \<Rightarrow> int option" where
  "for_any f i n =
     (if i < n then do { v \<leftarrow> f i; if v \<noteq> 0 then Some 1 else for_any f (Suc i) n }
      else Some 0)"
  by pat_completeness auto
termination
  by (relation "measure (\<lambda>(f, i, n). n - i)") auto

function for_all :: "(nat \<Rightarrow> int option) \<Rightarrow> nat \<Rightarrow> nat \<Rightarrow> int option" where
  "for_all f i n =
     (if i < n then do { v \<leftarrow> f i; if v = 0 then Some 0 else for_all f (Suc i) n }
      else Some 1)"
  by pat_completeness auto
termination
  by (relation "measure (\<lambda>(f, i, n). n - i)") auto

declare for_any.simps [simp del] for_all.simps [simp del]

lemma for_any_total:
  assumes "\<And>j. i \<le> j \<Longrightarrow> j < n \<Longrightarrow> f j = Some (g j)"
  shows "for_any f i n = Some (if \<exists>j. i \<le> j \<and> j < n \<and> g j \<noteq> 0 then 1 else 0)"
  using assms
proof (induction f i n rule: for_any.induct)
  case (1 f i n)
  show ?case
  proof (cases "i < n \<and> g i = 0")
    case True
    then have "(\<exists>j. i \<le> j \<and> j < n \<and> g j \<noteq> 0) \<longleftrightarrow> (\<exists>j. Suc i \<le> j \<and> j < n \<and> g j \<noteq> 0)"
      by (metis Suc_leD not_less_eq_eq order_antisym_conv)
    with True 1 show ?thesis by (simp add: for_any.simps [of f i n])
  next
    case False
    with 1 show ?thesis by (auto simp: for_any.simps [of f i n])
  qed
qed

lemma for_all_total:
  assumes "\<And>j. i \<le> j \<Longrightarrow> j < n \<Longrightarrow> f j = Some (g j)"
  shows "for_all f i n = Some (if \<forall>j. i \<le> j \<and> j < n \<longrightarrow> g j \<noteq> 0 then 1 else 0)"
  using assms
proof (induction f i n rule: for_all.induct)
  case (1 f i n)
  show ?case
  proof (cases "i < n \<and> g i \<noteq> 0")
    case True
    then have "(\<forall>j. i \<le> j \<and> j < n \<longrightarrow> g j \<noteq> 0) \<longleftrightarrow> (\<forall>j. Suc i \<le> j \<and> j < n \<longrightarrow> g j \<noteq> 0)"
      by (metis Suc_leD not_less_eq_eq order_antisym_conv)
    with True 1 show ?thesis by (simp add: for_all.simps [of f i n])
  next
    case False
    with 1 show ?thesis by (auto simp: for_all.simps [of f i n])
  qed
qed

section \<open>Lists\<close>

lemma sum_list_map_le:
  fixes f g :: "'a \<Rightarrow> int"
  shows "(\<And>x. x \<in> set xs \<Longrightarrow> f x \<le> g x) \<Longrightarrow> sum_list (map f xs) \<le> sum_list (map g xs)"
  by (induction xs) (auto intro: add_mono)

lemma list_update_at [simp]: "length xs = n \<Longrightarrow> (xs @ y # ys)[n := z] = xs @ z # ys"
  by auto

lemma filter_idle: "(\<And>x. x \<in> set xs \<Longrightarrow> P x) \<Longrightarrow> filter P xs = xs"
  by (induction xs) auto

lemma map_of_filter_key: "map_of (filter (\<lambda>e. P (fst e)) xs) k = (if P k then map_of xs k else None)"
  by (induction xs) auto

end
