(* ===== verification/Automaton.thy ===== *)
theory Automaton
  imports Prelude
begin

text \<open>
  The transition graph of automaton.h and its two acceptance procedures.

  \<open>TransitionGraph\<close> is the struct of automaton.h: its arrays are functions on \<open>int\<close>
  indices and are read through \<open>graph_at\<close>, \<open>size_at\<close> and \<open>accepting_at\<close>,
  which give \<open>None\<close> outside the bounds MAX_Q and MAX_A. \<open>acceptSync\<close> is the recursive
  procedure, \<open>acceptAsync\<close> the one that may fork; the specification both are compared with is the
  recursive definition and the definition by runs of the README.
\<close>

section \<open>Configuration (automaton_config.h)\<close>

definition MAX_Q :: int where
  "MAX_Q = 107"

definition MAX_A :: int where
  "MAX_A = 37"

definition RUN_WORKLOAD_LIMIT :: nat where
  "RUN_WORKLOAD_LIMIT = 5"

definition RUN_FORK_LIMIT :: int where
  "RUN_FORK_LIMIT = 22"

lemmas automaton_config [config] =
  MAX_Q_def MAX_A_def RUN_WORKLOAD_LIMIT_def RUN_FORK_LIMIT_def

section \<open>The transition graph\<close>

record TransitionGraph =
  tg_graph :: "int \<Rightarrow> int \<Rightarrow> int \<Rightarrow> int"
  tg_size :: "int \<Rightarrow> int \<Rightarrow> int"
  tg_acceptingStates :: "int \<Rightarrow> int"
  tg_q0 :: int
  tg_A :: int
  tg_Q :: int
  tg_U :: int
  tg_F :: int

definition in_Q :: "int \<Rightarrow> bool" where
  "in_Q q \<longleftrightarrow> 0 \<le> q \<and> q < MAX_Q"

definition in_A :: "int \<Rightarrow> bool" where
  "in_A a \<longleftrightarrow> 0 \<le> a \<and> a < MAX_A"

definition accepting_at :: "TransitionGraph \<Rightarrow> int \<Rightarrow> int option" where
  "accepting_at tg q = (if in_Q q then Some (tg_acceptingStates tg q) else None)"

definition size_at :: "TransitionGraph \<Rightarrow> int \<Rightarrow> int \<Rightarrow> int option" where
  "size_at tg q a = (if in_Q q \<and> in_A a then Some (tg_size tg q a) else None)"

definition graph_at :: "TransitionGraph \<Rightarrow> int \<Rightarrow> int \<Rightarrow> int \<Rightarrow> int option" where
  "graph_at tg q a i = (if in_Q q \<and> in_A a \<and> in_Q i then Some (tg_graph tg q a i) else None)"

text \<open>
  \<open>initTransitionGraph\<close> overwrites every field and every cell, so its result does not
  depend on what the memory held; \<open>newTransitionGraph\<close> allocates and initialises. The cells
  outside the arrays, which no access reaches, keep the values they have.
\<close>

definition initTransitionGraph :: "TransitionGraph \<Rightarrow> TransitionGraph" where
  "initTransitionGraph tg = tg
     \<lparr> tg_q0 := 0, tg_A := 0, tg_Q := 0, tg_U := 0, tg_F := 0,
       tg_acceptingStates := (\<lambda>q. if in_Q q then 0 else tg_acceptingStates tg q),
       tg_size := (\<lambda>q a. if in_Q q \<and> in_A a then 0 else tg_size tg q a),
       tg_graph := (\<lambda>q a p. if in_Q q \<and> in_A a \<and> in_Q p then -1 else tg_graph tg q a p) \<rparr>"

definition newTransitionGraph :: "TransitionGraph \<Rightarrow> TransitionGraph" where
  "newTransitionGraph memory = initTransitionGraph memory"

section \<open>Synchronous acceptance\<close>

text \<open>
  The body of acceptSync_rec below its base case: the letter, the number of successors and
  the existential or universal loop. \<open>visit\<close> is the recursive call on a successor. The same
  code is the synchronous branch of acceptAsync_rec.
\<close>

definition sync_node ::
  "TransitionGraph \<Rightarrow> (int \<Rightarrow> int option) \<Rightarrow> string \<Rightarrow> int \<Rightarrow> nat \<Rightarrow> int option" where
  "sync_node tg visit word current_state depth = do {
     c \<leftarrow> char_at word depth;
     let current_letter = schar c - schar (CHR ''a'');
     branch_count \<leftarrow> size_at tg current_state current_letter;
     let branch = (\<lambda>i. do {
           t \<leftarrow> graph_at tg current_state current_letter (int i);
           visit t });
     if current_state \<ge> tg_U tg
     then for_any branch 0 (nat branch_count)
     else for_all branch 0 (nat branch_count) }"

function acceptSync_rec ::
  "TransitionGraph \<Rightarrow> string \<Rightarrow> nat \<Rightarrow> int \<Rightarrow> nat \<Rightarrow> int option" where
  "acceptSync_rec tg word word_len current_state depth =
     (if depth \<ge> word_len then accepting_at tg current_state
      else sync_node tg (\<lambda>t. acceptSync_rec tg word word_len t (Suc depth))
             word current_state depth)"
  by pat_completeness auto
termination
  by (relation "measure (\<lambda>(tg, word, word_len, s, depth). word_len - depth)") auto

declare acceptSync_rec.simps [simp del]

definition acceptSync :: "TransitionGraph \<Rightarrow> string \<Rightarrow> int option" where
  "acceptSync tg word = acceptSync_rec tg word (length word) (tg_q0 tg) 0"

section \<open>Asynchronous acceptance\<close>

text \<open>
  acceptAsync_node forks one child per successor but the first. What the operating system
  makes of a fork is an argument of the model: the call fails, the child runs to its exit, or
  the child is killed. \<open>fates\<close> gives it for every fork call, which is named by the path of
  branch numbers that leads to it. Parent and children share nothing but the answer pipes, and
  the parent reads these only after all its children have ended, so a child is evaluated at the
  point of its fork.

  The results carry the value, the workload counter behind the caller's pointer and the number of
  calls of fork.
\<close>

datatype fate = ForkFails | Finishes | Dies

type_synonym fates = "nat list \<Rightarrow> fate"

type_synonym async_result = "stop + (int \<times> nat \<times> nat)"

definition decisive :: "bool \<Rightarrow> int \<Rightarrow> bool" where
  "decisive is_existential_state value \<longleftrightarrow>
     (is_existential_state \<and> value \<noteq> 0) \<or> (\<not> is_existential_state \<and> value = 0)"

text \<open>
  The first loop of acceptAsync_node. \<open>pipes i\<close> is what child \<open>i\<close> has written, \<open>None\<close>
  where no pipe was opened; \<open>crashed\<close> says that some child did not exit with 0. An early return
  is \<open>Some value\<close> in the first component.
\<close>

function spawn_children ::
  "bool \<Rightarrow> (nat \<Rightarrow> fate) \<Rightarrow> (nat \<Rightarrow> nat \<Rightarrow> async_result) \<Rightarrow> nat \<Rightarrow> nat \<Rightarrow> (nat \<rightharpoonup> string) \<Rightarrow> bool
    \<Rightarrow> nat \<Rightarrow> stop + (int option \<times> (nat \<rightharpoonup> string) \<times> bool \<times> nat)" where
  "spawn_children ex fate run i n pipes crashed forks =
     (if i < n then
        (case fate i of
           ForkFails \<Rightarrow>
             (case run i 0 of
                Inl e \<Rightarrow> Inl e
              | Inr (localValue, _, k) \<Rightarrow>
                  if decisive ex localValue
                  then (if crashed then Inl (Exited (-1))
                        else Inr (Some (of_bool ex), pipes, crashed, Suc forks + k))
                  else spawn_children ex fate run (Suc i) n pipes crashed (Suc forks + k))
         | alive \<Rightarrow>
             (case run i 0 of
                Inl Undefined \<Rightarrow> Inl Undefined
              | Inl (Exited code) \<Rightarrow>
                  spawn_children ex fate run (Suc i) n (pipes(i \<mapsto> '''')) True (Suc forks)
              | Inr (v, _, k) \<Rightarrow>
                  spawn_children ex fate run (Suc i) n
                    (pipes(i \<mapsto> (if v \<noteq> 0 then ''A'' else ''N'')))
                    (crashed \<or> alive = Dies) (Suc forks + k)))
      else Inr (None, pipes, crashed, forks))"
  by pat_completeness auto
termination
  by (relation "measure (\<lambda>(ex, fate, run, i, n, pipes, crashed, forks). n - i)") auto

text \<open>The last loop reads the answers. A pipe whose fork had failed was never opened.\<close>

function collect_answers :: "bool \<Rightarrow> (nat \<rightharpoonup> string) \<Rightarrow> nat \<Rightarrow> nat \<Rightarrow> stop + int" where
  "collect_answers ex pipes i n =
     (if i < n then
        (case pipes i of
           None \<Rightarrow> Inl Undefined
         | Some rcv \<Rightarrow>
             if (ex \<and> rcv = ''A'') \<or> (\<not> ex \<and> rcv \<noteq> ''A'') then Inr (of_bool ex)
             else collect_answers ex pipes (Suc i) n)
      else Inr (of_bool (\<not> ex)))"
  by pat_completeness auto
termination
  by (relation "measure (\<lambda>(ex, pipes, i, n). n - i)") auto

declare spawn_children.simps [simp del] collect_answers.simps [simp del]

definition acceptAsync_node ::
  "bool \<Rightarrow> (nat \<Rightarrow> fate) \<Rightarrow> (nat \<Rightarrow> nat \<Rightarrow> async_result) \<Rightarrow> nat \<Rightarrow> nat \<Rightarrow> async_result" where
  "acceptAsync_node ex fate run branch_count workload =
     (if branch_count = 0 then Inr (of_bool (\<not> ex), workload, 0)
      else case spawn_children ex fate run 1 branch_count Map.empty False 0 of
        Inl e \<Rightarrow> Inl e
      | Inr (Some v, pipes, crashed, k) \<Rightarrow> Inr (v, workload, k)
      | Inr (None, pipes, crashed, k) \<Rightarrow>
          (case run 0 workload of
             Inl e \<Rightarrow> Inl e
           | Inr (originValue, workload', k') \<Rightarrow>
               if crashed then Inl (Exited (-1))
               else if decisive ex originValue then Inr (of_bool ex, workload', k + k')
               else (case collect_answers ex pipes 1 branch_count of
                       Inl e \<Rightarrow> Inl e
                     | Inr v \<Rightarrow> Inr (v, workload', k + k'))))"

definition or_undefined :: "'a option \<Rightarrow> stop + 'a" where
  "or_undefined r = (case r of None \<Rightarrow> Inl Undefined | Some v \<Rightarrow> Inr v)"

function acceptAsync_rec ::
  "fates \<Rightarrow> nat list \<Rightarrow> TransitionGraph \<Rightarrow> string \<Rightarrow> nat \<Rightarrow> int \<Rightarrow> nat \<Rightarrow> nat \<Rightarrow> int \<Rightarrow> async_result" where
  "acceptAsync_rec fates path tg word word_len current_state depth workload parent_fork_count =
     (if depth \<ge> word_len then
        or_undefined (map_option (\<lambda>v. (v, Suc workload, 0)) (accepting_at tg current_state))
      else if Suc workload < RUN_WORKLOAD_LIMIT \<or> parent_fork_count > RUN_FORK_LIMIT then
        or_undefined (map_option (\<lambda>v. (v, Suc workload, 0))
          (sync_node tg (\<lambda>t. acceptSync_rec tg word word_len t (Suc depth))
             word current_state depth))
      else
        (case char_at word depth of
           None \<Rightarrow> Inl Undefined
         | Some c \<Rightarrow>
             (case size_at tg current_state (schar c - schar (CHR ''a'')) of
                None \<Rightarrow> Inl Undefined
              | Some branch_count \<Rightarrow>
                  acceptAsync_node (current_state \<ge> tg_U tg) (\<lambda>i. fates (path @ [i]))
                    (\<lambda>i w. case graph_at tg current_state (schar c - schar (CHR ''a'')) (int i) of
                       None \<Rightarrow> Inl Undefined
                     | Some t \<Rightarrow>
                         acceptAsync_rec fates (path @ [i]) tg word word_len t (Suc depth) w
                           (parent_fork_count + branch_count - 1))
                    (nat branch_count) (Suc workload))))"
  by pat_completeness auto
termination
  by (relation "measure (\<lambda>(fates, path, tg, word, word_len, s, depth, w, p). word_len - depth)") auto

declare acceptAsync_rec.simps [simp del]

definition acceptAsync :: "fates \<Rightarrow> TransitionGraph \<Rightarrow> string \<Rightarrow> async_result" where
  "acceptAsync fates tg word =
     acceptAsync_rec fates [] tg word (length word) (tg_q0 tg) 0 1 0"

end
