(* ===== verification/Acceptance.thy ===== *)
theory Acceptance
  imports Automaton
begin

text \<open>
  What the acceptance procedures compute. The README defines acceptance twice, by a recursive
  function (\<open>accepts\<close>) and by accepting runs (\<open>is_run\<close>, \<open>accepting_run\<close>); the first part
  shows that acceptSync decides both. The second part shows that acceptAsync agrees with
  acceptSync whenever it returns, when it returns, and that as configured it never forks.
\<close>

section \<open>Acceptance as the README states it\<close>

definition letter :: "char \<Rightarrow> int" where
  "letter c = schar c - schar (CHR ''a'')"

definition succs :: "TransitionGraph \<Rightarrow> int \<Rightarrow> char \<Rightarrow> int list" where
  "succs tg q c = map (\<lambda>i. tg_graph tg q (letter c) (int i)) [0..<nat (tg_size tg q (letter c))]"

fun accepts :: "TransitionGraph \<Rightarrow> int \<Rightarrow> string \<Rightarrow> bool" where
  "accepts tg q [] \<longleftrightarrow> tg_acceptingStates tg q \<noteq> 0"
| "accepts tg q (c # w) \<longleftrightarrow>
     (if q \<ge> tg_U tg then \<exists>p \<in> set (succs tg q c). accepts tg p w
      else \<forall>p \<in> set (succs tg q c). accepts tg p w)"

definition accept_value :: "TransitionGraph \<Rightarrow> int \<Rightarrow> string \<Rightarrow> int" where
  "accept_value tg q w = (if w = [] then tg_acceptingStates tg q else of_bool (accepts tg q w))"

lemma accept_value_nonzero [simp]: "accept_value tg q w \<noteq> 0 \<longleftrightarrow> accepts tg q w"
  by (cases w) (simp_all add: accept_value_def)

definition wf_graph :: "TransitionGraph \<Rightarrow> bool" where
  "wf_graph tg \<longleftrightarrow> in_Q (tg_q0 tg) \<and>
     (\<forall>q a. in_Q q \<longrightarrow> in_A a \<longrightarrow> 0 \<le> tg_size tg q a \<and> tg_size tg q a \<le> MAX_Q \<and>
        (\<forall>i. 0 \<le> i \<longrightarrow> i < tg_size tg q a \<longrightarrow> in_Q (tg_graph tg q a i)))"

definition wf_word :: "string \<Rightarrow> bool" where
  "wf_word w \<longleftrightarrow> list_all (\<lambda>c. in_A (letter c)) w"

lemma wf_succs: "wf_graph tg \<Longrightarrow> in_Q q \<Longrightarrow> in_A (letter c) \<Longrightarrow> p \<in> set (succs tg q c) \<Longrightarrow> in_Q p"
  by (auto simp: wf_graph_def succs_def)

lemma ex_succs:
  "(\<exists>p \<in> set (succs tg q c). P p) \<longleftrightarrow>
   (\<exists>i < nat (tg_size tg q (letter c)). P (tg_graph tg q (letter c) (int i)))"
  by (auto simp: succs_def)

lemma all_succs:
  "(\<forall>p \<in> set (succs tg q c). P p) \<longleftrightarrow>
   (\<forall>i < nat (tg_size tg q (letter c)). P (tg_graph tg q (letter c) (int i)))"
  by (auto simp: succs_def)

lemma graph_at_wf:
  assumes "wf_graph tg" "in_Q q" "in_A a" "i < nat (tg_size tg q a)"
  shows "graph_at tg q a (int i) = Some (tg_graph tg q a (int i))" "in_Q (tg_graph tg q a (int i))"
proof -
  from assms have "0 \<le> tg_size tg q a" "tg_size tg q a \<le> MAX_Q"
    and *: "\<And>i. 0 \<le> i \<Longrightarrow> i < tg_size tg q a \<Longrightarrow> in_Q (tg_graph tg q a i)"
    unfolding wf_graph_def by blast+
  with assms show "graph_at tg q a (int i) = Some (tg_graph tg q a (int i))"
    by (simp add: graph_at_def in_Q_def)
  show "in_Q (tg_graph tg q a (int i))" by (rule *) (use assms in auto)
qed

lemma sync_node_value:
  assumes wf: "wf_graph tg" and q: "in_Q q" and d: "d < length w" and a: "in_A (letter (w ! d))"
    and visit: "\<And>t. in_Q t \<Longrightarrow> visit t = Some (v t)"
    and sound: "\<And>t. v t \<noteq> 0 \<longleftrightarrow> accepts tg t (drop (Suc d) w)"
  shows "sync_node tg visit w q d = Some (of_bool (accepts tg q (drop d w)))"
proof -
  let ?a = "letter (w ! d)"
  let ?branch = "\<lambda>i. do { t \<leftarrow> graph_at tg q ?a (int i); visit t }"
  let ?n = "nat (tg_size tg q ?a)"
  have br: "?branch i = Some (v (tg_graph tg q ?a (int i)))" if "0 \<le> i" "i < ?n" for i
    using graph_at_wf [OF wf q a that(2)] visit by simp
  have dr: "drop d w = w ! d # drop (Suc d) w"
    using d by (simp add: Cons_nth_drop_Suc)
  have "sync_node tg visit w q d =
      (if q \<ge> tg_U tg then for_any ?branch 0 ?n else for_all ?branch 0 ?n)"
    using q a d by (simp add: sync_node_def char_at_def size_at_def letter_def [symmetric] Let_def)
  also have "\<dots> = Some (of_bool (accepts tg q (drop d w)))"
    using for_any_total [of 0 ?n ?branch, OF br] for_all_total [of 0 ?n ?branch, OF br]
    by (simp add: dr ex_succs all_succs sound)
  finally show ?thesis .
qed

lemma acceptSync_rec_value:
  assumes "wf_graph tg" "wf_word w" "in_Q q"
  shows "acceptSync_rec tg w (length w) q d = Some (accept_value tg q (drop d w))"
  using assms(3)
proof (induction "length w - d" arbitrary: q d)
  case 0
  then show ?case
    by (subst acceptSync_rec.simps) (simp add: accepting_at_def accept_value_def)
next
  case (Suc n)
  then have d: "d < length w" and n: "n = length w - Suc d" by auto
  from assms(2) d have a: "in_A (letter (w ! d))"
    by (simp add: wf_word_def list_all_length)
  have IH: "in_Q t \<Longrightarrow> acceptSync_rec tg w (length w) t (Suc d) =
      Some (accept_value tg t (drop (Suc d) w))" for t
    using Suc.hyps(1) [OF n] by simp
  have "sync_node tg (\<lambda>t. acceptSync_rec tg w (length w) t (Suc d)) w q d =
      Some (of_bool (accepts tg q (drop d w)))"
    by (rule sync_node_value [OF assms(1) Suc.prems d a IH]) simp_all
  with d show ?case
    by (subst acceptSync_rec.simps) (simp add: accept_value_def)
qed

lemma acceptSync_value:
  "wf_graph tg \<Longrightarrow> wf_word w \<Longrightarrow> acceptSync tg w = Some (accept_value tg (tg_q0 tg) w)"
  by (simp add: acceptSync_def acceptSync_rec_value wf_graph_def)

subsection \<open>Runs\<close>

datatype run = Node (label: int) (children: "run list")

fun is_run :: "TransitionGraph \<Rightarrow> string \<Rightarrow> run \<Rightarrow> bool" where
  "is_run tg [] (Node q ts) \<longleftrightarrow> ts = []"
| "is_run tg (c # w) (Node q ts) \<longleftrightarrow>
     (if succs tg q c = [] then ts = []
      else if q \<ge> tg_U tg then
        (case ts of [t] \<Rightarrow> label t \<in> set (succs tg q c) \<and> is_run tg w t | _ \<Rightarrow> False)
      else distinct (map label ts) \<and> set (map label ts) = set (succs tg q c) \<and>
        list_all (is_run tg w) ts)"

text \<open>Leaves at the depth of the word are final, the other leaves universal.\<close>

fun accepting_run :: "TransitionGraph \<Rightarrow> string \<Rightarrow> run \<Rightarrow> bool" where
  "accepting_run tg [] (Node q ts) \<longleftrightarrow> tg_acceptingStates tg q \<noteq> 0"
| "accepting_run tg (c # w) (Node q ts) \<longleftrightarrow>
     (if ts = [] then q < tg_U tg else list_all (accepting_run tg w) ts)"

lemma accepting_run_accepts:
  "is_run tg w t \<Longrightarrow> accepting_run tg w t \<Longrightarrow> accepts tg (label t) w"
proof (induction tg w t rule: is_run.induct)
  case (1 tg q ts)
  then show ?case by simp
next
  case (2 tg c w q ts)
  show ?case
  proof (cases "succs tg q c = []")
    case True
    with "2.prems" show ?thesis by simp
  next
    case ne: False
    show ?thesis
    proof (cases "q \<ge> tg_U tg")
      case True
      with ne "2.prems" obtain t where "ts = [t]" "label t \<in> set (succs tg q c)" "is_run tg w t"
        by (auto split: list.splits)
      with ne True 2 show ?thesis by auto
    next
      case False
      with ne "2.prems" have set: "set (map label ts) = set (succs tg q c)"
        and runs: "\<And>t. t \<in> set ts \<Longrightarrow> is_run tg w t"
        by (auto simp: list_all_iff)
      from set ne have "ts \<noteq> []" by auto
      with "2.prems"(2) have acc: "\<And>t. t \<in> set ts \<Longrightarrow> accepting_run tg w t"
        by (auto simp: list_all_iff)
      have "accepts tg (label t) w" if "t \<in> set ts" for t
        using "2.IH"(2) [OF ne False that] runs acc that by simp
      then have "\<forall>p \<in> set (map label ts). accepts tg p w" by simp
      with set False show ?thesis by simp
    qed
  qed
qed

lemma accepts_accepting_run:
  "accepts tg q w \<Longrightarrow> \<exists>t. label t = q \<and> is_run tg w t \<and> accepting_run tg w t"
proof (induction w arbitrary: q)
  case Nil
  then show ?case by (intro exI [of _ "Node q []"]) simp
next
  case (Cons c w)
  show ?case
  proof (cases "q \<ge> tg_U tg")
    case True
    with Cons.prems obtain p where p: "p \<in> set (succs tg q c)" "accepts tg p w" by auto
    with Cons.IH obtain t where "label t = p" "is_run tg w t" "accepting_run tg w t" by blast
    with True p show ?thesis by (intro exI [of _ "Node q [t]"]) auto
  next
    case False
    with Cons.prems have "\<forall>p \<in> set (succs tg q c). accepts tg p w" by simp
    with Cons.IH have "\<forall>p \<in> set (succs tg q c).
        \<exists>t. label t = p \<and> is_run tg w t \<and> accepting_run tg w t" by blast
    then obtain f where f: "\<And>p. p \<in> set (succs tg q c) \<Longrightarrow>
        label (f p) = p \<and> is_run tg w (f p) \<and> accepting_run tg w (f p)" by metis
    let ?ts = "map f (remdups (succs tg q c))"
    have "map label ?ts = remdups (succs tg q c)"
      using f by (auto simp: o_def intro: map_idI)
    with f False show ?thesis
      by (intro exI [of _ "Node q ?ts"]) (auto simp: list_all_iff)
  qed
qed

lemma accepts_iff_run:
  "accepts tg q w \<longleftrightarrow> (\<exists>t. label t = q \<and> is_run tg w t \<and> accepting_run tg w t)"
  using accepting_run_accepts accepts_accepting_run by blast

section \<open>The asynchronous procedure\<close>

lemma decisive_iff: "decisive ex v \<longleftrightarrow> (v \<noteq> 0) = ex"
  by (auto simp: decisive_def)

text \<open>
  \<open>answered ex a f p\<close>: the pipe \<open>p\<close> of a child with answer \<open>a\<close> and fate \<open>f\<close> holds that
  answer, or its fork failed and the answer is not decisive.
\<close>

definition answered :: "bool \<Rightarrow> bool \<Rightarrow> fate \<Rightarrow> string option \<Rightarrow> bool" where
  "answered ex a f p \<longleftrightarrow>
     (p = Some (if a then ''A'' else ''N'') \<and> f \<noteq> ForkFails) \<or> (f = ForkFails \<and> p = None \<and> a \<noteq> ex)"

text \<open>Whatever branch \<open>j\<close> computes, from whatever workload, its answer is \<open>P j\<close>.\<close>

definition runs_answer :: "(nat \<Rightarrow> nat \<Rightarrow> async_result) \<Rightarrow> nat \<Rightarrow> (nat \<Rightarrow> bool) \<Rightarrow> bool" where
  "runs_answer run n P \<longleftrightarrow> (\<forall>j w0 v w k. j < n \<longrightarrow> run j w0 = Inr (v, w, k) \<longrightarrow> (v \<noteq> 0) = P j)"

lemma runs_answerD: "runs_answer run n P \<Longrightarrow> j < n \<Longrightarrow> run j w0 = Inr (v, w, k) \<Longrightarrow> (v \<noteq> 0) = P j"
  unfolding runs_answer_def by blast

lemma spawn_children_step:
  assumes lt: "i < n"
    and P: "runs_answer run n P"
    and eq: "spawn_children ex fate run i n pipes crashed forks = Inr (r, pipes', crashed', k)"
    and fresh: "pipes i = None"
  shows "(r = Some (of_bool ex) \<and> P i = ex) \<or>
    (\<exists>p c f. spawn_children ex fate run (Suc i) n p c f = Inr (r, pipes', crashed', k) \<and>
       (crashed \<longrightarrow> c) \<and> (\<forall>j. j \<noteq> i \<longrightarrow> p j = pipes j) \<and> (\<not> c \<longrightarrow> answered ex (P i) (fate i) (p i)))"
proof -
  note eq = eq [unfolded spawn_children.simps [of ex fate run i n] if_P [OF lt]]
  show ?thesis
  proof (cases "run i 0")
    case (Inl e)
    with eq show ?thesis
      by (cases "fate i"; cases e) (fastforce intro!: exI [of _ True])+
  next
    case (Inr t)
    obtain v w k1 where t: "t = (v, w, k1)" by (cases t)
    with Inr have v: "(v \<noteq> 0) = P i" using runs_answerD [OF P lt] by simp
    show ?thesis
    proof (cases "fate i")
      case ForkFails
      show ?thesis
      proof (cases "decisive ex v")
        case True
        with eq Inr t v ForkFails show ?thesis by (auto simp: decisive_iff split: if_splits)
      next
        case False
        with eq Inr t v ForkFails fresh show ?thesis
          by (intro disjI2 exI [of _ pipes] exI [of _ crashed] exI [of _ "Suc forks + k1"])
             (simp add: answered_def decisive_iff)
      qed
    next
      case Finishes
      with eq Inr t v show ?thesis
        by (intro disjI2 exI [of _ "pipes(i \<mapsto> if v \<noteq> 0 then ''A'' else ''N'')"] exI [of _ crashed]
            exI [of _ "Suc forks + k1"]) (simp add: answered_def)
    next
      case Dies
      with eq Inr t v show ?thesis
        by (intro disjI2 exI [of _ "pipes(i \<mapsto> if v \<noteq> 0 then ''A'' else ''N'')"] exI [of _ True]
            exI [of _ "Suc forks + k1"]) simp
    qed
  qed
qed

lemma spawn_children_sound:
  assumes P: "runs_answer run n P"
  shows "spawn_children ex fate run i n pipes crashed forks = Inr (r, pipes', crashed', k) \<Longrightarrow>
    (\<And>j. i \<le> j \<Longrightarrow> pipes j = None) \<Longrightarrow>
    (\<exists>j<n. r = Some (of_bool ex) \<and> P j = ex) \<or>
    (r = None \<and> (crashed \<longrightarrow> crashed') \<and> (\<forall>j<i. pipes' j = pipes j) \<and>
      (\<not> crashed' \<longrightarrow> (\<forall>j. i \<le> j \<longrightarrow> j < n \<longrightarrow> answered ex (P j) (fate j) (pipes' j))))"
proof (induction "n - i" arbitrary: i pipes crashed forks)
  case 0
  then show ?case by (auto simp: spawn_children.simps [of ex fate run i n])
next
  case (Suc m)
  then have lt: "i < n" and m: "m = n - Suc i" by auto
  from spawn_children_step [OF lt P Suc.prems(1) Suc.prems(2) [OF le_refl]]
  consider (early) "r = Some (of_bool ex)" "P i = ex"
    | (more) p c f where "spawn_children ex fate run (Suc i) n p c f = Inr (r, pipes', crashed', k)"
        "crashed \<longrightarrow> c" "\<forall>j. j \<noteq> i \<longrightarrow> p j = pipes j" "\<not> c \<longrightarrow> answered ex (P i) (fate i) (p i)"
    by blast
  then show ?case
  proof cases
    case early
    with lt show ?thesis by blast
  next
    case (more p c f)
    have fresh: "\<And>j. Suc i \<le> j \<Longrightarrow> p j = None"
      using more(3) Suc.prems(2) by auto
    have "(\<exists>j<n. r = Some (of_bool ex) \<and> P j = ex) \<or>
      (r = None \<and> (c \<longrightarrow> crashed') \<and> (\<forall>j<Suc i. pipes' j = p j) \<and>
        (\<not> crashed' \<longrightarrow> (\<forall>j. Suc i \<le> j \<longrightarrow> j < n \<longrightarrow> answered ex (P j) (fate j) (pipes' j))))"
      by (rule Suc.hyps(1) [OF m more(1)]) (rule fresh)
    then show ?thesis
    proof (elim disjE)
      assume "r = None \<and> (c \<longrightarrow> crashed') \<and> (\<forall>j<Suc i. pipes' j = p j) \<and>
        (\<not> crashed' \<longrightarrow> (\<forall>j. Suc i \<le> j \<longrightarrow> j < n \<longrightarrow> answered ex (P j) (fate j) (pipes' j)))"
      then show ?thesis
        using more(2-4) by (metis Suc_leI le_neq_implies_less less_Suc_eq nat_less_le)
    qed blast
  qed
qed

lemma collect_answers_sound:
  assumes "collect_answers ex pipes i n = Inr v"
    and "\<And>j. i \<le> j \<Longrightarrow> j < n \<Longrightarrow> answered ex (P j) (fate j) (pipes j)"
  shows "v = of_bool (if \<exists>j. i \<le> j \<and> j < n \<and> P j = ex then ex else \<not> ex)"
  using assms
proof (induction "n - i" arbitrary: i)
  case 0
  then show ?case by (auto simp: collect_answers.simps [of ex pipes i n])
next
  case (Suc m)
  then have lt: "i < n" and m: "m = n - Suc i" by auto
  from Suc.prems(2) [OF le_refl lt] have ans: "answered ex (P i) (fate i) (pipes i)" .
  show ?case
  proof (cases "P i = ex")
    case True
    with ans lt Suc.prems(1) show ?thesis
      by (auto simp: collect_answers.simps [of ex pipes i n] answered_def split: if_splits)
  next
    case False
    with ans lt Suc.prems(1) have "collect_answers ex pipes (Suc i) n = Inr v"
      by (auto simp: collect_answers.simps [of ex pipes i n] answered_def split: if_splits)
    moreover have "answered ex (P j) (fate j) (pipes j)" if "Suc i \<le> j" "j < n" for j
      using Suc.prems(2) that by simp
    ultimately have "v = of_bool (if \<exists>j. Suc i \<le> j \<and> j < n \<and> P j = ex then ex else \<not> ex)"
      using Suc.hyps(1) [OF m] by blast
    moreover have "(\<exists>j. Suc i \<le> j \<and> j < n \<and> P j = ex) \<longleftrightarrow> (\<exists>j. i \<le> j \<and> j < n \<and> P j = ex)"
      using False by (metis Suc_leD Suc_leI le_neq_implies_less)
    ultimately show ?thesis by simp
  qed
qed

text \<open>The value of a node, as a loop over all its successors.\<close>

definition node_value :: "bool \<Rightarrow> (nat \<Rightarrow> bool) \<Rightarrow> nat \<Rightarrow> int" where
  "node_value ex P n = of_bool (if ex then \<exists>j<n. P j else \<forall>j<n. P j)"

lemma node_value_decided: "j < n \<Longrightarrow> P j = ex \<Longrightarrow> node_value ex P n = of_bool ex"
  by (auto simp: node_value_def)

lemma node_value_rest:
  "0 < n \<Longrightarrow> P 0 \<noteq> ex \<Longrightarrow>
   node_value ex P n = of_bool (if \<exists>j. 1 \<le> j \<and> j < n \<and> P j = ex then ex else \<not> ex)"
proof -
  assume "0 < n" "P 0 \<noteq> ex"
  moreover have "(\<forall>j<n. P j) \<longleftrightarrow> P 0 \<and> (\<forall>j. 1 \<le> j \<and> j < n \<longrightarrow> P j)" if "0 < n"
    using that by (metis One_nat_def Suc_leI gr0I)
  moreover have "(\<exists>j<n. P j) \<longleftrightarrow> P 0 \<or> (\<exists>j. 1 \<le> j \<and> j < n \<and> P j)" if "0 < n"
    using that by (metis One_nat_def Suc_leI gr0I)
  ultimately show ?thesis by (cases ex) (auto simp: node_value_def)
qed

lemma acceptAsync_node_sound:
  assumes P: "runs_answer run n P"
    and eq: "acceptAsync_node ex fate run n w0 = Inr (v, w, k)"
  shows "v = node_value ex P n"
proof (cases "n = 0")
  case True
  with eq show ?thesis by (auto simp: acceptAsync_node_def node_value_def)
next
  case n: False
  with eq obtain r pipes crashed k1 where
    sp: "spawn_children ex fate run 1 n Map.empty False 0 = Inr (r, pipes, crashed, k1)"
    by (auto simp: acceptAsync_node_def split: sum.splits)
  from spawn_children_sound [OF P sp]
  consider (early) j where "j < n" "r = Some (of_bool ex)" "P j = ex"
    | (all) "r = None"
        "\<not> crashed \<longrightarrow> (\<forall>j. 1 \<le> j \<longrightarrow> j < n \<longrightarrow> answered ex (P j) (fate j) (pipes j))"
    by auto
  then show ?thesis
  proof cases
    case early
    with eq sp n show ?thesis by (simp add: acceptAsync_node_def node_value_decided)
  next
    case all
    with eq sp n obtain v0 w1 k2 where origin: "run 0 w0 = Inr (v0, w1, k2)"
      and nc: "\<not> crashed"
      by (auto simp: acceptAsync_node_def split: sum.splits if_splits)
    have P0: "(v0 \<noteq> 0) = P 0" using runs_answerD [OF P _ origin] n by simp
    show ?thesis
    proof (cases "decisive ex v0")
      case True
      with eq sp n all origin nc P0 show ?thesis
        by (simp add: acceptAsync_node_def decisive_iff node_value_decided [of 0])
    next
      case False
      with eq sp n all origin nc have "collect_answers ex pipes 1 n = Inr v"
        by (auto simp: acceptAsync_node_def split: sum.splits)
      from collect_answers_sound [of ex pipes 1 n v P fate, OF this] all nc
      have "v = of_bool (if \<exists>j. 1 \<le> j \<and> j < n \<and> P j = ex then ex else \<not> ex)" by simp
      with False P0 n show ?thesis by (simp add: node_value_rest decisive_iff)
    qed
  qed
qed

lemma acceptAsync_rec_sound:
  assumes "wf_graph tg" "wf_word w"
  shows "in_Q q \<Longrightarrow> acceptAsync_rec fates path tg w (length w) q d wl pfc = Inr (v, wl', k) \<Longrightarrow>
    v = accept_value tg q (drop d w)"
proof (induction "length w - d" arbitrary: q d path wl pfc v wl' k)
  case 0
  then show ?case
    by (auto simp: acceptAsync_rec.simps [of _ _ _ _ _ _ d] accepting_at_def accept_value_def
        or_undefined_def)
next
  case (Suc m)
  then have d: "d < length w" and m: "m = length w - Suc d" by auto
  from assms(2) d have a: "in_A (letter (w ! d))"
    by (simp add: wf_word_def list_all_length)
  have dr: "drop d w = w ! d # drop (Suc d) w" using d by (simp add: Cons_nth_drop_Suc)
  show ?case
  proof (cases "Suc wl < RUN_WORKLOAD_LIMIT \<or> pfc > RUN_FORK_LIMIT")
    case True
    have "sync_node tg (\<lambda>t. acceptSync_rec tg w (length w) t (Suc d)) w q d =
        Some (of_bool (accepts tg q (drop d w)))"
      by (rule sync_node_value [OF assms(1) Suc.prems(1) d a acceptSync_rec_value [OF assms]]) auto
    with True d Suc.prems(2) show ?thesis
      by (simp add: acceptAsync_rec.simps [of _ _ _ _ _ _ d] or_undefined_def accept_value_def)
  next
    case False
    let ?a = "letter (w ! d)"
    let ?n = "nat (tg_size tg q ?a)"
    let ?run = "\<lambda>i w0. case graph_at tg q ?a (int i) of None \<Rightarrow> Inl Undefined
      | Some t \<Rightarrow> acceptAsync_rec fates (path @ [i]) tg w (length w) t (Suc d) w0
                    (pfc + tg_size tg q ?a - 1)"
    let ?P = "\<lambda>i. accepts tg (tg_graph tg q ?a (int i)) (drop (Suc d) w)"
    have "acceptAsync_node (q \<ge> tg_U tg) (\<lambda>i. fates (path @ [i])) ?run ?n (Suc wl) = Inr (v, wl', k)"
      using False d Suc.prems a
      by (simp add: acceptAsync_rec.simps [of _ _ _ _ _ _ d] char_at_def size_at_def
          letter_def [symmetric])
    moreover have "runs_answer ?run ?n ?P"
      unfolding runs_answer_def
    proof (intro allI impI)
      fix j w0 v w1 k
      assume j: "j < ?n" and r: "?run j w0 = Inr (v, w1, k)"
      note g = graph_at_wf [OF assms(1) Suc.prems(1) a j]
      with r have "acceptAsync_rec fates (path @ [j]) tg w (length w) (tg_graph tg q ?a (int j))
          (Suc d) w0 (pfc + tg_size tg q ?a - 1) = Inr (v, w1, k)" by simp
      from Suc.hyps(1) [OF m g(2) this] show "(v \<noteq> 0) = ?P j" by simp
    qed
    ultimately have "v = node_value (q \<ge> tg_U tg) ?P ?n"
      by (rule acceptAsync_node_sound [rotated])
    then show ?thesis
      by (simp add: node_value_def accept_value_def dr ex_succs all_succs)
  qed
qed

subsection \<open>When the asynchronous procedure returns\<close>

lemma spawn_children_returns:
  assumes "\<And>j. j < n \<Longrightarrow> fate j \<noteq> Dies" and "\<And>j. j < n \<Longrightarrow> \<exists>t. run j 0 = Inr t"
  shows "\<exists>r p k. spawn_children ex fate run i n pipes False forks = Inr (r, p, False, k)"
proof (induction "n - i" arbitrary: i pipes forks)
  case 0
  then show ?case by (simp add: spawn_children.simps [of ex fate run i n])
next
  case (Suc m)
  then have lt: "i < n" and m: "m = n - Suc i" by auto
  from assms(2) [OF lt] obtain v w k where run: "run i 0 = Inr (v, w, k)" by auto
  show ?case
    using Suc.hyps(1) [OF m] lt run assms(1) [OF lt]
    by (cases "fate i") (simp_all add: spawn_children.simps [of ex fate run i n] del: split_paired_Ex)
qed

lemma collect_answers_returns:
  "(\<And>j. i \<le> j \<Longrightarrow> j < n \<Longrightarrow> pipes j \<noteq> None) \<Longrightarrow> \<exists>v. collect_answers ex pipes i n = Inr v"
proof (induction "n - i" arbitrary: i)
  case 0
  then show ?case by (simp add: collect_answers.simps [of ex pipes i n])
next
  case (Suc m)
  then have lt: "i < n" and m: "m = n - Suc i" by auto
  have "\<exists>v. collect_answers ex pipes (Suc i) n = Inr v"
    by (rule Suc.hyps(1) [OF m]) (use Suc.prems in auto)
  with lt Suc.prems [OF le_refl lt] show ?case
    by (auto simp: collect_answers.simps [of ex pipes i n])
qed

lemma collect_answers_stuck:
  assumes "i \<le> j" "j < n" "pipes j = None"
    and "\<And>j. i \<le> j \<Longrightarrow> j < n \<Longrightarrow> answered ex (P j) (fate j) (pipes j) \<and> P j \<noteq> ex"
  shows "collect_answers ex pipes i n = Inl Undefined"
  using assms
proof (induction "n - i" arbitrary: i)
  case 0
  then show ?case by simp
next
  case (Suc m)
  then have lt: "i < n" and m: "m = n - Suc i" by auto
  from Suc.prems(4) [OF le_refl lt] have ans: "answered ex (P i) (fate i) (pipes i)" "P i \<noteq> ex"
    by auto
  show ?case
  proof (cases "pipes i")
    case None
    with lt show ?thesis by (simp add: collect_answers.simps [of ex pipes i n])
  next
    case (Some s)
    with Suc.prems(1,3) have "Suc i \<le> j" by (cases "i = j") auto
    with Suc.hyps(1) [OF m] Suc.prems have "collect_answers ex pipes (Suc i) n = Inl Undefined"
      by simp
    with Some ans lt show ?thesis
      by (auto simp: collect_answers.simps [of ex pipes i n] answered_def)
  qed
qed

lemma acceptAsync_node_returns:
  assumes fate: "\<And>j. fate j = Finishes" and run: "\<And>j w. j < n \<Longrightarrow> \<exists>t. run j w = Inr t"
    and P: "runs_answer run n P"
  shows "\<exists>t. acceptAsync_node ex fate run n w0 = Inr t"
proof (cases "n = 0")
  case True
  then show ?thesis by (simp add: acceptAsync_node_def)
next
  case n: False
  obtain r p k where sp: "spawn_children ex fate run 1 n Map.empty False 0 = Inr (r, p, False, k)"
    using spawn_children_returns [of n fate run ex 1 Map.empty 0] fate run by auto
  from run [of 0] n obtain v w k' where origin: "run 0 w0 = Inr (v, w, k')" by force
  show ?thesis
  proof (cases r)
    case (Some v)
    with n sp show ?thesis by (simp add: acceptAsync_node_def)
  next
    case None
    with spawn_children_sound [OF P sp] fate have "p j \<noteq> None" if "1 \<le> j" "j < n" for j
      using that by (auto simp: answered_def)
    then obtain v' where "collect_answers ex p 1 n = Inr v'"
      using collect_answers_returns [of 1 n p ex] by blast
    with None n sp origin show ?thesis by (simp add: acceptAsync_node_def)
  qed
qed

lemma acceptAsync_rec_returns:
  assumes "wf_graph tg" "wf_word w" and fates: "\<And>p. fates p = Finishes"
  shows "in_Q q \<Longrightarrow> \<exists>t. acceptAsync_rec fates path tg w (length w) q d wl pfc = Inr t"
proof (induction "length w - d" arbitrary: q d path wl pfc)
  case 0
  then show ?case
    by (auto simp: acceptAsync_rec.simps [of _ _ _ _ _ _ d] accepting_at_def or_undefined_def)
next
  case (Suc m)
  then have d: "d < length w" and m: "m = length w - Suc d" by auto
  from assms(2) d have a: "in_A (letter (w ! d))"
    by (simp add: wf_word_def list_all_length)
  show ?case
  proof (cases "Suc wl < RUN_WORKLOAD_LIMIT \<or> pfc > RUN_FORK_LIMIT")
    case True
    have "sync_node tg (\<lambda>t. acceptSync_rec tg w (length w) t (Suc d)) w q d =
        Some (of_bool (accepts tg q (drop d w)))"
      by (rule sync_node_value [OF assms(1) Suc.prems(1) d a acceptSync_rec_value [OF assms(1,2)]]) auto
    with True d show ?thesis
      by (simp add: acceptAsync_rec.simps [of _ _ _ _ _ _ d] or_undefined_def)
  next
    case False
    let ?a = "letter (w ! d)"
    let ?n = "nat (tg_size tg q ?a)"
    let ?run = "\<lambda>i w0. case graph_at tg q ?a (int i) of None \<Rightarrow> Inl Undefined
      | Some t \<Rightarrow> acceptAsync_rec fates (path @ [i]) tg w (length w) t (Suc d) w0
                    (pfc + tg_size tg q ?a - 1)"
    let ?P = "\<lambda>i. accepts tg (tg_graph tg q ?a (int i)) (drop (Suc d) w)"
    have "\<exists>t. acceptAsync_node (q \<ge> tg_U tg) (\<lambda>i. fates (path @ [i])) ?run ?n (Suc wl) = Inr t"
    proof (rule acceptAsync_node_returns)
      show "\<exists>t. ?run j w0 = Inr t" if "j < ?n" for j w0
        using Suc.hyps(1) [OF m] graph_at_wf [OF assms(1) Suc.prems a that] by simp
      show "runs_answer ?run ?n ?P"
        unfolding runs_answer_def
        using acceptAsync_rec_sound [OF assms(1,2)] graph_at_wf [OF assms(1) Suc.prems a]
        by (metis (no_types, lifting) accept_value_nonzero option.simps(5))
    qed (simp add: fates)
    with False d a Suc.prems show ?thesis
      by (simp add: acceptAsync_rec.simps [of _ _ _ _ _ _ d] char_at_def size_at_def
          letter_def [symmetric])
  qed
qed

section \<open>Properties\<close>

text \<open>
  An example: state 0 is universal with successors 1 and 2 by \<open>a\<close>, state 1 existential with
  successor 2 by \<open>a\<close>; 1 and 2 are final.
\<close>

definition demo_graph :: TransitionGraph where
  "demo_graph =
     \<lparr> tg_graph = (\<lambda>q a i. if q = 0 \<and> i = 0 then 1 else 2),
       tg_size = (\<lambda>q a. if a = 0 then (if q = 0 then 2 else if q = 1 then 1 else 0) else 0),
       tg_acceptingStates = (\<lambda>q. if q = 1 \<or> q = 2 then 1 else 0),
       tg_q0 = 0, tg_A = 1, tg_Q = 3, tg_U = 1, tg_F = 2 \<rparr>"

lemma demo_wf [simp]: "wf_graph demo_graph"
  by (auto simp: wf_graph_def demo_graph_def in_Q_def config)

lemma demo_word [simp]: "wf_word ''a''" "wf_word ''aa''"
  by (simp_all add: wf_word_def letter_def in_A_def config)

lemma demo_succs:
  "succs demo_graph q CHR ''a'' = (if q = 0 then [1, 2] else if q = 1 then [2] else [])"
  by (simp add: succs_def demo_graph_def letter_def upt_rec)

lemma demo_accepts: "accepts demo_graph 0 ''a''" "\<not> accepts demo_graph 0 ''aa''"
  by (simp_all add: demo_succs) (simp_all add: demo_graph_def)

lemma demo_q0: "tg_q0 demo_graph = 0"
  by (simp add: demo_graph_def)

text \<open>
  C16: On every graph whose successors are states and every word over the alphabet, acceptSync
  returns, makes no access outside its arrays, and returns non-zero exactly for the words that the
  recursive definition of the README accepts from the initial state.
\<close>

theorem acceptSync_correct:
  assumes "wf_graph tg" "wf_word w"
  shows "\<exists>v. acceptSync tg w = Some v \<and> (v \<noteq> 0 \<longleftrightarrow> accepts tg (tg_q0 tg) w)"
  using acceptSync_value [OF assms] by simp

theorem acceptSync_correct_witness:
  "(\<exists>v. acceptSync demo_graph ''a'' = Some v \<and> v \<noteq> 0) \<and>
   (\<exists>v. acceptSync demo_graph ''aa'' = Some v \<and> v = 0)"
  using acceptSync_correct [OF demo_wf demo_word(1)] acceptSync_correct [OF demo_wf demo_word(2)]
  by (simp add: demo_accepts demo_q0 del: accepts.simps)

text \<open>
  C18: acceptSync accepts a word exactly when the automaton has an accepting run on it, a run being
  the tree of the README: one child below an existential state, one child per successor below a
  universal state, final labels at the depth of the word and universal labels at the other leaves.
\<close>

theorem acceptSync_accepting_run:
  assumes "wf_graph tg" "wf_word w"
  shows "(\<exists>v. acceptSync tg w = Some v \<and> v \<noteq> 0) \<longleftrightarrow>
    (\<exists>t. label t = tg_q0 tg \<and> is_run tg w t \<and> accepting_run tg w t)"
  using acceptSync_value [OF assms] by (simp add: accepts_iff_run [symmetric])

theorem acceptSync_accepting_run_witness:
  "\<exists>t. label t = 0 \<and> is_run demo_graph ''a'' t \<and> accepting_run demo_graph ''a'' t"
  using acceptSync_accepting_run [OF demo_wf demo_word(1)] acceptSync_value [OF demo_wf demo_word(1)]
  by (simp add: demo_q0 demo_accepts del: accepts.simps is_run.simps accepting_run.simps)

text \<open>
  C19: Whatever the operating system makes of the forks, at whatever depth, workload and fork count
  the procedure is entered: if acceptAsync_rec returns a value, it is the value of acceptSync_rec.
\<close>

theorem acceptAsync_rec_agrees:
  assumes "wf_graph tg" "wf_word w" "in_Q q"
    and "acceptAsync_rec fates path tg w (length w) q d workload forks = Inr (v, workload', k)"
  shows "acceptSync_rec tg w (length w) q d = Some v"
  using acceptSync_rec_value [OF assms(1-3)] acceptAsync_rec_sound [OF assms] by simp

theorem acceptAsync_rec_agrees_witness:
  "acceptSync_rec demo_graph ''aa'' (length ''aa'') 0 0 = Some 0 \<and>
   acceptAsync_rec (\<lambda>_. Finishes) [] demo_graph ''aa'' (length ''aa'') 0 0 5 0 = Inr (0, 8, 1)"
proof -
  have run: "acceptAsync_rec (\<lambda>_. Finishes) [] demo_graph ''aa'' (length ''aa'') 0 0 5 0 = Inr (0, 8, 1)"
    by code_simp
  have "in_Q 0" by (simp add: in_Q_def config)
  from acceptAsync_rec_agrees [OF demo_wf demo_word(2) this run] run show ?thesis by blast
qed

text \<open>
  C20: When every fork succeeds and no child is killed, acceptAsync_rec returns a value, so with the
  previous property the answer of acceptSync_rec.
\<close>

theorem acceptAsync_rec_total:
  assumes "wf_graph tg" "wf_word w" "in_Q q" "\<And>p. fates p = Finishes"
  shows "\<exists>v workload' k. acceptAsync_rec fates path tg w (length w) q d workload forks =
    Inr (v, workload', k)"
  using acceptAsync_rec_returns [OF assms(1,2,4,3)] by simp

theorem acceptAsync_rec_total_witness:
  "\<exists>v workload' k. acceptAsync_rec (\<lambda>_. Finishes) [] demo_graph ''aa'' (length ''aa'') 0 0 5 0 =
    Inr (v, workload', k)"
  by (rule acceptAsync_rec_total [OF demo_wf demo_word(2)]) (simp_all add: in_Q_def config)

text \<open>
  C21: As configured, acceptAsync is acceptSync: the workload counter starts at 1 and is 2 at the
  only test against RUN_WORKLOAD_LIMIT, so the branch that forks is never entered, whatever the
  graph, the word and the operating system.
\<close>

theorem acceptAsync_never_forks:
  "acceptAsync fates tg w = or_undefined (map_option (\<lambda>v. (v, 2, 0)) (acceptSync tg w))"
  by (simp add: acceptAsync_def acceptSync_def acceptAsync_rec.simps [of _ _ _ _ _ _ 0]
      acceptSync_rec.simps [of _ _ _ _ 0] config numeral_2_eq_2)

text \<open>
  If a fork fails and no successor has a decisive answer, the parent reads the answer pipe
  that was never opened for the failed fork.
\<close>

theorem acceptAsync_node_failed_fork:
  assumes P: "runs_answer run n P"
    and run: "\<forall>j<n. \<forall>w. run j w \<noteq> Inl Undefined \<and> (\<forall>c. run j w \<noteq> Inl (Exited c))"
    and fate: "\<forall>j<n. fate j \<noteq> Dies" and none: "\<forall>j<n. P j \<noteq> ex"
    and fails: "1 \<le> i" "i < n" "fate i = ForkFails"
  shows "acceptAsync_node ex fate run n workload = Inl Undefined"
proof -
  have total: "\<exists>t. run j w = Inr t" if "j < n" for j w
    using run that by (cases "run j w") (metis stop.exhaust)+
  then obtain r p k where sp: "spawn_children ex fate run 1 n Map.empty False 0 = Inr (r, p, False, k)"
    using spawn_children_returns [of n fate run ex 1 Map.empty 0] fate by blast
  with spawn_children_sound [OF P sp] none have r: "r = None"
    and p: "\<And>j. 1 \<le> j \<Longrightarrow> j < n \<Longrightarrow> answered ex (P j) (fate j) (p j)" by auto
  obtain v w' k' where origin: "run 0 workload = Inr (v, w', k')" using total [of 0] fails by force
  have "\<not> decisive ex v" using runs_answerD [OF P _ origin] none fails by (auto simp: decisive_iff)
  moreover have "collect_answers ex p 1 n = Inl Undefined"
  proof (rule collect_answers_stuck [of 1 i])
    show "p i = None" using p [OF fails(1,2)] fails(3) by (simp add: answered_def)
    show "answered ex (P j) (fate j) (p j) \<and> P j \<noteq> ex" if "1 \<le> j" "j < n" for j
      using p [OF that] none that by simp
  qed (use fails in simp_all)
  ultimately show ?thesis
    using sp r origin fails by (simp add: acceptAsync_node_def)
qed

theorem acceptAsync_node_failed_fork_witness:
  "acceptAsync_node True (\<lambda>i. ForkFails) (\<lambda>i w. Inr (0, w, 0)) 2 5 = Inl Undefined"
  by (rule acceptAsync_node_failed_fork [of _ _ "\<lambda>_. False" _ _ 1]) (simp_all add: runs_answer_def)

text \<open>
  A new transition graph rejects every word, whatever the allocated memory held.
\<close>

theorem newTransitionGraph_rejects:
  assumes "wf_word w"
  shows "acceptSync (newTransitionGraph memory) w = Some 0"
proof -
  let ?tg = "newTransitionGraph memory"
  have wf: "wf_graph ?tg"
    by (auto simp: wf_graph_def newTransitionGraph_def initTransitionGraph_def in_Q_def config)
  have "\<not> accepts ?tg 0 w"
    using assms by (cases w) (auto simp: newTransitionGraph_def initTransitionGraph_def succs_def
        in_Q_def wf_word_def config)
  then show ?thesis
    using acceptSync_value [OF wf assms]
    by (cases "w = []") (simp_all add: accept_value_def newTransitionGraph_def
        initTransitionGraph_def in_Q_def config)
qed

theorem newTransitionGraph_rejects_witness:
  "acceptSync (newTransitionGraph demo_graph) ''a'' = Some 0"
  by (rule newTransitionGraph_rejects) simp

end
