(* ===== verification/ArrayList.thy ===== *)
theory ArrayList
  imports Prelude
begin

text \<open>
  The array list of array_lists.h and array_lists.c.

  A list is the struct \<open>ArrayList\<close>: the buffer, its capacity and the used size. The buffer is the
  list of its cells; a cell is \<open>Junk\<close> until it is written (realloc leaves new cells
  indeterminate), then \<open>Cell v\<close> with \<open>v\<close> the stored pointer, \<open>None\<close> for NULL. Reading junk or
  outside the buffer is undefined, and so is overflow in the capacity computations. The operations
  take the list by pointer, \<open>None\<close> being the null pointer they test for. The allocator is taken to
  serve the requests; when it does not, the process ends (see memalloc.h).

  \<open>al_wf\<close> is the invariant, \<open>al_abs\<close> the abstraction to the sequence of the used cells.
\<close>

section \<open>The data\<close>

datatype 'a cell = Junk | Cell "'a option"

record 'a ArrayList =
  al_data :: "'a cell list"
  al_alloc_size :: int
  al_size :: int

type_synonym 'a al_ptr = "'a ArrayList option"

text \<open>An iterator points to no list or to the list at hand, at a position.\<close>

record ArrayListIterator =
  it_target :: bool
  it_position :: int

definition null_iterator :: ArrayListIterator where
  "null_iterator = \<lparr> it_target = False, it_position = 0 \<rparr>"

definition sizeof_pointer :: int where
  "sizeof_pointer = 8"

definition ARRAY_LIST_AUTORESIZE_FACTOR :: int where
  "ARRAY_LIST_AUTORESIZE_FACTOR = 2"

lemmas array_list_config [config] = sizeof_pointer_def ARRAY_LIST_AUTORESIZE_FACTOR_def

definition al_read :: "'a ArrayList \<Rightarrow> int \<Rightarrow> 'a option option" where
  "al_read l i =
     (if 0 \<le> i \<and> i < int (length (al_data l))
      then (case al_data l ! nat i of Junk \<Rightarrow> None | Cell v \<Rightarrow> Some v) else None)"

definition al_write :: "'a ArrayList \<Rightarrow> int \<Rightarrow> 'a option \<Rightarrow> 'a ArrayList option" where
  "al_write l i v =
     (if 0 \<le> i \<and> i < int (length (al_data l))
      then Some (l\<lparr> al_data := (al_data l)[nat i := Cell v] \<rparr>) else None)"

definition realloc_cells :: "nat \<Rightarrow> 'a cell list \<Rightarrow> 'a cell list" where
  "realloc_cells n cells = take n cells @ replicate (n - length cells) Junk"

section \<open>The operations\<close>

definition ArrayListNew :: "'a ArrayList" where
  "ArrayListNew = \<lparr> al_data = [], al_alloc_size = 0, al_size = 0 \<rparr>"

definition ArrayListResizeCapacity :: "'a ArrayList \<Rightarrow> int \<Rightarrow> 'a ArrayList option" where
  "ArrayListResizeCapacity l min_size =
     (if al_alloc_size l > min_size then Some l
      else if min_size \<le> 0 then Some l
      else do {
        count \<leftarrow> cint (min_size + 1);
        bytes \<leftarrow> cint (count * sizeof_pointer);
        Some (l\<lparr> al_data := realloc_cells (nat count) (al_data l), al_alloc_size := count \<rparr>) })"

definition ArrayListResize :: "'a ArrayList \<Rightarrow> int \<Rightarrow> 'a ArrayList option" where
  "ArrayListResize l min_size =
     (if al_alloc_size l > min_size then Some l
      else if min_size \<le> 0 then ArrayListResizeCapacity l 2
      else do {
        grown \<leftarrow> cint (al_alloc_size l * ARRAY_LIST_AUTORESIZE_FACTOR);
        l \<leftarrow> ArrayListResizeCapacity l grown;
        ArrayListResizeCapacity l min_size })"

function al_fill :: "'a ArrayList \<Rightarrow> int \<Rightarrow> int \<Rightarrow> 'a option \<Rightarrow> 'a ArrayList option" where
  "al_fill l i n v =
     (if i < n then do { l \<leftarrow> al_write l i v; al_fill l (i + 1) n v } else Some l)"
  by pat_completeness auto
termination
  by (relation "measure (\<lambda>(l, i, n, v). nat (n - i))") auto

declare al_fill.simps [simp del]

definition ArrayListResizeFillWith ::
  "'a ArrayList \<Rightarrow> int \<Rightarrow> ('a option \<Rightarrow> 'a option) \<Rightarrow> 'a ArrayList option" where
  "ArrayListResizeFillWith l min_size ctor =
     (if al_size l \<ge> min_size then Some l
      else do {
        let oldSize = al_size l;
        capacity \<leftarrow> cint (min_size + 30);
        l \<leftarrow> ArrayListResize l capacity;
        l \<leftarrow> al_fill l oldSize min_size (ctor None);
        Some (l\<lparr> al_size := min_size \<rparr>) })"

definition ArrayListResizeFill :: "'a ArrayList \<Rightarrow> int \<Rightarrow> 'a ArrayList option" where
  "ArrayListResizeFill l min_size =
     (if al_size l \<ge> min_size then Some l
      else do {
        let oldSize = al_size l;
        capacity \<leftarrow> cint (min_size + 30);
        l \<leftarrow> ArrayListResize l capacity;
        l \<leftarrow> al_fill l oldSize min_size None;
        Some (l\<lparr> al_size := min_size \<rparr>) })"

definition ArrayListPushBack ::
  "'a al_ptr \<Rightarrow> 'a option \<Rightarrow> (ArrayListIterator \<times> 'a al_ptr) option" where
  "ArrayListPushBack lp value = (case lp of
     None \<Rightarrow> Some (null_iterator, None)
   | Some l \<Rightarrow> do {
       needed \<leftarrow> cint (al_size l + 1);
       l \<leftarrow> ArrayListResize l needed;
       l \<leftarrow> al_write l (al_size l) value;
       let l = l\<lparr> al_size := al_size l + 1 \<rparr>;
       Some (\<lparr> it_target = True, it_position = al_size l - 1 \<rparr>, Some l) })"

definition ArrayListPopBack :: "'a al_ptr \<Rightarrow> ('a option \<times> 'a al_ptr) option" where
  "ArrayListPopBack lp = (case lp of
     None \<Rightarrow> Some (None, None)
   | Some l \<Rightarrow>
       if al_size l = 0 then Some (None, Some l)
       else do {
         popped_element \<leftarrow> al_read l (al_size l - 1);
         l \<leftarrow> al_write l (al_size l - 1) None;
         Some (popped_element, Some (l\<lparr> al_size := al_size l - 1 \<rparr>)) })"

definition ArrayListClear :: "'a al_ptr \<Rightarrow> 'a al_ptr option" where
  "ArrayListClear lp = (case lp of
     None \<Rightarrow> Some None
   | Some l \<Rightarrow> do {
       l \<leftarrow> al_fill l 0 (al_size l) None;
       Some (Some (l\<lparr> al_size := 0 \<rparr>)) })"

definition ArrayListDestroy :: "'a al_ptr \<Rightarrow> 'a al_ptr" where
  "ArrayListDestroy lp = (case lp of
     None \<Rightarrow> None
   | Some l \<Rightarrow> if al_alloc_size l \<le> 0 then Some l
              else Some (l\<lparr> al_data := [], al_size := 0, al_alloc_size := 0 \<rparr>))"

definition ArrayListFirst :: "'a al_ptr \<Rightarrow> 'a option option" where
  "ArrayListFirst lp = (case lp of
     None \<Rightarrow> Some None
   | Some l \<Rightarrow> if al_size l = 0 then Some None else al_read l 0)"

definition ArrayListLast :: "'a al_ptr \<Rightarrow> 'a option option" where
  "ArrayListLast lp = (case lp of
     None \<Rightarrow> Some None
   | Some l \<Rightarrow> if al_size l = 0 then Some None else al_read l (al_size l - 1))"

definition ArrayListSize :: "'a al_ptr \<Rightarrow> int" where
  "ArrayListSize lp = (case lp of None \<Rightarrow> 0 | Some l \<Rightarrow> al_size l)"

definition ArrayListEmpty :: "'a al_ptr \<Rightarrow> bool" where
  "ArrayListEmpty lp = (case lp of None \<Rightarrow> True | Some l \<Rightarrow> al_size l = 0)"

definition ArrayListCopy :: "'a al_ptr \<Rightarrow> 'a ArrayList option" where
  "ArrayListCopy lp = (case lp of
     None \<Rightarrow> Some ArrayListNew
   | Some l \<Rightarrow> do {
       new_list \<leftarrow> ArrayListResize ArrayListNew (al_size l);
       if int (length (al_data new_list)) < al_size l \<or> int (length (al_data l)) < al_size l then None
       else Some (new_list\<lparr> al_data := take (nat (al_size l)) (al_data l)
                              @ drop (nat (al_size l)) (al_data new_list),
                            al_size := al_size l \<rparr>) })"

section \<open>Positions and iterators\<close>

definition ArrayListGetIteratorAt :: "'a al_ptr \<Rightarrow> int \<Rightarrow> ArrayListIterator" where
  "ArrayListGetIteratorAt lp position = (case lp of
     None \<Rightarrow> null_iterator
   | Some l \<Rightarrow> if position \<ge> 0 \<and> position < al_size l
              then \<lparr> it_target = True, it_position = position \<rparr> else null_iterator)"

definition ArrayListGetValueAt :: "'a al_ptr \<Rightarrow> int \<Rightarrow> ('a option \<times> 'a al_ptr) option" where
  "ArrayListGetValueAt lp position = (case lp of
     None \<Rightarrow> Some (None, None)
   | Some l \<Rightarrow> do {
       l \<leftarrow> (if \<not> (position \<ge> 0 \<and> position < al_size l)
            then do { n \<leftarrow> cint (position + 17); ArrayListResizeFill l n } else Some l);
       if position \<ge> 0 \<and> position < al_size l
       then do { v \<leftarrow> al_read l position; Some (v, Some l) }
       else Some (None, Some l) })"

definition ArrayListSetValueAt ::
  "'a al_ptr \<Rightarrow> int \<Rightarrow> 'a option \<Rightarrow> ('a option \<times> 'a al_ptr) option" where
  "ArrayListSetValueAt lp position value = (case lp of
     None \<Rightarrow> Some (None, None)
   | Some l \<Rightarrow> do {
       l \<leftarrow> (if \<not> (position \<ge> 0 \<and> position < al_size l)
            then do { n \<leftarrow> cint (position + 17); ArrayListResizeFill l n } else Some l);
       if position \<ge> 0 \<and> position < al_size l
       then do {
         ret \<leftarrow> al_read l position;
         l \<leftarrow> al_write l position value;
         Some (ret, Some l) }
       else Some (None, Some l) })"

definition ArrayListBegin :: "'a al_ptr \<Rightarrow> ArrayListIterator" where
  "ArrayListBegin lp = (case lp of
     None \<Rightarrow> null_iterator
   | Some l \<Rightarrow> if al_size l = 0 then null_iterator else \<lparr> it_target = True, it_position = 0 \<rparr>)"

definition ArrayListEnd :: "'a al_ptr \<Rightarrow> ArrayListIterator" where
  "ArrayListEnd lp = (case lp of
     None \<Rightarrow> null_iterator
   | Some l \<Rightarrow> if al_size l = 0 then null_iterator
              else \<lparr> it_target = True, it_position = al_size l - 1 \<rparr>)"

definition ArrayListIsEnd :: "'a ArrayList \<Rightarrow> ArrayListIterator \<Rightarrow> bool" where
  "ArrayListIsEnd l it = (if \<not> it_target it then True else it_position it \<ge> al_size l)"

definition ArrayListIsBegin :: "ArrayListIterator \<Rightarrow> bool" where
  "ArrayListIsBegin it = (if \<not> it_target it then True else it_position it \<le> 0)"

definition ArrayListIsSideElement :: "'a ArrayList \<Rightarrow> ArrayListIterator \<Rightarrow> bool" where
  "ArrayListIsSideElement l it = (ArrayListIsBegin it \<or> ArrayListIsEnd l it)"

definition ArrayListNext :: "'a ArrayList \<Rightarrow> ArrayListIterator \<Rightarrow> ArrayListIterator" where
  "ArrayListNext l it = (if ArrayListIsEnd l it then null_iterator
     else it\<lparr> it_position := it_position it + 1 \<rparr>)"

definition ArrayListPrevious :: "ArrayListIterator \<Rightarrow> ArrayListIterator" where
  "ArrayListPrevious it = (if ArrayListIsBegin it then null_iterator
     else it\<lparr> it_position := it_position it - 1 \<rparr>)"

definition ArrayListGetValue :: "'a ArrayList \<Rightarrow> ArrayListIterator \<Rightarrow> 'a option option" where
  "ArrayListGetValue l it =
     (if \<not> it_target it then Some None
      else if it_position it < 0 then Some None
      else al_read l (it_position it))"

definition ArrayListSetValue ::
  "'a ArrayList \<Rightarrow> ArrayListIterator \<Rightarrow> 'a option \<Rightarrow> 'a ArrayList option" where
  "ArrayListSetValue l it value =
     (if \<not> it_target it then Some l
      else if it_position it < 0 then Some l
      else al_write l (it_position it) value)"

lemma al_write_size: "al_write l i v = Some l' \<Longrightarrow> al_size l' = al_size l"
  by (auto simp: al_write_def split: if_splits)

lemma ArrayListSetValue_size: "ArrayListSetValue l it v = Some l' \<Longrightarrow> al_size l' = al_size l"
  by (auto simp: ArrayListSetValue_def al_write_size split: if_splits)

text \<open>
  The loops over LOOP_ARRAY_LIST. \<open>al_copy_loop\<close> is the body of ArrayListCopyInto,
  \<open>al_map_loop\<close> the body of ArrayListMapNodes, which also returns the arguments of the calls
  of the mapped function in their order.
\<close>

function al_copy_loop ::
  "'a ArrayList \<Rightarrow> ArrayListIterator \<Rightarrow> 'a al_ptr \<Rightarrow> 'a al_ptr option" where
  "al_copy_loop src it tgt =
     (if ArrayListIsEnd src it then Some tgt
      else do {
        v \<leftarrow> ArrayListGetValue src it;
        (_, tgt) \<leftarrow> ArrayListPushBack tgt v;
        al_copy_loop src (ArrayListNext src it) tgt })"
  by pat_completeness auto
termination
  by (relation "measure (\<lambda>(src, it, tgt). nat (al_size src - it_position it))")
     (auto simp: ArrayListNext_def ArrayListIsEnd_def split: if_splits)

definition ArrayListCopyInto :: "'a al_ptr \<Rightarrow> 'a al_ptr \<Rightarrow> 'a al_ptr option" where
  "ArrayListCopyInto srcp tgt = (case srcp of
     None \<Rightarrow> Some tgt
   | Some src \<Rightarrow> if tgt = None then Some None
                else al_copy_loop src (ArrayListBegin (Some src)) tgt)"

function al_map_loop ::
  "'a ArrayList \<Rightarrow> ArrayListIterator \<Rightarrow> ('a option \<Rightarrow> 'a option) \<Rightarrow> bool
    \<Rightarrow> ('a ArrayList \<times> 'a option list) option" where
  "al_map_loop l it mapping preserveValue =
     (if ArrayListIsEnd l it then Some (l, [])
      else do {
        v \<leftarrow> ArrayListGetValue l it;
        let ret = mapping v;
        l' \<leftarrow> (if \<not> preserveValue then ArrayListSetValue l it ret else Some l);
        (l'', calls) \<leftarrow> al_map_loop l' (ArrayListNext l' it) mapping preserveValue;
        Some (l'', v # calls) })"
  by pat_completeness auto
termination
  by (relation "measure (\<lambda>(l, it, f, p). nat (al_size l - it_position it))")
     (auto simp: ArrayListNext_def ArrayListIsEnd_def split: if_splits dest: ArrayListSetValue_size)

declare al_copy_loop.simps [simp del] al_map_loop.simps [simp del]

definition ArrayListMapNodes ::
  "'a al_ptr \<Rightarrow> ('a option \<Rightarrow> 'a option) \<Rightarrow> bool \<Rightarrow> ('a al_ptr \<times> 'a option list) option" where
  "ArrayListMapNodes lp mapping preserveValue = (case lp of
     None \<Rightarrow> Some (None, [])
   | Some l \<Rightarrow> do {
       (l, calls) \<leftarrow> al_map_loop l (ArrayListBegin (Some l)) mapping preserveValue;
       Some (Some l, calls) })"

definition ArrayListIterate ::
  "'a al_ptr \<Rightarrow> ('a option \<Rightarrow> 'a option) \<Rightarrow> ('a al_ptr \<times> 'a option list) option" where
  "ArrayListIterate lp iterator =
     (if lp = None then Some (None, []) else ArrayListMapNodes lp iterator True)"

definition ArrayListMap ::
  "'a al_ptr \<Rightarrow> ('a option \<Rightarrow> 'a option) \<Rightarrow> ('a al_ptr \<times> 'a option list) option" where
  "ArrayListMap lp mapping =
     (if lp = None then Some (None, []) else ArrayListMapNodes lp mapping False)"

definition ArrayListDeepCopy ::
  "'a al_ptr \<Rightarrow> ('a option \<Rightarrow> 'a option) \<Rightarrow> 'a ArrayList option" where
  "ArrayListDeepCopy lp assigner = (case lp of
     None \<Rightarrow> Some ArrayListNew
   | Some _ \<Rightarrow> do {
       ret \<leftarrow> ArrayListCopy lp;
       (ret', _) \<leftarrow> ArrayListMap (Some ret) assigner;
       ret' })"

text \<open>ArrayListDestroyDeep hands every element to the deallocator, in order, then destroys.\<close>

definition ArrayListDestroyDeep ::
  "'a al_ptr \<Rightarrow> ('a al_ptr \<times> 'a option list) option" where
  "ArrayListDestroyDeep lp = (case lp of
     None \<Rightarrow> Some (None, [])
   | Some l \<Rightarrow> do {
       (l, calls) \<leftarrow> al_map_loop l (ArrayListBegin (Some l)) id True;
       Some (ArrayListDestroy (Some l), calls) })"

end
