(* ===== verification/ArrayListCorrect.thy ===== *)
theory ArrayListCorrect
  imports ArrayList
begin

text \<open>
  The array list implements sequences of pointers. \<open>al_rep l vs\<close> relates a list to the sequence
  \<open>vs\<close> of its used cells, none of which is junk; \<open>al_ok B l vs\<close> adds that no capacity beyond
  \<open>B\<close> was ever requested, which keeps the capacity below \<open>2 * B + 2\<close> and every size computation
  inside \<open>int\<close>. The locale \<open>slot_store\<close> is the contract the clients use: an array of
  slots that reads as NULL where nothing was stored.
\<close>

section \<open>Representation\<close>

definition al_rep :: "'a ArrayList \<Rightarrow> 'a option list \<Rightarrow> bool" where
  "al_rep l vs \<longleftrightarrow> (\<exists>rest. al_data l = map Cell vs @ rest \<and> al_size l = int (length vs) \<and>
     al_alloc_size l = int (length vs) + int (length rest))"

definition al_ok :: "int \<Rightarrow> 'a ArrayList \<Rightarrow> 'a option list \<Rightarrow> bool" where
  "al_ok B l vs \<longleftrightarrow> al_rep l vs \<and> al_alloc_size l \<le> 2 * B + 1 \<and> 1 \<le> B \<and> B < 2 ^ 25"

definition cell_val :: "'a cell \<Rightarrow> 'a option" where
  "cell_val c = (case c of Junk \<Rightarrow> None | Cell v \<Rightarrow> v)"

definition al_abs :: "'a ArrayList \<Rightarrow> 'a option list" where
  "al_abs l = map cell_val (take (nat (al_size l)) (al_data l))"

lemma al_rep_abs: "al_rep l vs \<Longrightarrow> al_abs l = vs"
  by (auto simp: al_rep_def al_abs_def cell_val_def o_def)

lemma al_ok_abs: "al_ok B l vs \<Longrightarrow> al_abs l = vs"
  by (simp add: al_ok_def al_rep_abs)

lemma al_rep_size: "al_rep l vs \<Longrightarrow> al_size l = int (length vs)"
  by (auto simp: al_rep_def)

lemma al_ok_size: "al_ok B l vs \<Longrightarrow> al_size l = int (length vs)"
  by (simp add: al_ok_def al_rep_size)

lemma al_rep_New [simp]: "al_rep ArrayListNew []"
  by (simp add: al_rep_def ArrayListNew_def)

lemma al_ok_New: "1 \<le> B \<Longrightarrow> B < 2 ^ 25 \<Longrightarrow> al_ok B ArrayListNew []"
  by (simp add: al_ok_def) (simp add: ArrayListNew_def)

lemma al_read_rep: "al_rep l vs \<Longrightarrow> 0 \<le> i \<Longrightarrow> i < int (length vs) \<Longrightarrow> al_read l i = Some (vs ! nat i)"
  by (auto simp: al_rep_def al_read_def nth_append)

lemma al_write_rep:
  assumes "al_rep l vs" "0 \<le> i" "i < int (length vs)"
  shows "\<exists>l'. al_write l i v = Some l' \<and> al_rep l' (vs[nat i := v]) \<and> al_alloc_size l' = al_alloc_size l"
  using assms by (auto simp: al_rep_def al_write_def list_update_append map_update)

lemma al_write_ok:
  assumes "al_ok B l vs" "0 \<le> i" "i < int (length vs)"
  shows "\<exists>l'. al_write l i v = Some l' \<and> al_ok B l' (vs[nat i := v])"
  using al_write_rep [of l vs i v] assms by (auto simp: al_ok_def)

section \<open>Growing\<close>

lemma ArrayListResizeCapacity_rep:
  assumes "al_rep l vs" "m < 2 ^ 28 - 1"
  shows "\<exists>l'. ArrayListResizeCapacity l m = Some l' \<and> al_rep l' vs \<and>
    al_alloc_size l' = (if al_alloc_size l > m \<or> m \<le> 0 then al_alloc_size l else m + 1)"
proof (cases "al_alloc_size l > m \<or> m \<le> 0")
  case True
  with assms show ?thesis by (auto simp: ArrayListResizeCapacity_def)
next
  case False
  then have ints: "in_int (m + 1)" "in_int ((m + 1) * sizeof_pointer)"
    using assms(2) by (auto simp: in_int_def config)
  from assms(1) obtain rest where r: "al_data l = map Cell vs @ rest" "al_size l = int (length vs)"
    "al_alloc_size l = int (length vs) + int (length rest)" by (auto simp: al_rep_def)
  from r False have "length (al_data l) \<le> nat (m + 1)" by (simp add: le_nat_iff)
  define gap where "gap = replicate (nat (m + 1) - length (al_data l)) (Junk :: 'a cell)"
  from \<open>length (al_data l) \<le> nat (m + 1)\<close>
  have cells: "realloc_cells (nat (m + 1)) (al_data l) = map Cell vs @ rest @ gap"
    using r(1) by (simp add: realloc_cells_def gap_def del: take_append)
  have total: "int (length vs) + int (length (rest @ gap)) = m + 1"
    using r False \<open>length (al_data l) \<le> nat (m + 1)\<close> by (simp add: gap_def of_nat_diff)
  have "ArrayListResizeCapacity l m = Some
      (l\<lparr> al_data := map Cell vs @ rest @ gap, al_alloc_size := m + 1 \<rparr>)"
    using False ints cells by (simp add: ArrayListResizeCapacity_def)
  moreover have "al_rep (l\<lparr> al_data := map Cell vs @ rest @ gap, al_alloc_size := m + 1 \<rparr>) vs"
    using r(2) total by (auto simp: al_rep_def)
  ultimately show ?thesis using False by auto
qed

lemma ArrayListResize_ok:
  assumes ok: "al_ok B l vs" and m: "m \<le> B"
  shows "\<exists>l'. ArrayListResize l m = Some l' \<and> al_ok B l' vs \<and> m < al_alloc_size l'"
proof -
  from ok have rep: "al_rep l vs" and B: "al_alloc_size l \<le> 2 * B + 1" "1 \<le> B" "B < 2 ^ 25"
    by (auto simp: al_ok_def)
  from rep have pos: "0 \<le> al_alloc_size l" by (auto simp: al_rep_def)
  show ?thesis
  proof (cases "al_alloc_size l > m")
    case True
    with ok show ?thesis by (simp add: ArrayListResize_def)
  next
    case small: False
    show ?thesis
    proof (cases "m \<le> 0")
      case True
      with small pos have "al_alloc_size l = 0" "m = 0" by auto
      with ArrayListResizeCapacity_rep [OF rep, of 2] B small show ?thesis
        by (auto simp: ArrayListResize_def al_ok_def)
    next
      case False
      have "in_int (al_alloc_size l * ARRAY_LIST_AUTORESIZE_FACTOR)"
        using pos B by (simp add: in_int_def config)
      moreover obtain l1 where l1: "ArrayListResizeCapacity l
          (al_alloc_size l * ARRAY_LIST_AUTORESIZE_FACTOR) = Some l1" "al_rep l1 vs"
        "al_alloc_size l1 \<le> 2 * al_alloc_size l + 1"
        using ArrayListResizeCapacity_rep [OF rep, of "al_alloc_size l * ARRAY_LIST_AUTORESIZE_FACTOR"]
          pos B by (auto simp: config split: if_splits)
      moreover obtain l2 where "ArrayListResizeCapacity l1 m = Some l2" "al_rep l2 vs"
        "al_alloc_size l2 = (if al_alloc_size l1 > m \<or> m \<le> 0 then al_alloc_size l1 else m + 1)"
        using ArrayListResizeCapacity_rep [OF l1(2), of m] m B by auto
      ultimately show ?thesis
        using small False m B by (auto simp: ArrayListResize_def al_ok_def)
    qed
  qed
qed

lemma al_fill_data:
  "al_data l = map Cell us @ rest \<Longrightarrow> n \<le> int (length us) + int (length rest) \<Longrightarrow>
   al_fill l (int (length us)) n v = Some (l\<lparr> al_data :=
     map Cell (us @ replicate (nat n - length us) v) @ drop (nat n - length us) rest \<rparr>)"
proof (induction "nat n - length us" arbitrary: l us rest)
  case 0
  then have "\<not> int (length us) < n" by auto
  with 0 show ?case by (simp add: al_fill.simps [of l "int (length us)" n v])
next
  case (Suc k)
  then have lt: "int (length us) < n" by auto
  with Suc.prems obtain c cs where rest: "rest = c # cs" by (cases rest) auto
  let ?l = "l\<lparr> al_data := map Cell (us @ [v]) @ cs \<rparr>"
  have w: "al_write l (int (length us)) v = Some ?l"
    using Suc.prems rest by (simp add: al_write_def)
  have k: "k = nat n - length (us @ [v])" using Suc.hyps(2) by simp
  have "al_fill ?l (int (length (us @ [v]))) n v = Some (?l\<lparr> al_data :=
      map Cell ((us @ [v]) @ replicate (nat n - length (us @ [v])) v) @
      drop (nat n - length (us @ [v])) cs \<rparr>)"
    by (rule Suc.hyps(1) [OF k]) (use Suc.prems rest in auto)
  moreover have "nat n - length us = Suc (nat n - length (us @ [v]))" using lt by simp
  ultimately show ?case
    using lt w rest by (simp add: al_fill.simps [of l "int (length us)" n v] add.commute)
qed

definition pad :: "nat \<Rightarrow> 'a option list \<Rightarrow> 'a option list" where
  "pad n vs = vs @ replicate (n - length vs) None"

lemma length_pad [simp]: "length (pad n vs) = max n (length vs)"
  by (simp add: pad_def)

lemma ArrayListResizeFill_ok:
  assumes ok: "al_ok B l vs" and m: "m + 30 \<le> B"
  shows "\<exists>l'. ArrayListResizeFill l m = Some l' \<and> al_ok B l' (pad (nat m) vs)"
proof (cases "al_size l \<ge> m")
  case True
  with ok show ?thesis by (simp add: ArrayListResizeFill_def pad_def al_ok_size)
next
  case False
  from ok have B: "1 \<le> B" "B < 2 ^ 25" by (auto simp: al_ok_def)
  then have ints: "in_int (m + 30)"
    using m False al_ok_size [OF ok] by (auto simp: in_int_def)
  obtain l1 where l1: "ArrayListResize l (m + 30) = Some l1" "al_ok B l1 vs"
    "m + 30 < al_alloc_size l1" using ArrayListResize_ok [OF ok m] by blast
  from l1(2) obtain rest where r: "al_data l1 = map Cell vs @ rest"
    "al_alloc_size l1 = int (length vs) + int (length rest)"
    by (auto simp: al_ok_def al_rep_def)
  have "al_fill l1 (int (length vs)) m None = Some (l1\<lparr> al_data :=
     map Cell (vs @ replicate (nat m - length vs) None) @ drop (nat m - length vs) rest \<rparr>)"
    by (rule al_fill_data [OF r(1)]) (use r(2) l1(3) in simp)
  moreover have "al_ok B (l1\<lparr> al_data :=
      map Cell (vs @ replicate (nat m - length vs) None) @ drop (nat m - length vs) rest,
      al_size := m \<rparr>) (pad (nat m) vs)"
    using l1(2,3) r False al_ok_size [OF ok] by (auto simp: al_ok_def al_rep_def pad_def)
  ultimately show ?thesis
    using False l1 ints al_ok_size [OF ok] by (simp add: ArrayListResizeFill_def)
qed

section \<open>The sequence operations\<close>

lemma ArrayListPushBack_ok:
  assumes ok: "al_ok B l vs" and room: "int (length vs) + 1 \<le> B"
  shows "\<exists>l'. ArrayListPushBack (Some l) v =
      Some (\<lparr> it_target = True, it_position = int (length vs) \<rparr>, Some l') \<and> al_ok B l' (vs @ [v])"
proof -
  note size = al_ok_size [OF ok]
  from ok have B: "1 \<le> B" "B < 2 ^ 25" by (auto simp: al_ok_def)
  obtain l1 where l1: "ArrayListResize l (int (length vs) + 1) = Some l1" "al_ok B l1 vs"
    "int (length vs) + 1 < al_alloc_size l1" using ArrayListResize_ok [OF ok room] by blast
  from l1(2) obtain rest where r: "al_data l1 = map Cell vs @ rest" "al_size l1 = int (length vs)"
    "al_alloc_size l1 = int (length vs) + int (length rest)"
    by (auto simp: al_ok_def al_rep_def)
  with l1(3) obtain c cs where rest: "rest = c # cs" by (cases rest) auto
  have "al_write l1 (al_size l1) v = Some (l1\<lparr> al_data := map Cell (vs @ [v]) @ cs \<rparr>)"
    using r rest by (simp add: al_write_def)
  moreover have "in_int (int (length vs) + 1)" using room B by (simp add: in_int_def)
  moreover have "al_ok B (l1\<lparr> al_data := map Cell (vs @ [v]) @ cs, al_size := al_size l1 + 1 \<rparr>) (vs @ [v])"
    using l1(2) r rest by (auto simp: al_ok_def al_rep_def)
  ultimately show ?thesis
    using l1 r size by (simp add: ArrayListPushBack_def Let_def)
qed

lemma ArrayListPopBack_ok:
  assumes ok: "al_ok B l (vs @ [v])"
  shows "\<exists>l'. ArrayListPopBack (Some l) = Some (v, Some l') \<and> al_ok B l' vs"
proof -
  obtain l1 where l1: "al_write l (int (length vs)) None = Some l1" "al_ok B l1 (vs @ [None])"
    using al_write_ok [OF ok, of "int (length vs)" None] by auto
  then have "al_ok B (l1\<lparr> al_size := al_size l1 - 1 \<rparr>) vs"
    by (auto simp: al_ok_def al_rep_def)
  moreover have "al_read l (int (length vs)) = Some v"
    using al_read_rep [of l "vs @ [v]" "int (length vs)"] ok by (simp add: al_ok_def)
  ultimately show ?thesis
    using l1(1) al_ok_size [OF ok] by (simp add: ArrayListPopBack_def)
qed

lemma ArrayListPopBack_empty: "al_ok B l [] \<Longrightarrow> ArrayListPopBack (Some l) = Some (None, Some l)"
  by (simp add: ArrayListPopBack_def al_ok_size)

lemma ArrayListClear_ok:
  assumes "al_ok B l vs"
  shows "\<exists>l'. ArrayListClear (Some l) = Some (Some l') \<and> al_ok B l' []"
proof -
  from assms obtain rest where r: "al_data l = map Cell vs @ rest" "al_size l = int (length vs)"
    "al_alloc_size l = int (length vs) + int (length rest)"
    by (auto simp: al_ok_def al_rep_def)
  have "al_fill l (int (length ([] :: 'a option list))) (int (length vs)) None = Some (l\<lparr> al_data :=
     map Cell ([] @ replicate (nat (int (length vs)) - length ([] :: 'a option list)) None) @
     drop (nat (int (length vs)) - length ([] :: 'a option list)) (al_data l) \<rparr>)"
    by (rule al_fill_data) (use r in simp_all)
  with assms r show ?thesis
    by (auto simp: ArrayListClear_def al_ok_def al_rep_def)
qed

lemma ArrayListFirst_ok:
  "al_ok B l vs \<Longrightarrow> ArrayListFirst (Some l) = Some (if vs = [] then None else hd vs)"
  using al_read_rep [of l vs 0]
  by (auto simp: ArrayListFirst_def al_ok_size al_ok_def al_rep_size hd_conv_nth)

lemma ArrayListLast_ok:
  "al_ok B l vs \<Longrightarrow> ArrayListLast (Some l) = Some (if vs = [] then None else last vs)"
  using al_read_rep [of l vs "int (length vs) - 1"]
  by (auto simp: ArrayListLast_def al_ok_def al_rep_size last_conv_nth Suc_le_eq nat_diff_distrib)

lemma ArrayListCopy_ok:
  assumes ok: "al_ok B (l :: 'a ArrayList) vs" and room: "int (length vs) \<le> B"
  shows "\<exists>l'. ArrayListCopy (Some l) = Some l' \<and> al_ok B l' vs"
proof -
  from ok have B: "1 \<le> B" "B < 2 ^ 25" by (auto simp: al_ok_def)
  obtain l1 :: "'a ArrayList" where l1: "ArrayListResize ArrayListNew (int (length vs)) = Some l1" "al_ok B l1 []"
    "int (length vs) < al_alloc_size l1"
    using ArrayListResize_ok [OF al_ok_New [OF B] room] by blast
  from ok obtain rest where r: "al_data l = map Cell vs @ rest" "al_size l = int (length vs)"
    by (auto simp: al_ok_def al_rep_def)
  from l1(2,3) have long: "length vs < length (al_data l1)"
    "al_alloc_size l1 = int (length (al_data l1))" by (auto simp: al_ok_def al_rep_def)
  let ?l = "l1\<lparr> al_data := map Cell vs @ drop (length vs) (al_data l1), al_size := int (length vs) \<rparr>"
  have "al_ok B ?l vs" using l1(2) long by (auto simp: al_ok_def al_rep_def)
  moreover have "ArrayListCopy (Some l) = Some ?l"
    using r l1(1) long(1) by (simp add: ArrayListCopy_def)
  ultimately show ?thesis by blast
qed

text \<open>The loops over iterators visit every element once, in order.\<close>

lemma ArrayListIsEnd_at:
  "al_rep l vs \<Longrightarrow> ArrayListIsEnd l \<lparr> it_target = True, it_position = int i \<rparr> \<longleftrightarrow> length vs \<le> i"
  by (simp add: ArrayListIsEnd_def al_rep_size)

lemma al_map_loop_ok:
  "al_rep l vs \<Longrightarrow> \<exists>l'. al_map_loop l \<lparr> it_target = True, it_position = int i \<rparr> f p =
     Some (l', drop i vs) \<and> al_rep l' (if p then vs else take i vs @ map f (drop i vs)) \<and>
     al_alloc_size l' = al_alloc_size l"
proof (induction "length vs - i" arbitrary: l vs i)
  case 0
  then show ?case
    by (simp add: al_map_loop.simps [of l] ArrayListIsEnd_at)
next
  case (Suc k)
  then have i: "i < length vs" and k: "k = length vs - Suc i" by auto
  let ?it = "\<lparr> it_target = True, it_position = int i \<rparr>"
  have read: "ArrayListGetValue l ?it = Some (vs ! i)"
    using al_read_rep [OF Suc.prems, of "int i"] i by (simp add: ArrayListGetValue_def)
  let ?vs = "if p then vs else vs[i := f (vs ! i)]"
  obtain l1 where l1: "(if \<not> p then ArrayListSetValue l ?it (f (vs ! i)) else Some l) = Some l1"
    "al_rep l1 ?vs" "al_alloc_size l1 = al_alloc_size l"
    using al_write_rep [OF Suc.prems, of "int i"] Suc.prems i
    by (cases p) (auto simp: ArrayListSetValue_def)
  have step: "ArrayListNext l1 ?it = \<lparr> it_target = True, it_position = int (Suc i) \<rparr>"
    using l1(2) i by (simp add: ArrayListNext_def ArrayListIsEnd_at [OF l1(2)] add.commute)
  have k': "k = length ?vs - Suc i" using k by simp
  from Suc.hyps(1) [OF k' l1(2)] obtain l2 where l2:
    "al_map_loop l1 \<lparr> it_target = True, it_position = int (Suc i) \<rparr> f p = Some (l2, drop (Suc i) ?vs)"
    "al_rep l2 (if p then ?vs else take (Suc i) ?vs @ map f (drop (Suc i) ?vs))"
    "al_alloc_size l2 = al_alloc_size l1" by blast
  have "drop i vs = vs ! i # drop (Suc i) vs" using i by (simp add: Cons_nth_drop_Suc)
  with l1 l2 step read i Suc.prems show ?case
    by (auto simp: al_map_loop.simps [of l ?it] ArrayListIsEnd_at take_Suc_conv_app_nth
        split: if_splits)
qed

lemma ArrayListMapNodes_ok:
  assumes "al_rep l vs"
  shows "\<exists>l'. ArrayListMapNodes (Some l) f p = Some (Some l', vs) \<and>
    al_rep l' (if p then vs else map f vs) \<and> al_alloc_size l' = al_alloc_size l"
proof (cases "vs = []")
  case True
  with assms show ?thesis
    by (simp add: ArrayListMapNodes_def ArrayListBegin_def al_rep_size null_iterator_def
        al_map_loop.simps [of l] ArrayListIsEnd_def)
next
  case False
  with al_map_loop_ok [OF assms, of 0 f p] assms show ?thesis
    by (auto simp: ArrayListMapNodes_def ArrayListBegin_def al_rep_size)
qed

lemma al_copy_loop_ok:
  "al_rep src vs \<Longrightarrow> al_ok B tgt ws \<Longrightarrow> int (length ws + (length vs - i)) + 1 \<le> B \<Longrightarrow>
   \<exists>tgt'. al_copy_loop src \<lparr> it_target = True, it_position = int i \<rparr> (Some tgt) = Some (Some tgt') \<and>
     al_ok B tgt' (ws @ drop i vs)"
proof (induction "length vs - i" arbitrary: tgt ws i)
  case 0
  then show ?case by (simp add: al_copy_loop.simps [of src] ArrayListIsEnd_at)
next
  case (Suc k)
  then have i: "i < length vs" and k: "k = length vs - Suc i" by auto
  let ?it = "\<lparr> it_target = True, it_position = int i \<rparr>"
  have read: "ArrayListGetValue src ?it = Some (vs ! i)"
    using al_read_rep [OF Suc.prems(1), of "int i"] i by (simp add: ArrayListGetValue_def)
  have step: "ArrayListNext src ?it = \<lparr> it_target = True, it_position = int (Suc i) \<rparr>"
    using i by (simp add: ArrayListNext_def ArrayListIsEnd_at [OF Suc.prems(1)] add.commute)
  obtain t1 it1 where t1: "ArrayListPushBack (Some tgt) (vs ! i) = Some (it1, Some t1)"
    "al_ok B t1 (ws @ [vs ! i])"
    using ArrayListPushBack_ok [OF Suc.prems(2), of "vs ! i"] Suc.prems(3) i by fastforce
  have room: "int (length (ws @ [vs ! i]) + (length vs - Suc i)) + 1 \<le> B"
    using Suc.prems(3) i by simp
  from Suc.hyps(1) [OF k Suc.prems(1) t1(2) room] obtain t2 where
    "al_copy_loop src \<lparr> it_target = True, it_position = int (Suc i) \<rparr> (Some t1) = Some (Some t2)"
    "al_ok B t2 ((ws @ [vs ! i]) @ drop (Suc i) vs)" by blast
  moreover have "drop i vs = vs ! i # drop (Suc i) vs" using i by (simp add: Cons_nth_drop_Suc)
  ultimately show ?case
    using t1(1) read step i Suc.prems(1)
    by (simp add: al_copy_loop.simps [of src ?it] ArrayListIsEnd_at)
qed

lemma ArrayListCopyInto_ok:
  assumes "al_rep src vs" "al_ok B tgt ws" "int (length ws + length vs) + 1 \<le> B"
  shows "\<exists>tgt'. ArrayListCopyInto (Some src) (Some tgt) = Some (Some tgt') \<and> al_ok B tgt' (ws @ vs)"
proof (cases "vs = []")
  case True
  with assms show ?thesis
    by (simp add: ArrayListCopyInto_def ArrayListBegin_def al_rep_size null_iterator_def
        al_copy_loop.simps [of src] ArrayListIsEnd_def)
next
  case False
  with al_copy_loop_ok [OF assms(1,2), of 0] assms show ?thesis
    by (simp add: ArrayListCopyInto_def ArrayListBegin_def al_rep_size)
qed

lemma ArrayListMap_ok:
  assumes "al_ok B l vs"
  shows "\<exists>l'. ArrayListMap (Some l) f = Some (Some l', vs) \<and> al_ok B l' (map f vs)"
  using ArrayListMapNodes_ok [of l vs f False] assms by (auto simp: ArrayListMap_def al_ok_def)

lemma ArrayListIterate_ok:
  assumes "al_ok B l vs"
  shows "\<exists>l'. ArrayListIterate (Some l) f = Some (Some l', vs) \<and> al_ok B l' vs"
  using ArrayListMapNodes_ok [of l vs f True] assms by (auto simp: ArrayListIterate_def al_ok_def)

lemma ArrayListDeepCopy_ok:
  assumes "al_ok B l vs" "int (length vs) \<le> B"
  shows "\<exists>l'. ArrayListDeepCopy (Some l) f = Some l' \<and> al_ok B l' (map f vs)"
proof -
  obtain l1 where l1: "ArrayListCopy (Some l) = Some l1" "al_ok B l1 vs"
    using ArrayListCopy_ok [OF assms] by blast
  obtain l2 where "ArrayListMap (Some l1) f = Some (Some l2, vs)" "al_ok B l2 (map f vs)"
    using ArrayListMap_ok [OF l1(2)] by blast
  with l1 show ?thesis by (simp add: ArrayListDeepCopy_def)
qed

lemma ArrayListDestroyDeep_ok:
  assumes "al_ok B l vs"
  shows "\<exists>l'. ArrayListDestroyDeep (Some l) = Some (Some l', vs) \<and> al_ok B l' []"
proof -
  have "\<exists>l'. al_map_loop l (ArrayListBegin (Some l)) id True = Some (l', vs) \<and> al_ok B l' vs"
    using ArrayListMapNodes_ok [of l vs id True] assms
    by (auto simp: ArrayListMapNodes_def al_ok_def split: bind_splits)
  then obtain l1 where l1: "al_map_loop l (ArrayListBegin (Some l)) id True = Some (l1, vs)"
    "al_ok B l1 vs" by blast
  have "vs = []" if "al_alloc_size l1 \<le> 0"
    using l1(2) that by (cases vs) (auto simp: al_ok_def al_rep_def)
  with l1 have "al_ok B (the (ArrayListDestroy (Some l1))) []"
    by (auto simp: ArrayListDestroy_def al_ok_def al_rep_def)
  with l1(1) show ?thesis by (auto simp: ArrayListDestroyDeep_def ArrayListDestroy_def)
qed

section \<open>Positions\<close>

text \<open>The value of a slot; slots that were never stored read as NULL.\<close>

definition slot_of :: "'a option list \<Rightarrow> int \<Rightarrow> 'a option" where
  "slot_of vs p = (if 0 \<le> p \<and> p < int (length vs) then vs ! nat p else None)"

lemma slot_of_pad [simp]: "slot_of (pad n vs) = slot_of vs"
  by (auto simp: slot_of_def pad_def nth_append fun_eq_iff nat_less_iff)

lemma slot_of_update:
  "0 \<le> p \<Longrightarrow> p < int (length vs) \<Longrightarrow> slot_of (vs[nat p := v]) = (slot_of vs)(p := v)"
  by (auto simp: slot_of_def fun_eq_iff nth_list_update nat_eq_iff2)

definition in_range :: "'a list \<Rightarrow> int \<Rightarrow> bool" where
  "in_range vs p \<longleftrightarrow> 0 \<le> p \<and> p < int (length vs)"

text \<open>Reading or writing outside the used size first extends the list to \<open>p + 17\<close> elements.\<close>

definition reach :: "int \<Rightarrow> 'a option list \<Rightarrow> 'a option list" where
  "reach p vs = (if in_range vs p then vs else pad (nat (p + 17)) vs)"

lemma slot_of_reach [simp]: "slot_of (reach p vs) = slot_of vs"
  by (simp add: reach_def)

lemma reach_grows: "0 \<le> p \<Longrightarrow> in_range (reach p vs) p"
  by (auto simp: reach_def in_range_def)

lemma reach_ok:
  assumes ok: "al_ok B l vs" and p: "- (2 ^ 30) \<le> p" "p + 47 \<le> B"
  shows "\<exists>l'. (if \<not> (p \<ge> 0 \<and> p < al_size l)
      then do { n \<leftarrow> cint (p + 17); ArrayListResizeFill l n } else Some l) = Some l' \<and>
    al_ok B l' (reach p vs)"
proof (cases "in_range vs p")
  case True
  with ok show ?thesis by (simp add: reach_def in_range_def al_ok_size)
next
  case False
  from ok have "in_int (p + 17)" using p by (auto simp: in_int_def al_ok_def)
  with False ArrayListResizeFill_ok [OF ok, of "p + 17"] p(2) show ?thesis
    by (auto simp: reach_def in_range_def al_ok_size [OF ok])
qed

lemma ArrayListGetValueAt_ok:
  assumes ok: "al_ok B l vs" and p: "- (2 ^ 30) \<le> p" "p + 47 \<le> B"
  shows "\<exists>l'. ArrayListGetValueAt (Some l) p = Some (slot_of vs p, Some l') \<and>
    al_ok B l' (reach p vs)"
proof -
  obtain l' where l': "(if \<not> (p \<ge> 0 \<and> p < al_size l)
      then do { n \<leftarrow> cint (p + 17); ArrayListResizeFill l n } else Some l) = Some l'"
    "al_ok B l' (reach p vs)" using reach_ok [OF assms] by blast
  note size = al_ok_size [OF l'(2)]
  show ?thesis
  proof (cases "in_range (reach p vs) p")
    case True
    then have "al_read l' p = Some (reach p vs ! nat p)"
      using al_read_rep [of l' "reach p vs" p] l'(2) by (simp add: al_ok_def in_range_def)
    moreover have "reach p vs ! nat p = slot_of (reach p vs) p"
      using True by (simp add: slot_of_def in_range_def del: slot_of_reach)
    ultimately show ?thesis
      using True l' size by (simp add: ArrayListGetValueAt_def in_range_def)
  next
    case False
    then have "slot_of (reach p vs) p = None"
      by (auto simp: slot_of_def in_range_def simp del: slot_of_reach)
    with False l' size show ?thesis by (auto simp: ArrayListGetValueAt_def in_range_def)
  qed
qed

lemma ArrayListSetValueAt_ok:
  assumes ok: "al_ok B l vs" and p: "0 \<le> p" "p + 47 \<le> B"
  shows "\<exists>l'. ArrayListSetValueAt (Some l) p v = Some (slot_of vs p, Some l') \<and>
    al_ok B l' ((reach p vs)[nat p := v])"
proof -
  obtain l1 where l1: "(if \<not> (p \<ge> 0 \<and> p < al_size l)
      then do { n \<leftarrow> cint (p + 17); ArrayListResizeFill l n } else Some l) = Some l1"
    "al_ok B l1 (reach p vs)" using reach_ok [OF ok _ p(2)] p(1) by auto
  note size = al_ok_size [OF l1(2)]
  have r: "0 \<le> p" "p < int (length (reach p vs))"
    using reach_grows [OF p(1), of vs] by (auto simp: in_range_def)
  have "al_read l1 p = Some (slot_of (reach p vs) p)"
    using al_read_rep [of l1 "reach p vs" p] l1(2) r
    by (simp add: al_ok_def slot_of_def del: slot_of_reach)
  moreover obtain l2 where "al_write l1 p v = Some l2" "al_ok B l2 ((reach p vs)[nat p := v])"
    using al_write_ok [OF l1(2) r, of v] by blast
  ultimately show ?thesis
    using l1 r size by (simp add: ArrayListSetValueAt_def)
qed

section \<open>The contract of the slots\<close>

text \<open>
  What the clients of positions rely on. \<open>inv B s\<close>: every position asked for so far was at most
  \<open>B - 47\<close>.
\<close>

locale slot_store =
  fixes get :: "'s \<Rightarrow> int \<Rightarrow> ('v option \<times> 's) option"
    and put :: "'s \<Rightarrow> int \<Rightarrow> 'v option \<Rightarrow> ('v option \<times> 's) option"
    and slot :: "'s \<Rightarrow> int \<Rightarrow> 'v option"
    and inv :: "int \<Rightarrow> 's \<Rightarrow> bool"
  assumes get_law: "inv B s \<Longrightarrow> - (2 ^ 30) \<le> p \<Longrightarrow> p + 47 \<le> B \<Longrightarrow>
      \<exists>s'. get s p = Some (slot s p, s') \<and> inv B s' \<and> slot s' = slot s"
    and put_law: "inv B s \<Longrightarrow> 0 \<le> p \<Longrightarrow> p + 47 \<le> B \<Longrightarrow>
      \<exists>s'. put s p v = Some (slot s p, s') \<and> inv B s' \<and> slot s' = (slot s)(p := v)"
begin

lemma get_after_put:
  assumes "inv B s" "0 \<le> p" "p + 47 \<le> B" "- (2 ^ 30) \<le> q" "q + 47 \<le> B"
  shows "\<exists>s' s''. put s p v = Some (slot s p, s') \<and>
    get s' q = Some (if q = p then v else slot s q, s'') \<and> inv B s'' \<and> slot s'' = (slot s)(p := v)"
proof -
  obtain s' where s': "put s p v = Some (slot s p, s')" "inv B s'" "slot s' = (slot s)(p := v)"
    using put_law [OF assms(1-3)] by blast
  obtain s'' where "get s' q = Some (slot s' q, s'')" "inv B s''" "slot s'' = slot s'"
    using get_law [OF s'(2) assms(4,5)] by blast
  with s' show ?thesis by auto
qed

lemma put_twice:
  assumes "inv B s" "0 \<le> p" "p + 47 \<le> B"
  shows "\<exists>s' s''. put s p v = Some (slot s p, s') \<and> put s' p w = Some (v, s'') \<and>
    inv B s'' \<and> slot s'' = (slot s)(p := w)"
proof -
  obtain s' where s': "put s p v = Some (slot s p, s')" "inv B s'" "slot s' = (slot s)(p := v)"
    using put_law [OF assms] by blast
  obtain s'' where "put s' p w = Some (slot s' p, s'')" "inv B s''" "slot s'' = (slot s')(p := w)"
    using put_law [OF s'(2) assms(2,3)] by blast
  with s' show ?thesis by auto
qed

end

definition al_get :: "'a ArrayList \<Rightarrow> int \<Rightarrow> ('a option \<times> 'a ArrayList) option" where
  "al_get l p = (case ArrayListGetValueAt (Some l) p of
     Some (v, Some l') \<Rightarrow> Some (v, l') | _ \<Rightarrow> None)"

definition al_put :: "'a ArrayList \<Rightarrow> int \<Rightarrow> 'a option \<Rightarrow> ('a option \<times> 'a ArrayList) option" where
  "al_put l p v = (case ArrayListSetValueAt (Some l) p v of
     Some (w, Some l') \<Rightarrow> Some (w, l') | _ \<Rightarrow> None)"

definition al_slot :: "'a ArrayList \<Rightarrow> int \<Rightarrow> 'a option" where
  "al_slot l = slot_of (al_abs l)"

definition al_inv :: "int \<Rightarrow> 'a ArrayList \<Rightarrow> bool" where
  "al_inv B l \<longleftrightarrow> al_ok B l (al_abs l)"

lemma al_inv_ok: "al_ok B l vs \<Longrightarrow> al_inv B l \<and> al_slot l = slot_of vs"
  by (simp add: al_inv_def al_slot_def al_ok_abs)

interpretation als: slot_store al_get al_put al_slot al_inv
proof unfold_locales
  fix B p and l :: "'a ArrayList"
  assume "al_inv B l" "- (2 ^ 30) \<le> p" "p + 47 \<le> B"
  then obtain l' where "ArrayListGetValueAt (Some l) p = Some (slot_of (al_abs l) p, Some l')"
    "al_ok B l' (reach p (al_abs l))"
    using ArrayListGetValueAt_ok unfolding al_inv_def by blast
  then show "\<exists>l'. al_get l p = Some (al_slot l p, l') \<and> al_inv B l' \<and> al_slot l' = al_slot l"
    using al_inv_ok by (auto simp: al_get_def al_slot_def al_ok_abs al_inv_def)
next
  fix B p v and l :: "'a ArrayList"
  assume a: "al_inv B l" "0 \<le> p" "p + 47 \<le> B"
  then obtain l' where l': "ArrayListSetValueAt (Some l) p v = Some (slot_of (al_abs l) p, Some l')"
    "al_ok B l' ((reach p (al_abs l))[nat p := v])"
    using ArrayListSetValueAt_ok unfolding al_inv_def by blast
  have "p < int (length (reach p (al_abs l)))"
    using reach_grows [OF a(2), of "al_abs l"] by (simp add: in_range_def)
  with l' a(2) show "\<exists>l'. al_put l p v = Some (al_slot l p, l') \<and> al_inv B l' \<and>
      al_slot l' = (al_slot l)(p := v)"
    by (auto simp: al_put_def al_slot_def al_ok_abs al_inv_def slot_of_update)
qed

section \<open>Sequences of operations\<close>

text \<open>
  A client's calls as data. \<open>al_step\<close> runs a call on the list, \<open>seq_step\<close> says what it
  promises on the sequence; both return the pointers the call hands out. \<open>fits B\<close> bounds the
  capacity a call asks for.
\<close>

datatype 'a al_op = Push "'a option" | Pop | First | Last | Clear | GetAt int | SetAt int "'a option"
  | MapAll "'a option \<Rightarrow> 'a option" | VisitAll "'a option \<Rightarrow> 'a option"

fun al_step :: "'a al_op \<Rightarrow> 'a ArrayList \<Rightarrow> ('a option list \<times> 'a ArrayList) option" where
  "al_step (Push v) l = do { (it, l') \<leftarrow> ArrayListPushBack (Some l) v; l'' \<leftarrow> l'; Some ([], l'') }"
| "al_step Pop l = do { (v, l') \<leftarrow> ArrayListPopBack (Some l); l'' \<leftarrow> l'; Some ([v], l'') }"
| "al_step First l = do { v \<leftarrow> ArrayListFirst (Some l); Some ([v], l) }"
| "al_step Last l = do { v \<leftarrow> ArrayListLast (Some l); Some ([v], l) }"
| "al_step Clear l = do { l' \<leftarrow> ArrayListClear (Some l); l'' \<leftarrow> l'; Some ([], l'') }"
| "al_step (GetAt p) l = do { (v, l') \<leftarrow> al_get l p; Some ([v], l') }"
| "al_step (SetAt p v) l = do { (w, l') \<leftarrow> al_put l p v; Some ([w], l') }"
| "al_step (MapAll f) l = do { (l', vs) \<leftarrow> ArrayListMap (Some l) f; l'' \<leftarrow> l'; Some (vs, l'') }"
| "al_step (VisitAll f) l = do { (l', vs) \<leftarrow> ArrayListIterate (Some l) f; l'' \<leftarrow> l'; Some (vs, l'') }"

fun seq_step :: "'a al_op \<Rightarrow> 'a option list \<Rightarrow> 'a option list \<times> 'a option list" where
  "seq_step (Push v) vs = ([], vs @ [v])"
| "seq_step Pop vs = (if vs = [] then ([None], []) else ([last vs], butlast vs))"
| "seq_step First vs = ([if vs = [] then None else hd vs], vs)"
| "seq_step Last vs = ([if vs = [] then None else last vs], vs)"
| "seq_step Clear vs = ([], [])"
| "seq_step (GetAt p) vs = ([slot_of vs p], reach p vs)"
| "seq_step (SetAt p v) vs = ([slot_of vs p], (reach p vs)[nat p := v])"
| "seq_step (MapAll f) vs = (vs, map f vs)"
| "seq_step (VisitAll f) vs = (vs, vs)"

fun fits :: "int \<Rightarrow> 'a al_op \<Rightarrow> 'a option list \<Rightarrow> bool" where
  "fits B (Push v) vs = (int (length vs) + 1 \<le> B)"
| "fits B (GetAt p) vs = (- (2 ^ 30) \<le> p \<and> p + 47 \<le> B)"
| "fits B (SetAt p v) vs = (0 \<le> p \<and> p + 47 \<le> B)"
| "fits B _ vs = True"

fun al_run :: "'a al_op list \<Rightarrow> 'a ArrayList \<Rightarrow> ('a option list \<times> 'a ArrayList) option" where
  "al_run [] l = Some ([], l)"
| "al_run (c # cs) l = do { (out, l) \<leftarrow> al_step c l; (outs, l) \<leftarrow> al_run cs l; Some (out @ outs, l) }"

fun seq_run :: "'a al_op list \<Rightarrow> 'a option list \<Rightarrow> 'a option list \<times> 'a option list" where
  "seq_run [] vs = ([], vs)"
| "seq_run (c # cs) vs = (let (out, vs) = seq_step c vs; (outs, vs) = seq_run cs vs in (out @ outs, vs))"

fun run_fits :: "int \<Rightarrow> 'a al_op list \<Rightarrow> 'a option list \<Rightarrow> bool" where
  "run_fits B [] vs = True"
| "run_fits B (c # cs) vs = (fits B c vs \<and> run_fits B cs (snd (seq_step c vs)))"

lemma al_step_ok:
  assumes ok: "al_ok B l vs" and fits: "fits B c vs"
  shows "\<exists>l'. al_step c l = Some (fst (seq_step c vs), l') \<and> al_ok B l' (snd (seq_step c vs))"
proof (cases c)
  case (Push v)
  with ArrayListPushBack_ok [OF ok, of v] fits show ?thesis by auto
next
  case Pop
  with ok ArrayListPopBack_empty [of B l] ArrayListPopBack_ok [of B l "butlast vs" "last vs"]
  show ?thesis by (cases "vs = []") auto
next
  case Clear
  with ArrayListClear_ok [OF ok] show ?thesis by auto
next
  case (GetAt p)
  with ArrayListGetValueAt_ok [OF ok, of p] fits show ?thesis by (auto simp: al_get_def)
next
  case (SetAt p v)
  with ArrayListSetValueAt_ok [OF ok, of p v] fits show ?thesis by (auto simp: al_put_def)
next
  case (MapAll f)
  with ArrayListMap_ok [OF ok, of f] show ?thesis by auto
next
  case (VisitAll f)
  with ArrayListIterate_ok [OF ok, of f] show ?thesis by auto
qed (use ok ArrayListFirst_ok [OF ok] ArrayListLast_ok [OF ok] in auto)

lemma al_run_ok:
  "al_ok B l vs \<Longrightarrow> run_fits B cs vs \<Longrightarrow>
   \<exists>l'. al_run cs l = Some (fst (seq_run cs vs), l') \<and> al_ok B l' (snd (seq_run cs vs))"
proof (induction cs arbitrary: l vs)
  case (Cons c cs)
  obtain l1 where l1: "al_step c l = Some (fst (seq_step c vs), l1)" "al_ok B l1 (snd (seq_step c vs))"
    using al_step_ok [OF Cons.prems(1)] Cons.prems(2) by auto
  with Cons.IH [OF l1(2)] Cons.prems(2) show ?case by (auto split: prod.splits)
qed simp

section \<open>Properties\<close>

text \<open>
  C22: Whatever sequence of calls a client makes on a new array list, as long as no call asks for a
  capacity beyond \<open>2 ^ 25\<close> elements, no call reads or writes outside the buffer, reads an element
  that was never written or overflows a size, and the pointers handed out and the final contents
  are those of the sequence the list stands for.
\<close>

theorem ArrayList_refines_sequence:
  assumes "1 \<le> B" "B < 2 ^ 25" "run_fits B cs []"
  shows "\<exists>l. al_run cs ArrayListNew = Some (fst (seq_run cs []), l) \<and>
    al_abs l = snd (seq_run cs []) \<and> al_size l \<le> al_alloc_size l \<and> al_alloc_size l \<le> 2 * B + 1"
proof -
  obtain l where l: "al_run cs ArrayListNew = Some (fst (seq_run cs []), l)"
    "al_ok B l (snd (seq_run cs []))"
    using al_run_ok [OF al_ok_New [OF assms(1,2)] assms(3)] by blast
  then have "al_abs l = snd (seq_run cs [])" "al_size l \<le> al_alloc_size l" "al_alloc_size l \<le> 2 * B + 1"
    by (auto simp: al_ok_abs al_ok_def al_rep_def)
  with l(1) show ?thesis by blast
qed

theorem ArrayList_refines_sequence_witness:
  "\<exists>l. al_run [Push (Some (7::int)), Push None, SetAt 1 (Some 9), GetAt 1, Pop, First] ArrayListNew =
     Some ([None, Some 9, Some 9, Some 7], l) \<and> al_abs l = [Some 7]"
proof -
  let ?cs = "[Push (Some (7::int)), Push None, SetAt 1 (Some 9), GetAt 1, Pop, First]"
  have "run_fits 100 ?cs []" by simp
  moreover have "seq_run ?cs [] = ([None, Some 9, Some 9, Some 7], [Some 7])"
    by (simp add: slot_of_def reach_def in_range_def)
  ultimately show ?thesis using ArrayList_refines_sequence [of 100 ?cs] by auto
qed

text \<open>
  A value stored at a position is read back from it, and every other position reads as before,
  NULL when nothing was stored there; the store returns the value it replaces.
\<close>

theorem ArrayList_get_after_set:
  assumes "al_inv B l" "0 \<le> p" "p + 47 \<le> B" "- (2 ^ 30) \<le> q" "q + 47 \<le> B"
  shows "\<exists>l' l''. al_put l p v = Some (al_slot l p, l') \<and>
    al_get l' q = Some (if q = p then v else al_slot l q, l'') \<and> al_inv B l'' \<and>
    al_slot l'' = (al_slot l)(p := v)"
  by (rule als.get_after_put [OF assms])

theorem ArrayList_get_after_set_witness:
  "\<exists>l' l''. al_put (ArrayListNew :: nat ArrayList) 5 (Some 1) = Some (None, l') \<and>
    al_get l' 5 = Some (Some 1, l'')"
proof -
  have "al_inv 100 (ArrayListNew :: nat ArrayList) \<and> al_slot (ArrayListNew :: nat ArrayList) = slot_of []"
    by (rule al_inv_ok) (simp add: al_ok_New)
  with ArrayList_get_after_set [of 100 "ArrayListNew :: nat ArrayList" 5 5 "Some 1"]
  show ?thesis by (auto simp: slot_of_def)
qed

text \<open>
  ArrayListCopyInto appends the elements of the source to the target, and ArrayListDeepCopy
  gives a list of the images of the elements and leaves the source alone.
\<close>

theorem ArrayList_copies:
  assumes "al_ok B src vs" "al_ok B tgt ws" "int (length ws + length vs) + 1 \<le> B"
  shows "\<exists>tgt' copy. ArrayListCopyInto (Some src) (Some tgt) = Some (Some tgt') \<and>
    al_abs tgt' = ws @ vs \<and> ArrayListDeepCopy (Some src) f = Some copy \<and> al_abs copy = map f vs"
proof -
  from assms(1) have "al_rep src vs" by (simp add: al_ok_def)
  with ArrayListCopyInto_ok [OF _ assms(2,3)] ArrayListDeepCopy_ok [OF assms(1), of f] assms(3)
  show ?thesis using al_ok_abs by fastforce
qed

theorem ArrayList_copies_witness:
  "\<exists>src tgt' copy. ArrayListPushBack (Some ArrayListNew) (Some (4::nat)) =
     Some (\<lparr> it_target = True, it_position = 0 \<rparr>, Some src) \<and>
   ArrayListCopyInto (Some src) (Some ArrayListNew) = Some (Some tgt') \<and> al_abs tgt' = [Some 4] \<and>
   ArrayListDeepCopy (Some src) (map_option Suc) = Some copy \<and> al_abs copy = [Some 5]"
proof -
  have new: "al_ok 10 (ArrayListNew :: nat ArrayList) []" by (rule al_ok_New) simp_all
  with ArrayListPushBack_ok [OF new, of "Some 4"] obtain src where
    src: "ArrayListPushBack (Some ArrayListNew) (Some (4::nat)) =
     Some (\<lparr> it_target = True, it_position = 0 \<rparr>, Some src)" "al_ok 10 src [Some 4]" by auto
  with ArrayList_copies [OF src(2) new, of "map_option Suc"] show ?thesis by auto
qed

end
