(* ===== verification/CText.thy ===== *)
theory CText
  imports Prelude
begin

text \<open>
  The parts of printf and scanf that the messages of the program are written and read with: the
  directives of a format string, \<open>sprint\<close> for the printing side, \<open>sscanf\<close> for the reading
  side with its return code (the number of conversions, or EOF = -1 when the text ends before the
  first one), and the theorems that reading undoes printing.

  The scanner follows the C library: blanks in the format skip blanks, numbers and %s skip blanks
  first, %c and scan sets do not, %n stores the number of characters consumed and is not counted,
  an integer out of the range of long is clamped and %d keeps its low 32 bits.
\<close>

section \<open>Formats\<close>

datatype directive = Lit char | ConvInt | ConvLong | ConvStr | ConvChar | ConvPos | ConvSet

datatype arg = AInt int | AStr string | AChar char | APos nat

function parse_format :: "string \<Rightarrow> directive list" where
  "parse_format s =
     (if s = [] then []
      else if take 2 s = ''%d'' then ConvInt # parse_format (drop 2 s)
      else if take 4 s = ''%lld'' then ConvLong # parse_format (drop 4 s)
      else if take 2 s = ''%s'' then ConvStr # parse_format (drop 2 s)
      else if take 2 s = ''%c'' then ConvChar # parse_format (drop 2 s)
      else if take 2 s = ''%n'' then ConvPos # parse_format (drop 2 s)
      else if take 8 s = ''%[^NULL]'' then ConvSet # parse_format (drop 8 s)
      else Lit (hd s) # parse_format (tl s))"
  by pat_completeness auto
termination
  by (relation "measure length") (auto simp: neq_Nil_conv)

declare parse_format.simps [simp del]

section \<open>Characters\<close>

definition is_space :: "char \<Rightarrow> bool" where
  "is_space c \<longleftrightarrow> c \<in> {CHR '' '', CHR 0x09, CHR 0x0A, CHR 0x0B, CHR 0x0C, CHR 0x0D}"

definition is_digit :: "char \<Rightarrow> bool" where
  "is_digit c \<longleftrightarrow> 48 \<le> (of_char c :: nat) \<and> (of_char c :: nat) \<le> 57"

definition digit :: "nat \<Rightarrow> char" where
  "digit d = char_of (48 + d)"

definition digit_val :: "char \<Rightarrow> nat" where
  "digit_val c = of_char c - 48"

text \<open>The classes of concrete characters are decided by their bits.\<close>

lemma is_space_Char [simp]:
  "is_space (Char b0 b1 b2 b3 b4 b5 b6 b7) \<longleftrightarrow>
    \<not> b7 \<and> \<not> b6 \<and> \<not> b4 \<and> (if b5 then \<not> b3 \<and> \<not> b2 \<and> \<not> b1 \<and> \<not> b0
      else b3 \<and> (if b2 then \<not> b1 else b1 \<or> b0))"
  by (auto simp: is_space_def)

lemma is_digit_Char [simp]:
  "is_digit (Char b0 b1 b2 b3 b4 b5 b6 b7) \<longleftrightarrow>
    \<not> b7 \<and> \<not> b6 \<and> b5 \<and> b4 \<and> (b3 \<longrightarrow> \<not> b2 \<and> \<not> b1)"
  by (cases b0; cases b1; cases b2; cases b3; cases b4; cases b5; cases b6; cases b7)
     (simp_all add: is_digit_def)

definition in_scan_set :: "char \<Rightarrow> bool" where
  "in_scan_set c \<longleftrightarrow> c \<notin> set ''NULL''"

section \<open>Printing\<close>

fun show_nat :: "nat \<Rightarrow> string" where
  "show_nat n = (if n < 10 then [digit n] else show_nat (n div 10) @ [digit (n mod 10)])"

declare show_nat.simps [simp del]

definition show_int :: "int \<Rightarrow> string" where
  "show_int i = (if i < 0 then CHR ''-'' # show_nat (nat (- i)) else show_nat (nat i))"

fun sprint :: "directive list \<Rightarrow> arg list \<Rightarrow> string" where
  "sprint (Lit c # ds) as = c # sprint ds as"
| "sprint (ConvInt # ds) (AInt i # as) = show_int i @ sprint ds as"
| "sprint (ConvLong # ds) (AInt i # as) = show_int i @ sprint ds as"
| "sprint (ConvStr # ds) (AStr s # as) = s @ sprint ds as"
| "sprint _ _ = []"

definition sprintf :: "string \<Rightarrow> arg list \<Rightarrow> string" where
  "sprintf format args = sprint (parse_format format) args"

section \<open>Scanning\<close>

text \<open>
  \<open>scan_one\<close> consumes one directive from the text \<open>s\<close>, the rest of a text of length \<open>n\<close>.
\<close>

datatype matched = InputEnds | Mismatch | Matched "arg list" int string

definition skip_ws :: "string \<Rightarrow> string" where
  "skip_ws s = dropWhile is_space s"

definition clamp_long :: "int \<Rightarrow> int" where
  "clamp_long x = max (- (2 ^ 63)) (min (2 ^ 63 - 1) x)"

definition read_nat :: "string \<Rightarrow> nat" where
  "read_nat s = foldl (\<lambda>n c. 10 * n + digit_val c) 0 s"

definition scan_int :: "string \<Rightarrow> (int \<times> string) option" where
  "scan_int s =
     (let negative = s \<noteq> [] \<and> hd s = CHR ''-'';
          t = (if s \<noteq> [] \<and> (hd s = CHR ''-'' \<or> hd s = CHR ''+'') then tl s else s);
          ds = takeWhile is_digit t
      in if ds = [] then None
         else Some (clamp_long ((if negative then -1 else 1) * int (read_nat ds)), dropWhile is_digit t))"

definition scan_number :: "(int \<Rightarrow> int) \<Rightarrow> string \<Rightarrow> matched" where
  "scan_number narrow s =
     (if skip_ws s = [] then InputEnds
      else case scan_int (skip_ws s) of None \<Rightarrow> Mismatch
           | Some (v, rest) \<Rightarrow> Matched [AInt (narrow v)] 1 rest)"

fun scan_one :: "directive \<Rightarrow> nat \<Rightarrow> string \<Rightarrow> matched" where
  "scan_one (Lit c) n s =
     (if is_space c then Matched [] 0 (skip_ws s)
      else if s = [] then InputEnds
      else if hd s = c then Matched [] 0 (tl s) else Mismatch)"
| "scan_one ConvInt n s = scan_number wrap32 s"
| "scan_one ConvLong n s = scan_number id s"
| "scan_one ConvStr n s =
     (if skip_ws s = [] then InputEnds
      else Matched [AStr (takeWhile (\<lambda>c. \<not> is_space c) (skip_ws s))] 1
             (dropWhile (\<lambda>c. \<not> is_space c) (skip_ws s)))"
| "scan_one ConvChar n s = (if s = [] then InputEnds else Matched [AChar (hd s)] 1 (tl s))"
| "scan_one ConvPos n s = Matched [APos (n - length s)] 0 s"
| "scan_one ConvSet n s =
     (if s = [] then InputEnds
      else if \<not> in_scan_set (hd s) then Mismatch
      else Matched [AStr (takeWhile in_scan_set s)] 1 (dropWhile in_scan_set s))"

fun sscan :: "directive list \<Rightarrow> nat \<Rightarrow> string \<Rightarrow> int \<Rightarrow> int \<times> arg list" where
  "sscan [] n s count = (count, [])"
| "sscan (d # ds) n s count =
     (case scan_one d n s of
        InputEnds \<Rightarrow> (if count = 0 then -1 else count, [])
      | Mismatch \<Rightarrow> (count, [])
      | Matched as k rest \<Rightarrow> (let (r, bs) = sscan ds n rest (count + k) in (r, as @ bs)))"

definition sscanf :: "string \<Rightarrow> string \<Rightarrow> int \<times> arg list" where
  "sscanf format text = sscan (parse_format format) (length text) text 0"

text \<open>
  The variable behind the i-th pointer argument keeps its value when it was not assigned; \<open>None\<close>
  is a variable that was never written.
\<close>

definition got_int :: "arg list \<Rightarrow> nat \<Rightarrow> int option \<Rightarrow> int option" where
  "got_int as i old =
     (if i < length as then (case as ! i of AInt v \<Rightarrow> Some v | APos p \<Rightarrow> Some (int p) | _ \<Rightarrow> old) else old)"

definition got_str :: "arg list \<Rightarrow> nat \<Rightarrow> string option \<Rightarrow> string option" where
  "got_str as i old = (if i < length as then (case as ! i of AStr s \<Rightarrow> Some s | _ \<Rightarrow> old) else old)"

definition got_char :: "arg list \<Rightarrow> nat \<Rightarrow> char option \<Rightarrow> char option" where
  "got_char as i old = (if i < length as then (case as ! i of AChar c \<Rightarrow> Some c | _ \<Rightarrow> old) else old)"

lemmas got_defs = got_int_def got_str_def got_char_def

section \<open>Reading undoes printing\<close>

lemma of_char_digit: "d < 10 \<Longrightarrow> of_char (digit d) = 48 + (d :: nat)"
  by (simp add: digit_def)

lemma is_digit_digit [simp]: "d < 10 \<Longrightarrow> is_digit (digit d)"
  by (simp add: is_digit_def of_char_digit)

lemma digit_val_digit [simp]: "d < 10 \<Longrightarrow> digit_val (digit d) = d"
  by (simp add: digit_val_def of_char_digit)

lemma show_nat_digits: "\<forall>c \<in> set (show_nat n). is_digit c"
proof (induction n rule: show_nat.induct)
  case (1 n)
  then show ?case by (cases "n < 10") (simp_all add: show_nat.simps [of n])
qed

lemma show_nat_nonempty [simp]: "show_nat n \<noteq> []"
  by (subst show_nat.simps) simp

lemma read_show_nat: "read_nat (show_nat n) = n"
proof (induction n rule: show_nat.induct)
  case (1 n)
  then show ?case
    by (cases "n < 10") (simp_all add: show_nat.simps [of n] read_nat_def)
qed

lemma digit_not_sign: "is_digit c \<Longrightarrow> c \<noteq> CHR ''-'' \<and> c \<noteq> CHR ''+''"
  by (auto simp: is_digit_def)

lemma digit_not_space: "is_digit c \<Longrightarrow> \<not> is_space c"
  by (auto simp: is_digit_def is_space_def)

definition no_digit :: "string \<Rightarrow> bool" where
  "no_digit rest \<longleftrightarrow> rest = [] \<or> \<not> is_digit (hd rest)"

lemma no_digit_simps [simp]: "no_digit []" "no_digit (c # s) \<longleftrightarrow> \<not> is_digit c"
  by (simp_all add: no_digit_def)

lemma span_digits:
  assumes "\<forall>c \<in> set ds. is_digit c" "no_digit rest"
  shows "takeWhile is_digit (ds @ rest) = ds" "dropWhile is_digit (ds @ rest) = rest"
  using assms by (induction ds) (auto simp: no_digit_def, (cases rest; simp)+)

lemma clamp_long_id [simp]: "in_llong x \<Longrightarrow> clamp_long x = x"
  by (simp add: clamp_long_def in_llong_def)

lemma scan_int_show:
  assumes "no_digit rest" "in_llong i"
  shows "scan_int (show_int i @ rest) = Some (i, rest)"
proof -
  have ds: "takeWhile is_digit (show_nat n @ rest) = show_nat n"
    "dropWhile is_digit (show_nat n @ rest) = rest" for n
    using span_digits show_nat_digits assms(1) by blast+
  have head: "hd (show_nat n @ rest) \<noteq> CHR ''-'' \<and> hd (show_nat n @ rest) \<noteq> CHR ''+''" for n
    using show_nat_digits [of n] digit_not_sign by (cases "show_nat n") auto
  show ?thesis
  proof (cases "i < 0")
    case True
    with ds assms(2) show ?thesis by (simp add: scan_int_def show_int_def read_show_nat)
  next
    case False
    with ds head assms(2) show ?thesis
      by (simp add: scan_int_def show_int_def read_show_nat Let_def)
  qed
qed

lemma show_int_nonempty [simp]: "show_int i \<noteq> []"
  by (simp add: show_int_def)

lemma show_int_head: "\<not> is_space (hd (show_int i @ s))"
  using show_nat_digits [of "nat i"] digit_not_space
  by (cases "show_nat (nat i)") (auto simp: show_int_def is_space_def)

lemma show_int_no_space: "\<forall>c \<in> set (show_int i). \<not> is_space c"
  using show_nat_digits digit_not_space by (auto simp: show_int_def is_space_def)

lemma skip_ws_show_int [simp]: "skip_ws (show_int i @ s) = show_int i @ s"
  using show_int_head [of i s] by (cases "show_int i") (simp_all add: skip_ws_def)

lemma skip_ws_show_int_end [simp]: "skip_ws (show_int i) = show_int i"
  using skip_ws_show_int [of i "[]"] by simp

lemma scan_number_show [simp]:
  "no_digit rest \<Longrightarrow> in_llong i \<Longrightarrow>
   scan_number narrow (show_int i @ rest) = Matched [AInt (narrow i)] 1 rest"
  by (simp add: scan_number_def scan_int_show)

lemma scan_number_show_end [simp]:
  "in_llong i \<Longrightarrow> scan_number narrow (show_int i) = Matched [AInt (narrow i)] 1 []"
  using scan_number_show [of "[]" i narrow] by simp

text \<open>A token is a non-empty text without blanks.\<close>

definition token :: "string \<Rightarrow> bool" where
  "token s \<longleftrightarrow> s \<noteq> [] \<and> (\<forall>c \<in> set s. \<not> is_space c)"

lemma skip_ws_token [simp]: "token s \<Longrightarrow> skip_ws (s @ t) = s @ t"
  by (cases s) (auto simp: token_def skip_ws_def)

lemma skip_ws_token_end [simp]: "token s \<Longrightarrow> skip_ws s = s"
  using skip_ws_token [of s "[]"] by simp

lemma skip_ws_space [simp]: "skip_ws (CHR '' '' # s) = skip_ws s"
  by (simp add: skip_ws_def is_space_def)

lemma skip_ws_Cons [simp]: "\<not> is_space c \<Longrightarrow> skip_ws (c # s) = c # s"
  by (simp add: skip_ws_def)

lemma scan_number_skip: "scan_number f (CHR '' '' # s) = scan_number f s"
  by (simp add: scan_number_def)

lemma skip_ws_nil [simp]: "skip_ws [] = []"
  by (simp add: skip_ws_def)

lemma scan_str_token:
  assumes "token s" "t = [] \<or> is_space (hd t)"
  shows "takeWhile (\<lambda>c. \<not> is_space c) (s @ t) = s" "dropWhile (\<lambda>c. \<not> is_space c) (s @ t) = t"
proof -
  have "\<forall>c \<in> set s. \<not> is_space c" using assms(1) by (simp add: token_def)
  then show "takeWhile (\<lambda>c. \<not> is_space c) (s @ t) = s" "dropWhile (\<lambda>c. \<not> is_space c) (s @ t) = t"
    using assms(2) by (cases t; simp add: takeWhile_append dropWhile_append)+
qed

lemma token_show_int: "token (show_int i)"
  by (simp add: token_def show_int_no_space)

lemma token_append: "token s \<Longrightarrow> \<forall>c \<in> set t. \<not> is_space c \<Longrightarrow> token (s @ t)"
  by (auto simp: token_def)

text \<open>
  \<open>scannable ds as t\<close>: the text printed for \<open>as\<close> and followed by \<open>t\<close> keeps its parts
  apart, so that a number is not followed by a digit, a %s argument is a token that a blank
  or the end follows, and a blank of the format is not followed by another one.
\<close>

fun scannable :: "directive list \<Rightarrow> arg list \<Rightarrow> string \<Rightarrow> bool" where
  "scannable [] [] t = True"
| "scannable (Lit c # ds) as t =
     ((is_space c \<longrightarrow> skip_ws (sprint ds as @ t) = sprint ds as @ t) \<and> scannable ds as t)"
| "scannable (ConvInt # ds) (AInt i # as) t =
     (in_int i \<and> no_digit (sprint ds as @ t) \<and> scannable ds as t)"
| "scannable (ConvLong # ds) (AInt i # as) t =
     (in_llong i \<and> no_digit (sprint ds as @ t) \<and> scannable ds as t)"
| "scannable (ConvStr # ds) (AStr s # as) t =
     (token s \<and> (sprint ds as @ t = [] \<or> is_space (hd (sprint ds as @ t))) \<and> scannable ds as t)"
| "scannable _ _ _ = False"

lemma sscan_sprint:
  "scannable ds as t \<Longrightarrow>
   sscan (ds @ ds') n (sprint ds as @ t) k =
     (let (r, bs) = sscan ds' n t (k + int (length as)) in (r, as @ bs))"
proof (induction ds as t arbitrary: k rule: scannable.induct)
  case (2 c ds as t)
  then show ?case by (auto simp: skip_ws_def split: prod.splits)
next
  case (3 ds i as t)
  then show ?case
    by (simp add: in_int_llong wrap32_id split: prod.splits) (simp add: algebra_simps)
next
  case (4 ds i as t)
  then show ?case by (simp split: prod.splits) (simp add: algebra_simps)
next
  case (5 ds s as t)
  then have "s \<noteq> []" by (simp add: token_def)
  with 5 scan_str_token [of s "sprint ds as @ t"] show ?case
    by (simp split: prod.splits) (simp add: algebra_simps)
qed simp_all

text \<open>Decimal representations are short.\<close>

lemma length_show_nat: "0 < k \<Longrightarrow> n < 10 ^ k \<Longrightarrow> length (show_nat n) \<le> k"
proof (induction k arbitrary: n)
  case (Suc k)
  show ?case
  proof (cases "n < 10")
    case True
    then show ?thesis by (simp add: show_nat.simps [of n])
  next
    case False
    then have "n div 10 < 10 ^ k" "0 < k"
      using Suc.prems by (auto simp: less_mult_imp_div_less mult.commute intro: gr0I)
    with Suc.IH False show ?thesis by (simp add: show_nat.simps [of n])
  qed
qed simp

lemma length_show_int: "in_int i \<Longrightarrow> length (show_int i) \<le> 11"
proof -
  assume "in_int i"
  then have "nat \<bar>i\<bar> < 10 ^ 10" by (auto simp: in_int_def)
  then have "length (show_nat (nat \<bar>i\<bar>)) \<le> 10" by (intro length_show_nat) simp_all
  then show ?thesis by (cases "i < 0") (auto simp: show_int_def abs_if)
qed

end
