(* ===== verification/Messages.thy ===== *)
theory Messages
  imports CText
begin

text \<open>
  The messages between tester.c, validator.c and run.c, each as the call that writes it and the
  call that reads it: the registration of a tester, a parse request, the answer to it, the result
  of a worker, the exit notice, and the pipe identifier a worker gets on its command line
  (msg_pipe.h). The lemmas say that each reader gets back what its writer was given.
\<close>

section \<open>Writers\<close>

definition inputQueueName :: "int \<Rightarrow> string" where
  "inputQueueName pid = sprintf ''/FinAutomTesterInQ%d'' [AInt pid]"

definition write_register :: "int \<Rightarrow> string \<Rightarrow> string" where
  "write_register pid queue = sprintf ''register_tester: %lld %s'' [AInt pid, AStr queue]"

definition write_parse :: "int \<Rightarrow> string \<Rightarrow> int \<Rightarrow> string \<Rightarrow> string" where
  "write_parse pid queue loc_id word =
     sprintf ''parse: %lld %s %d %s'' [AInt pid, AStr queue, AInt loc_id, AStr word]"

definition write_answer :: "int \<Rightarrow> int \<Rightarrow> string" where
  "write_answer loc_id result = sprintf ''%d answer: %d'' [AInt loc_id, AInt result]"

definition write_run_terminate :: "int \<Rightarrow> int \<Rightarrow> string" where
  "write_run_terminate pid result = sprintf ''run-terminate: %lld %d'' [AInt pid, AInt result]"

section \<open>Readers\<close>

text \<open>
  Each returns the code of sscanf and the assigned values; the callers keep the old values of the
  variables that were not assigned.
\<close>

definition read_register :: "string \<Rightarrow> int \<times> arg list" where
  "read_register msg = sscanf ''register_tester: %lld %s'' msg"

definition read_parse :: "string \<Rightarrow> int \<times> arg list" where
  "read_parse msg = sscanf ''parse: %lld %s %d %[^NULL]'' msg"

definition read_answer :: "string \<Rightarrow> int \<times> arg list" where
  "read_answer msg = sscanf ''%d answer: %d'' msg"

definition read_run_terminate :: "string \<Rightarrow> int \<times> arg list" where
  "read_run_terminate msg = sscanf ''run-terminate: %lld %d'' msg"

section \<open>The formats\<close>

abbreviation lits :: "string \<Rightarrow> directive list" where
  "lits s \<equiv> map Lit s"

lemma formats:
  "parse_format ''/FinAutomTesterInQ%d'' = lits ''/FinAutomTesterInQ'' @ [ConvInt]"
  "parse_format ''register_tester: %lld %s'' = lits ''register_tester: '' @ [ConvLong, Lit CHR '' '', ConvStr]"
  "parse_format ''parse: %lld %s %d %s'' =
     lits ''parse: '' @ [ConvLong, Lit CHR '' '', ConvStr, Lit CHR '' '', ConvInt, Lit CHR '' '', ConvStr]"
  "parse_format ''parse: %lld %s %d %[^NULL]'' =
     lits ''parse: '' @ [ConvLong, Lit CHR '' '', ConvStr, Lit CHR '' '', ConvInt, Lit CHR '' '', ConvSet]"
  "parse_format ''%d answer: %d'' = ConvInt # lits '' answer: '' @ [ConvInt]"
  "parse_format ''run-terminate: %lld %d'' = lits ''run-terminate: '' @ [ConvLong, Lit CHR '' '', ConvInt]"
  by code_simp+

lemma sprint_lits [simp]: "sprint (lits s @ ds) as = s @ sprint ds as"
  by (induction s) simp_all

section \<open>Round trips\<close>

lemma read_write_register:
  assumes "in_llong pid" "token queue"
  shows "read_register (write_register pid queue) = (2, [AInt pid, AStr queue])"
proof -
  let ?ds = "parse_format ''register_tester: %lld %s''" let ?as = "[AInt pid, AStr queue]"
  have "scannable ?ds ?as []"
    using assms by (simp add: formats)
  from sscan_sprint [OF this, of "[]"] show ?thesis
    by (simp add: read_register_def write_register_def sscanf_def sprintf_def)
qed

lemma read_write_answer:
  assumes "in_int loc_id" "in_int result"
  shows "read_answer (write_answer loc_id result) = (2, [AInt loc_id, AInt result])"
proof -
  let ?ds = "parse_format ''%d answer: %d''" let ?as = "[AInt loc_id, AInt result]"
  have "scannable ?ds ?as []" using assms by (simp add: formats)
  from sscan_sprint [OF this, of "[]"] show ?thesis
    by (simp add: read_answer_def write_answer_def sscanf_def sprintf_def)
qed

lemma read_write_run_terminate:
  assumes "in_llong pid" "in_int result"
  shows "read_run_terminate (write_run_terminate pid result) = (2, [AInt pid, AInt result])"
proof -
  let ?ds = "parse_format ''run-terminate: %lld %d''" let ?as = "[AInt pid, AInt result]"
  have "scannable ?ds ?as []" using assms by (simp add: formats)
  from sscan_sprint [OF this, of "[]"] show ?thesis
    by (simp add: read_run_terminate_def write_run_terminate_def sscanf_def sprintf_def)
qed

text \<open>
  The word of a request survives when it does not begin with a blank and has none of the letters
  N, U and L, which the scan set of the server leaves out. An empty word is not assigned.
\<close>

definition plain_word :: "string \<Rightarrow> bool" where
  "plain_word w \<longleftrightarrow> (\<forall>c \<in> set w. in_scan_set c) \<and> (w = [] \<or> \<not> is_space (hd w))"

lemma scan_set_word:
  "\<forall>c \<in> set w. in_scan_set c \<Longrightarrow> w \<noteq> [] \<Longrightarrow>
   scan_one ConvSet n w = Matched [AStr w] 1 []"
  by (cases w) (simp_all add: takeWhile_eq_all_conv dropWhile_eq_Nil_conv)

lemma read_write_parse:
  assumes "in_llong pid" "token queue" "in_int loc_id" "plain_word w"
  shows "read_parse (write_parse pid queue loc_id w) =
    (if w = [] then (3, [AInt pid, AStr queue, AInt loc_id])
     else (4, [AInt pid, AStr queue, AInt loc_id, AStr w]))"
proof -
  let ?ds = "lits ''parse: '' @ [ConvLong, Lit CHR '' '', ConvStr, Lit CHR '' '', ConvInt]"
  let ?as = "[AInt pid, AStr queue, AInt loc_id]"
  let ?n = "length (write_parse pid queue loc_id w)"
  have msg: "write_parse pid queue loc_id w = sprint ?ds ?as @ CHR '' '' # w"
    by (simp add: write_parse_def sprintf_def formats)
  have "scannable ?ds ?as (CHR '' '' # w)" using assms by simp
  from sscan_sprint [OF this, of "[Lit CHR '' '', ConvSet]" ?n 0]
  have "sscan (?ds @ [Lit CHR '' '', ConvSet]) ?n (write_parse pid queue loc_id w) 0 =
    (let (r, bs) = sscan [Lit CHR '' '', ConvSet] ?n (CHR '' '' # w) 3 in (r, ?as @ bs))"
    unfolding msg by simp
  moreover have "read_parse (write_parse pid queue loc_id w) =
      sscan (?ds @ [Lit CHR '' '', ConvSet]) ?n (write_parse pid queue loc_id w) 0"
    by (simp only: read_parse_def sscanf_def formats append.simps append_assoc)
  moreover have "skip_ws w = w"
    using assms(4) by (cases w) (auto simp: plain_word_def)
  then have "sscan [Lit CHR '' '', ConvSet] ?n (CHR '' '' # w) 3 =
      (if w = [] then (3, []) else (4, [AStr w]))"
    using assms(4) scan_set_word [of w ?n]
    by (cases "w = []") (simp_all add: plain_word_def del: scan_one.simps(7), simp)
  ultimately have "read_parse (write_parse pid queue loc_id w) =
      (let (r, bs) = (if w = [] then (3, []) else (4, [AStr w])) in (r, ?as @ bs))"
    by (simp only:)
  then show ?thesis by simp
qed

lemma token_inputQueueName: "token (inputQueueName pid)"
  by (simp add: inputQueueName_def sprintf_def formats token_def show_int_no_space)

section \<open>Properties\<close>

text \<open>
  C23: What a tester and a worker write, the server reads: registration, parse request and result
  arrive with the values they were sent with, the word of a request provided it does not begin with
  a blank and has none of the letters N, U, L; and the tester reads the answer the server wrote.
\<close>

theorem messages_roundtrip:
  assumes "in_llong pid" "token queue" "in_int loc_id" "in_int result" "plain_word w"
  shows "read_register (write_register pid queue) = (2, [AInt pid, AStr queue]) \<and>
    read_parse (write_parse pid queue loc_id w) =
      (if w = [] then (3, [AInt pid, AStr queue, AInt loc_id])
       else (4, [AInt pid, AStr queue, AInt loc_id, AStr w])) \<and>
    read_run_terminate (write_run_terminate pid result) = (2, [AInt pid, AInt result]) \<and>
    read_answer (write_answer loc_id result) = (2, [AInt loc_id, AInt result])"
  using assms by (simp add: read_write_register read_write_parse read_write_run_terminate read_write_answer)

theorem messages_roundtrip_witness:
  "read_parse (write_parse 4711 (inputQueueName 4711) 3 ''abba'') =
     (4, [AInt 4711, AStr ''/FinAutomTesterInQ4711'', AInt 3, AStr ''abba''])"
proof -
  have "plain_word ''abba''" by (simp add: plain_word_def in_scan_set_def)
  moreover have "inputQueueName 4711 = ''/FinAutomTesterInQ4711''"
    by (simp add: inputQueueName_def sprintf_def formats show_int_def show_nat.simps digit_def char_of_def bit_0)
  ultimately show ?thesis
    using messages_roundtrip [of 4711 "inputQueueName 4711" 3 0 "''abba''"] token_inputQueueName [of 4711]
    by (simp add: in_llong_def in_int_def)
qed

text \<open>
  The buffer of 40 bytes that tester.c allocates for the name of its queue is large enough, and
  the name is within the 50 characters that msgQueueOpenEx copies, whatever the process id.
\<close>

theorem inputQueueName_fits:
  assumes "in_int pid"
  shows "length (inputQueueName pid) + 1 \<le> 40"
  using length_show_int [OF assms] by (simp add: inputQueueName_def sprintf_def formats)

theorem inputQueueName_fits_witness: "length (inputQueueName (- (2 ^ 31))) + 1 \<le> 40"
  by (rule inputQueueName_fits) (simp add: in_int_def)

end
