(* ===== verification/Getline.thy ===== *)
theory Getline
  imports Prelude
begin

text \<open>
  The line readers of getline.h: \<open>getline\<close> on a file stream, \<open>strGets\<close> and
  \<open>strGetline\<close> on a text in memory. Both read into a static array of 256 bytes first; the
  writes are checked against its size and against the size of the caller's buffer, and a write
  outside is \<open>None\<close>. Texts contain no null character; the allocator serves the requests.
\<close>

definition NEWLINE :: char where
  "NEWLINE = CHR 0x0A"

definition LINE_ARRAY :: nat where
  "LINE_ARRAY = 256"

text \<open>
  The caller's line buffer, \<open>*lineptr\<close> with its size \<open>*n\<close>. The callers allocate it with calloc,
  so that it holds the empty text at first.
\<close>

record line_buffer =
  lb_text :: string
  lb_size :: nat

definition upto_newline :: "string \<Rightarrow> string" where
  "upto_newline s = takeWhile (\<lambda>c. c \<noteq> NEWLINE) s"

text \<open>
  The common tail of both readers: \<open>line\<close> is the static array, cut at the newline; the caller's
  buffer becomes one of 256 bytes unless the line fills the array, then the line is copied.
\<close>

definition store_line :: "string \<Rightarrow> line_buffer \<Rightarrow> (int \<times> line_buffer) option" where
  "store_line line lb =
     (let line = upto_newline line;
          len = length line;
          lb = (if len + 1 < LINE_ARRAY then lb\<lparr> lb_size := LINE_ARRAY \<rparr> else lb)
      in if len + 1 \<le> lb_size lb then Some (int len, lb\<lparr> lb_text := line \<rparr>) else None)"

section \<open>Reading from a text\<close>

text \<open>
  \<open>strGets_loop cap n i out s\<close> is the loop of strGets at index \<open>i\<close>, with \<open>out\<close> the characters
  stored so far in the array of \<open>cap\<close> bytes and \<open>s\<close> the stream from there. The result is
  whether \<open>out\<close> (and not NULL) is returned, the array's text and the stream.
\<close>

fun strGets_loop ::
  "nat \<Rightarrow> nat \<Rightarrow> nat \<Rightarrow> string \<Rightarrow> string \<Rightarrow> (bool \<times> string \<times> string) option" where
  "strGets_loop cap n i out [] =
     (if i < cap then Some (i < n \<longrightarrow> i \<noteq> 0, out, []) else None)"
| "strGets_loop cap n i out (c # s) =
     (if i < n then
        if cap \<le> i then None
        else if c = NEWLINE then
          (if i + 1 < cap then Some (True, out @ [c], s) else None)
        else strGets_loop cap n (Suc i) (out @ [c]) s
      else if i < cap then Some (True, out, c # s) else None)"

definition strGets :: "nat \<Rightarrow> nat \<Rightarrow> string option \<Rightarrow> (bool \<times> string \<times> string option) option" where
  "strGets cap n stream = (case stream of
     None \<Rightarrow> Some (False, '''', None)
   | Some s \<Rightarrow> map_option (\<lambda>(r, out, s'). (r, out, Some s')) (strGets_loop cap n 0 '''' s))"

definition strGetline ::
  "line_buffer option \<Rightarrow> string option \<Rightarrow> (int \<times> line_buffer \<times> string option) option" where
  "strGetline lineptr stream = (case lineptr of
     None \<Rightarrow> None
   | Some lb \<Rightarrow>
       (case stream of
          None \<Rightarrow> if lb_size lb = 0 then None else Some (-1, lb\<lparr> lb_text := '''' \<rparr>, None)
        | Some s \<Rightarrow> do {
            (found, line, rest) \<leftarrow> strGets LINE_ARRAY LINE_ARRAY (Some s);
            if \<not> found then Some (-1, lb, rest)
            else do { (len, lb) \<leftarrow> store_line line lb; Some (len, lb, rest) } }))"

section \<open>Reading from a file\<close>

text \<open>A stream is what is left to read and its end-of-file flag.\<close>

record FILE =
  f_rest :: string
  f_eof :: bool
  f_error :: bool

text \<open>fgets stores at most \<open>n - 1\<close> characters, up to and including a newline.\<close>

fun fgets_chars :: "nat \<Rightarrow> string \<Rightarrow> string \<times> string \<times> bool" where
  "fgets_chars 0 s = ('''', s, False)"
| "fgets_chars (Suc k) [] = ('''', [], True)"
| "fgets_chars (Suc k) (c # s) =
     (if c = NEWLINE then ([c], s, False)
      else (let (l, r, e) = fgets_chars k s in (c # l, r, e)))"

definition fgets :: "nat \<Rightarrow> FILE \<Rightarrow> string option \<times> FILE" where
  "fgets n f =
     (let (l, r, e) = fgets_chars (n - 1) (f_rest f); f' = f\<lparr> f_rest := r, f_eof := f_eof f \<or> e \<rparr>
      in if l = [] then (None, f') else (Some l, f'))"

definition getline :: "line_buffer option \<Rightarrow> FILE \<Rightarrow> (int \<times> line_buffer option \<times> FILE) option" where
  "getline lineptr stream = (case lineptr of
     None \<Rightarrow> Some (-1, None, stream)
   | Some lb \<Rightarrow>
       if f_error stream then Some (-1, Some lb, stream)
       else if f_eof stream then Some (-1, Some lb, stream)
       else (case fgets LINE_ARRAY stream of
          (None, stream) \<Rightarrow> Some (-1, Some lb, stream)
        | (Some line, stream) \<Rightarrow> do {
            (len, lb) \<leftarrow> store_line line lb;
            Some (len, Some lb, stream) }))"

section \<open>Lines in a text\<close>

lemma upto_newline_id [simp]: "NEWLINE \<notin> set l \<Longrightarrow> upto_newline l = l"
  by (auto simp: upto_newline_def takeWhile_eq_all_conv)

lemma upto_newline_cut [simp]: "NEWLINE \<notin> set l \<Longrightarrow> upto_newline (l @ NEWLINE # s) = l"
  by (auto simp: upto_newline_def takeWhile_tail)

lemma strGets_loop_newline:
  "NEWLINE \<notin> set l \<Longrightarrow> i + length l < n \<Longrightarrow> i + length l + 1 < cap \<Longrightarrow>
   strGets_loop cap n i out (l @ NEWLINE # s) = Some (True, out @ l @ [NEWLINE], s)"
  by (induction l arbitrary: i out) auto

lemma strGets_loop_end:
  "NEWLINE \<notin> set l \<Longrightarrow> i + length l < n \<Longrightarrow> i + length l < cap \<Longrightarrow>
   strGets_loop cap n i out l = Some (i + length l \<noteq> 0, out @ l, [])"
  by (induction l arbitrary: i out) auto

lemma strGets_loop_full:
  "NEWLINE \<notin> set l \<Longrightarrow> length l = cap - i \<Longrightarrow> cap \<le> n \<Longrightarrow> strGets_loop cap n i out (l @ s) = None"
proof (induction l arbitrary: i out)
  case Nil
  then show ?case by (cases s) auto
next
  case (Cons c l)
  then have "length l = cap - Suc i" by auto
  with Cons show ?case by auto
qed

lemma strGetline_line:
  assumes "NEWLINE \<notin> set l" "length l \<le> 254"
  shows "strGetline (Some lb) (Some (l @ NEWLINE # s)) =
    Some (int (length l), \<lparr> lb_text = l, lb_size = 256 \<rparr>, Some s)"
  using assms strGets_loop_newline [OF assms(1), of 0 LINE_ARRAY LINE_ARRAY "''''" s]
  by (simp add: strGetline_def strGets_def store_line_def LINE_ARRAY_def Let_def)

lemma strGetline_last:
  assumes "NEWLINE \<notin> set l" "length l \<le> 254" "l \<noteq> []"
  shows "strGetline (Some lb) (Some l) =
    Some (int (length l), \<lparr> lb_text = l, lb_size = 256 \<rparr>, Some [])"
  using assms strGets_loop_end [OF assms(1), of 0 LINE_ARRAY LINE_ARRAY "''''"]
  by (simp add: strGetline_def strGets_def store_line_def LINE_ARRAY_def Let_def)

lemma strGetline_eof [simp]: "strGetline (Some lb) (Some []) = Some (-1, lb, Some [])"
  by (simp add: strGetline_def strGets_def LINE_ARRAY_def)

text \<open>Every successful call consumes something.\<close>

lemma strGets_loop_shrinks:
  "strGets_loop cap n i out s = Some (True, out', s') \<Longrightarrow> i < n \<Longrightarrow> i = 0 \<Longrightarrow> length s' < length s"
proof -
  have le: "strGets_loop cap n j out s = Some (r, out', s') \<Longrightarrow> length s' \<le> length s" for j out s r
    by (induction cap n j out s rule: strGets_loop.induct) (auto split: if_splits)
  assume a: "strGets_loop cap n i out s = Some (True, out', s')" "i < n" "i = 0"
  show ?thesis
  proof (cases s)
    case (Cons c t)
    with a le [of "Suc i" "out @ [c]" t True] show ?thesis by (auto split: if_splits)
  qed (use a in \<open>auto split: if_splits\<close>)
qed

lemma strGetline_shrinks:
  assumes "strGetline (Some lb) (Some s) = Some (len, lb', rest)" "len \<noteq> -1"
  shows "\<exists>s'. rest = Some s' \<and> length s' < length s"
  using assms strGets_loop_shrinks [of LINE_ARRAY LINE_ARRAY 0 "''''" s]
  by (auto simp: strGetline_def strGets_def LINE_ARRAY_def split: if_splits bind_splits)

section \<open>Reading a whole file\<close>

lemma fgets_chars_length: "fgets_chars k s = (l, r, e) \<Longrightarrow> length l + length r = length s"
  by (induction k s arbitrary: l r e rule: fgets_chars.induct) (auto split: prod.splits if_splits)

lemma getline_shrinks:
  assumes "getline (Some lb) f = Some (len, lb', f')" "len \<noteq> -1"
  shows "length (f_rest f') < length (f_rest f)"
proof -
  obtain l r e where c: "fgets_chars (LINE_ARRAY - 1) (f_rest f) = (l, r, e)" by (rule prod_cases3)
  from assms c have "l \<noteq> []" "f_rest f' = r"
    by (auto simp: getline_def fgets_def Let_def split: if_splits option.splits bind_splits)
  with fgets_chars_length [OF c] show ?thesis by (cases l) auto
qed

text \<open>The texts that successive calls of getline put in the buffer, until it returns -1.\<close>

function read_all :: "line_buffer \<Rightarrow> FILE \<Rightarrow> string list option" where
  "read_all lb f = (case getline (Some lb) f of
     Some (len, Some lb', f') \<Rightarrow>
       if len = -1 then Some []
       else do { words \<leftarrow> read_all lb' f'; Some (lb_text lb' # words) }
   | _ \<Rightarrow> None)"
  by pat_completeness auto
termination
  by (relation "measure (\<lambda>(lb, f). length (f_rest f))") (auto simp: getline_shrinks)

declare read_all.simps [simp del]

lemma fgets_chars_line:
  "NEWLINE \<notin> set l \<Longrightarrow> length l < k \<Longrightarrow> fgets_chars k (l @ NEWLINE # s) = (l @ [NEWLINE], s, False)"
proof (induction l arbitrary: k)
  case Nil
  then show ?case by (cases k) auto
next
  case (Cons c l)
  then show ?case by (cases k) auto
qed

lemma fgets_chars_part:
  "NEWLINE \<notin> set l \<Longrightarrow> length l = k \<Longrightarrow> fgets_chars k (l @ s) = (l, s, False)"
  by (induction l arbitrary: k) auto

text \<open>A line of more than 254 characters comes in pieces of 255.\<close>

function pieces :: "string \<Rightarrow> string list" where
  "pieces l = (if length l \<le> 254 then [l] else take 255 l # pieces (drop 255 l))"
  by pat_completeness auto
termination
  by (relation "measure length") auto

declare pieces.simps [simp del]

definition fresh_file :: "string \<Rightarrow> FILE" where
  "fresh_file s = \<lparr> f_rest = s, f_eof = False, f_error = False \<rparr>"

lemma getline_short:
  assumes "NEWLINE \<notin> set l" "length l \<le> 254"
  shows "getline (Some lb) (fresh_file (l @ NEWLINE # s)) =
    Some (int (length l), Some \<lparr> lb_text = l, lb_size = 256 \<rparr>, fresh_file s)"
  using assms fgets_chars_line [of l 255 s]
  by (simp add: getline_def fgets_def store_line_def LINE_ARRAY_def fresh_file_def Let_def)

lemma getline_long:
  assumes "NEWLINE \<notin> set l" "length l = 255" "256 \<le> lb_size lb"
  shows "getline (Some lb) (fresh_file (l @ s)) =
    Some (255, Some (lb\<lparr> lb_text := l \<rparr>), fresh_file s)"
  using assms fgets_chars_part [of l 255 s]
  by (auto simp: getline_def fgets_def store_line_def LINE_ARRAY_def fresh_file_def Let_def)

lemma read_all_step:
  "getline (Some lb) f = Some (len, Some lb', f') \<Longrightarrow> len \<noteq> -1 \<Longrightarrow> lb_text lb' = w \<Longrightarrow>
   read_all lb f = map_option (Cons w) (read_all lb' f')"
  by (simp add: read_all.simps [of lb] map_conv_bind_option o_def)

lemma read_all_line:
  "NEWLINE \<notin> set l \<Longrightarrow> 256 \<le> lb_size lb \<Longrightarrow>
   \<exists>lb'. 256 \<le> lb_size lb' \<and> read_all lb (fresh_file (l @ NEWLINE # s)) =
     map_option (\<lambda>ws. pieces l @ ws) (read_all lb' (fresh_file s))"
proof (induction l arbitrary: lb rule: pieces.induct)
  case (1 l)
  show ?case
  proof (cases "length l \<le> 254")
    case True
    then have "read_all lb (fresh_file (l @ NEWLINE # s)) =
        map_option (Cons l) (read_all \<lparr> lb_text = l, lb_size = 256 \<rparr> (fresh_file s))"
      by (intro read_all_step [OF getline_short]) (use 1 in auto)
    with True show ?thesis
      by (intro exI [of _ "\<lparr> lb_text = l, lb_size = 256 \<rparr>"]) (simp add: pieces.simps [of l])
  next
    case False
    let ?a = "take 255 l" let ?b = "drop 255 l" let ?lb = "lb\<lparr> lb_text := ?a \<rparr>"
    have n: "NEWLINE \<notin> set ?a" "NEWLINE \<notin> set ?b" "length ?a = 255"
      using 1(2) False by (auto dest: in_set_takeD in_set_dropD)
    obtain lb' where lb': "256 \<le> lb_size lb'" "read_all ?lb (fresh_file (?b @ NEWLINE # s)) =
        map_option (\<lambda>ws. pieces ?b @ ws) (read_all lb' (fresh_file s))"
      using 1(1) [OF False n(2), of ?lb] 1(3) by auto
    have "read_all lb (fresh_file (?a @ (?b @ NEWLINE # s))) =
        map_option (Cons ?a) (read_all ?lb (fresh_file (?b @ NEWLINE # s)))"
      by (intro read_all_step [OF getline_long]) (use n 1(3) in auto)
    moreover have "?a @ (?b @ NEWLINE # s) = l @ NEWLINE # s" by (simp flip: append_assoc)
    ultimately have "read_all lb (fresh_file (l @ NEWLINE # s)) =
        map_option (Cons ?a) (read_all ?lb (fresh_file (?b @ NEWLINE # s)))" by metis
    with lb' False show ?thesis
      by (intro exI [of _ lb']) (simp add: pieces.simps [of l] option.map_comp o_def)
  qed
qed

lemma read_all_lines:
  assumes "\<forall>l \<in> set ls. NEWLINE \<notin> set l" "256 \<le> lb_size lb"
  shows "read_all lb (fresh_file (concat (map (\<lambda>l. l @ [NEWLINE]) ls))) = Some (concat (map pieces ls))"
  using assms
proof (induction ls arbitrary: lb)
  case Nil
  then show ?case
    by (simp add: read_all.simps [of lb] getline_def fgets_def LINE_ARRAY_def fresh_file_def numeral_eq_Suc)
next
  case (Cons l ls)
  with read_all_line [of l lb "concat (map (\<lambda>l. l @ [NEWLINE]) ls)"] show ?case by auto
qed

section \<open>Properties\<close>



text \<open>
  StrGetline reads a line of up to 254 characters into the buffer and leaves the text after its
  newline; when no newline is among the first 256 characters, strGets writes behind the array.
\<close>

theorem strGetline_correct:
  assumes "NEWLINE \<notin> set l"
  shows "(length l \<le> 254 \<longrightarrow> strGetline (Some lb) (Some (l @ NEWLINE # s)) =
       Some (int (length l), \<lparr> lb_text = l, lb_size = 256 \<rparr>, Some s)) \<and>
    (256 \<le> length l \<longrightarrow> strGetline (Some lb) (Some (l @ NEWLINE # s)) = None)"
proof (intro conjI impI)
  assume "length l \<le> 254"
  with assms show "strGetline (Some lb) (Some (l @ NEWLINE # s)) =
       Some (int (length l), \<lparr> lb_text = l, lb_size = 256 \<rparr>, Some s)"
    by (rule strGetline_line)
next
  assume long: "256 \<le> length l"
  have "strGets_loop LINE_ARRAY LINE_ARRAY 0 [] (take 256 l @ (drop 256 l @ NEWLINE # s)) = None"
    by (rule strGets_loop_full) (use assms long in \<open>auto simp: LINE_ARRAY_def dest: in_set_takeD\<close>)
  moreover have "take 256 l @ (drop 256 l @ NEWLINE # s) = l @ NEWLINE # s" by (simp flip: append_assoc)
  ultimately have "strGets_loop LINE_ARRAY LINE_ARRAY 0 [] (l @ NEWLINE # s) = None" by metis
  then show "strGetline (Some lb) (Some (l @ NEWLINE # s)) = None"
    by (simp add: strGetline_def strGets_def)
qed

theorem strGetline_correct_witness:
  "strGetline (Some \<lparr> lb_text = '''', lb_size = 1020 \<rparr>) (Some (''3 a 4'' @ NEWLINE # ''5'')) =
    Some (5, \<lparr> lb_text = ''3 a 4'', lb_size = 256 \<rparr>, Some ''5'')"
  using strGetline_correct [of "''3 a 4''" "\<lparr> lb_text = '''', lb_size = 1020 \<rparr>" "''5''"]
  by (simp add: NEWLINE_def)

section \<open>Reading a whole file\<close>

text \<open>
  The loop of automaton.h and of autovalidator.c that appends what fgets delivers to \<open>content\<close>, a
  block that is reallocated to \<open>contentSize\<close> bytes and must hold the text with its terminator.
  \<open>n\<close> is the size of the buffer.
\<close>

lemma fgets_shrinks: "fgets n f = (Some l, f') \<Longrightarrow> length (f_rest f') < length (f_rest f)"
  using fgets_chars_length [of "n - 1" "f_rest f"]
  by (auto simp: fgets_def Let_def neq_Nil_conv split: if_splits prod.splits)

function read_content :: "nat \<Rightarrow> nat \<Rightarrow> string \<Rightarrow> FILE \<Rightarrow> (string \<times> FILE) option" where
  "read_content n contentSize content input = (case fgets n input of
     (None, input) \<Rightarrow> Some (content, input)
   | (Some buffer, input) \<Rightarrow>
       let contentSize = contentSize + length buffer in
       if length content + length buffer + 1 \<le> contentSize
       then read_content n contentSize (content @ buffer) input else None)"
  by pat_completeness auto
termination
  by (relation "measure (\<lambda>(n, k, c, f). length (f_rest f))") (auto dest: fgets_shrinks [OF sym])

declare read_content.simps [simp del]

lemma fgets_chars_append: "fgets_chars k s = (l, r, e) \<Longrightarrow> l @ r = s"
  by (induction k s arbitrary: l r e rule: fgets_chars.induct) (auto split: prod.splits if_splits)

lemma fgets_chars_empty: "fgets_chars k s = ([], r, e) \<Longrightarrow> 0 < k \<Longrightarrow> s = [] \<and> r = []"
  by (cases s; cases k) (auto split: prod.splits if_splits)

lemma read_content_all:
  "1 < n \<Longrightarrow> length content < k \<Longrightarrow>
   \<exists>f'. read_content n k content f = Some (content @ f_rest f, f') \<and> f_error f' = f_error f"
proof (induction n k content f rule: read_content.induct)
  case (1 n k content f)
  obtain l r e where c: "fgets_chars (n - 1) (f_rest f) = (l, r, e)" by (rule prod_cases3)
  note whole = fgets_chars_append [OF c]
  let ?f = "f\<lparr> f_rest := r, f_eof := f_eof f \<or> e \<rparr>"
  show ?case
  proof (cases "l = []")
    case True
    have "f_rest f = []" using fgets_chars_empty [of "n - 1" "f_rest f" r e] c True 1(2) by simp
    with True c show ?thesis by (simp add: read_content.simps [of n k] fgets_def Let_def)
  next
    case False
    then have g: "fgets n f = (Some l, ?f)" using c by (simp add: fgets_def)
    have "\<exists>f'. read_content n (k + length l) (content @ l) ?f = Some ((content @ l) @ f_rest ?f, f') \<and>
        f_error f' = f_error ?f"
      by (rule 1(1) [OF g [symmetric]]) (use 1(2,3) in auto)
    with g whole 1(3) show ?thesis by (simp add: read_content.simps [of n k content f])
  qed
qed

end
