(* ===== verification/GraphLoader.thy ===== *)
theory GraphLoader
  imports Automaton CText Getline
begin

text \<open>
  The readers of a description, loadTransitionGraph and printTransitionGraph of automaton.h. The
  description of the automaton is read line by line with strGetline and sscanf.

  The local variables of the loader start out unwritten (\<open>None\<close>) and keep their values from line
  to line when sscanf does not assign them. Reading a variable that was never written, reading
  the line behind its terminator, and an index outside the arrays of the graph are undefined.
\<close>

definition LINE_BUF_SIZE :: nat where
  "LINE_BUF_SIZE = 1020"

definition FILE_BUF_SIZE :: nat where
  "FILE_BUF_SIZE = 3000007"

section \<open>Reading the description\<close>

text \<open>\<open>Inl\<close> is the exit by syserr on a read error.\<close>

definition loadTransitionGraphDescFromStdin :: "FILE \<Rightarrow> stop + string" where
  "loadTransitionGraphDescFromStdin stdin = (case read_content FILE_BUF_SIZE 1 '''' stdin of
     None \<Rightarrow> Inl Undefined
   | Some (content, stdin) \<Rightarrow> if f_error stdin then Inl (Exited (-1)) else Inr content)"

text \<open>
  The same from a file whose contents \<open>fread\<close> delivers at once: the block has a byte more than the
  file, for the terminator. The size of the block is an \<open>int\<close>.
\<close>

definition loadTransitionGraphDescFromFile :: "string \<Rightarrow> stop + string" where
  "loadTransitionGraphDescFromFile input =
     (let fsize = int (length input);
          count = wrap32 (fsize + 1) in
      if count < 0 then Inl (Exited (-1))
      else if fsize < count then Inr input else Inl Undefined)"

section \<open>Printing the graph\<close>

text \<open>Loops that append what their body prints.\<close>

function print_range :: "(int \<Rightarrow> string option) \<Rightarrow> int \<Rightarrow> int \<Rightarrow> string option" where
  "print_range f i n =
     (if i < n then do { out \<leftarrow> f i; outs \<leftarrow> print_range f (i + 1) n; Some (out @ outs) } else Some '''')"
  by pat_completeness auto
termination
  by (relation "measure (\<lambda>(f, i, n). nat (n - i))") auto

declare print_range.simps [simp del]

definition print_target :: "TransitionGraph \<Rightarrow> int \<Rightarrow> int \<Rightarrow> int \<Rightarrow> string option" where
  "print_target tg q a r = do { p \<leftarrow> graph_at tg q a r; Some (sprintf ''%d '' [AInt p]) }"

definition print_edges :: "TransitionGraph \<Rightarrow> int \<Rightarrow> int \<Rightarrow> string option" where
  "print_edges tg q a = do {
     count \<leftarrow> size_at tg q a;
     if count > 0 then do {
       targets \<leftarrow> print_range (print_target tg q a) 0 count;
       Some (sprintf ''  %d --[%c]--> { '' [AInt q, AChar (char_of (nat (a + 97)))] @ targets @ ''}'' @ [NEWLINE]) }
     else Some '''' }"

definition printTransitionGraph :: "TransitionGraph \<Rightarrow> string option" where
  "printTransitionGraph tg = do {
     out \<leftarrow> print_range (\<lambda>q. print_range (print_edges tg q) 0 MAX_A) 0 MAX_Q;
     Some (''Transition graph: {'' @ [NEWLINE] @ out @ ''}'' @ [NEWLINE]) }"

section \<open>Loading the graph\<close>

record loader_vars =
  ld_q :: "int option"
  ld_a :: "char option"
  ld_pos :: "int option"
  ld_npos :: "int option"
  ld_r :: "int option"

definition unwritten :: loader_vars where
  "unwritten = \<lparr> ld_q = None, ld_a = None, ld_pos = None, ld_npos = None, ld_r = None \<rparr>"

text \<open>The text at \<open>line_buf + pos\<close>.\<close>

definition text_at :: "string \<Rightarrow> int \<Rightarrow> string option" where
  "text_at line pos = (if 0 \<le> pos \<and> pos \<le> int (length line) then Some (drop (nat pos) line) else None)"

definition set_accepting :: "TransitionGraph \<Rightarrow> int \<Rightarrow> TransitionGraph option" where
  "set_accepting tg q =
     (if in_Q q then Some (tg\<lparr> tg_acceptingStates := (tg_acceptingStates tg)(q := 1) \<rparr>) else None)"

text \<open>\<open>graph[q][l][size[q][l]++] = r\<close>\<close>

definition add_edge :: "TransitionGraph \<Rightarrow> int \<Rightarrow> int \<Rightarrow> int \<Rightarrow> TransitionGraph option" where
  "add_edge tg q l r = do {
     n \<leftarrow> size_at tg q l;
     if in_Q n then
       Some (tg\<lparr> tg_graph := (tg_graph tg)(q := (tg_graph tg q)(l := (tg_graph tg q l)(n := r))),
                tg_size := (tg_size tg)(q := (tg_size tg q)(l := n + 1)) \<rparr>)
     else None }"

fun load_finals ::
  "nat \<Rightarrow> string \<Rightarrow> loader_vars \<Rightarrow> TransitionGraph \<Rightarrow> (loader_vars \<times> TransitionGraph) option" where
  "load_finals 0 line v tg = Some (v, tg)"
| "load_finals (Suc k) line v tg = do {
     pos \<leftarrow> ld_pos v;
     t \<leftarrow> text_at line pos;
     let (r, as) = sscanf ''%d%n'' t;
     let v = v\<lparr> ld_q := got_int as 0 (ld_q v), ld_npos := got_int as 1 (ld_npos v) \<rparr>;
     q \<leftarrow> ld_q v;
     tg \<leftarrow> set_accepting tg q;
     npos \<leftarrow> ld_npos v;
     load_finals k line (v\<lparr> ld_pos := Some (pos + npos) \<rparr>) tg }"

text \<open>
  The loop over the targets of a transition. It is left when no number is at hand or the line ends;
  sscanf returning EOF, for blanks at the end of the line, counts as a number.
\<close>

partial_function (option) load_targets ::
  "string \<Rightarrow> loader_vars \<Rightarrow> TransitionGraph \<Rightarrow> (loader_vars \<times> TransitionGraph) option" where
  "load_targets line v tg = do {
     pos \<leftarrow> ld_pos v;
     t \<leftarrow> text_at line pos;
     let (k, as) = sscanf ''%d%n'' t;
     if k = 0 then Some (v, tg)
     else do {
       let v = v\<lparr> ld_r := got_int as 0 (ld_r v), ld_npos := got_int as 1 (ld_npos v) \<rparr>;
       npos \<leftarrow> ld_npos v;
       let v = v\<lparr> ld_pos := Some (pos + npos) \<rparr>;
       q \<leftarrow> ld_q v;
       a \<leftarrow> ld_a v;
       r \<leftarrow> ld_r v;
       tg \<leftarrow> add_edge tg q (schar a - schar (CHR ''a'')) r;
       t \<leftarrow> text_at line (pos + npos);
       if t = [] then Some (v, tg) else load_targets line v tg } }"

declare load_targets.simps [code]

definition stream_length :: "string option \<Rightarrow> nat" where
  "stream_length s = (case s of None \<Rightarrow> 0 | Some t \<Rightarrow> length t)"

lemma strGetline_stream:
  "strGetline (Some lb) s = Some (len, lb', s') \<Longrightarrow> len \<noteq> -1 \<Longrightarrow> stream_length s' < stream_length s"
  using strGetline_shrinks [of lb "the s" len lb' s']
  by (cases s) (auto simp: stream_length_def strGetline_def [of _ None] split: if_splits)

text \<open>The loop over the transition lines.\<close>

function load_transitions ::
  "line_buffer \<Rightarrow> string option \<Rightarrow> loader_vars \<Rightarrow> TransitionGraph \<Rightarrow> (TransitionGraph \<times> string option) option"
where
  "load_transitions lb input v tg = (case strGetline (Some lb) input of
     None \<Rightarrow> None
   | Some (getline_size, lb, input) \<Rightarrow>
       if getline_size = -1 then Some (tg, input)
       else if getline_size > 0 then do {
         let (k, as) = sscanf ''%d %c%n'' (lb_text lb);
         let v = v\<lparr> ld_q := got_int as 0 (ld_q v), ld_a := got_char as 1 (ld_a v),
                    ld_pos := got_int as 2 (ld_pos v) \<rparr>;
         if k = 0 then load_transitions lb input v tg
         else do {
           pos \<leftarrow> ld_pos v;
           t \<leftarrow> text_at (lb_text lb) pos;
           if t = [] then Some (tg, input)
           else do {
             (v, tg) \<leftarrow> load_targets (lb_text lb) v tg;
             load_transitions lb input v tg } } }
       else load_transitions lb input v tg)"
  by pat_completeness auto
termination
  by (relation "measure (\<lambda>(lb, s, v, tg). stream_length s)") (auto simp: strGetline_stream)

declare load_transitions.simps [simp del]

text \<open>
  \<open>None\<close> for \<open>input\<close> is the null pointer; the inner option is the text it points to.
\<close>

definition loadTransitionGraph ::
  "string option option \<Rightarrow> TransitionGraph \<Rightarrow> (TransitionGraph \<times> string option option) option" where
  "loadTransitionGraph input tg = (case input of
     None \<Rightarrow> Some (tg, None)
   | Some input \<Rightarrow> do {
       (_, lb, input) \<leftarrow> strGetline (Some \<lparr> lb_text = '''', lb_size = LINE_BUF_SIZE \<rparr>) input;
       let (_, as) = sscanf ''%d %d %d %d %d'' (lb_text lb);
       let tg = tg\<lparr> tg_A := the (got_int as 1 (Some (tg_A tg))), tg_Q := the (got_int as 2 (Some (tg_Q tg))),
                    tg_U := the (got_int as 3 (Some (tg_U tg))), tg_F := the (got_int as 4 (Some (tg_F tg))) \<rparr>;
       (_, lb, input) \<leftarrow> strGetline (Some lb) input;
       let (_, as) = sscanf ''%d'' (lb_text lb);
       let tg = tg\<lparr> tg_q0 := the (got_int as 0 (Some (tg_q0 tg))) \<rparr>;
       (_, lb, input) \<leftarrow> strGetline (Some lb) input;
       (v, tg) \<leftarrow> load_finals (nat (tg_F tg)) (lb_text lb) (unwritten\<lparr> ld_pos := Some 0 \<rparr>) tg;
       (tg, input) \<leftarrow> load_transitions lb input v tg;
       Some (tg, Some input) })"

end
