(* ===== verification/GraphLoaderCorrect.thy ===== *)
theory GraphLoaderCorrect
  imports GraphLoader Messages Acceptance
begin

text \<open>
  The loader reads back what the README calls a description of an automaton. A \<open>description\<close> is
  the data, \<open>render\<close> its text; \<open>described\<close> says what a graph must hold to be the automaton of
  a description. The theorem composes the lemmas on one number, a line of numbers, a transition line
  and the lines of all transitions.
\<close>

section \<open>Descriptions and their text\<close>

type_synonym transition = "int \<times> char \<times> int list"

record description =
  ds_N :: int
  ds_A :: int
  ds_Q :: int
  ds_U :: int
  ds_q0 :: int
  ds_finals :: "int list"
  ds_trans :: "transition list"

definition spaced :: "int list \<Rightarrow> string" where
  "spaced xs = concat (map (\<lambda>x. CHR '' '' # show_int x) xs)"

definition final_line :: "int list \<Rightarrow> string" where
  "final_line xs = (case xs of [] \<Rightarrow> '''' | x # ys \<Rightarrow> show_int x @ spaced ys)"

definition header_line :: "description \<Rightarrow> string" where
  "header_line d = sprintf ''%d %d %d %d %d''
     [AInt (ds_N d), AInt (ds_A d), AInt (ds_Q d), AInt (ds_U d), AInt (int (length (ds_finals d)))]"

definition trans_line :: "transition \<Rightarrow> string" where
  "trans_line t = (case t of (q, c, ts) \<Rightarrow> show_int q @ '' '' @ [c] @ spaced ts)"

definition trans_lines :: "transition list \<Rightarrow> string" where
  "trans_lines trs = concat (map (\<lambda>t. trans_line t @ [NEWLINE]) trs)"

definition render :: "description \<Rightarrow> string" where
  "render d = header_line d @ [NEWLINE] @ show_int (ds_q0 d) @ [NEWLINE] @
     final_line (ds_finals d) @ [NEWLINE] @ trans_lines (ds_trans d)"

text \<open>The successors a list of transitions gives a state, in the order of the lines.\<close>

definition successors :: "transition list \<Rightarrow> int \<Rightarrow> int \<Rightarrow> int list" where
  "successors trs q l =
     concat (map (\<lambda>(q', c, ts). if q' = q \<and> letter c = l then ts else []) trs)"

definition wf_transition :: "transition \<Rightarrow> bool" where
  "wf_transition t = (case t of (q, c, ts) \<Rightarrow>
     in_Q q \<and> in_A (letter c) \<and> ts \<noteq> [] \<and> (\<forall>r \<in> set ts. in_Q r) \<and> length (trans_line t) \<le> 254)"

definition wf_description :: "description \<Rightarrow> bool" where
  "wf_description d \<longleftrightarrow> in_int (ds_N d) \<and> in_int (ds_A d) \<and> in_int (ds_Q d) \<and> in_int (ds_U d) \<and>
     in_Q (ds_q0 d) \<and> (\<forall>q \<in> set (ds_finals d). in_Q q) \<and> length (final_line (ds_finals d)) \<le> 254 \<and>
     (\<forall>t \<in> set (ds_trans d). wf_transition t) \<and>
     (\<forall>q l. length (successors (ds_trans d) q l) \<le> 107)"

text \<open>A graph that represents a successor relation and the remaining fields.\<close>

definition represents :: "TransitionGraph \<Rightarrow> (int \<Rightarrow> int \<Rightarrow> int list) \<Rightarrow> bool" where
  "represents tg E \<longleftrightarrow> (\<forall>q l. in_Q q \<longrightarrow> in_A l \<longrightarrow> tg_size tg q l = int (length (E q l)) \<and>
     (\<forall>i < length (E q l). tg_graph tg q l (int i) = E q l ! i))"

definition frame :: "TransitionGraph \<Rightarrow> (int \<Rightarrow> int) \<times> int \<times> int \<times> int \<times> int \<times> int" where
  "frame tg = (tg_acceptingStates tg, tg_q0 tg, tg_A tg, tg_Q tg, tg_U tg, tg_F tg)"

definition described :: "description \<Rightarrow> TransitionGraph \<Rightarrow> bool" where
  "described d tg \<longleftrightarrow> represents tg (successors (ds_trans d)) \<and> tg_q0 tg = ds_q0 d \<and> tg_A tg = ds_A d \<and>
     tg_Q tg = ds_Q d \<and> tg_U tg = ds_U d \<and>
     (\<forall>q. in_Q q \<longrightarrow> tg_acceptingStates tg q = of_bool (q \<in> set (ds_finals d)))"

section \<open>One number\<close>

lemma in_Q_int: "in_Q q \<Longrightarrow> in_int q"
  by (simp add: in_Q_def in_int_def config)

lemma loader_formats:
  "parse_format ''%d%n'' = [ConvInt, ConvPos]"
  "parse_format ''%d'' = [ConvInt]"
  "parse_format ''%d %c%n'' = [ConvInt, Lit CHR '' '', ConvChar, ConvPos]"
  "parse_format ''%d %d %d %d %d'' = [ConvInt, Lit CHR '' '', ConvInt, Lit CHR '' '', ConvInt,
     Lit CHR '' '', ConvInt, Lit CHR '' '', ConvInt]"
  by code_simp+

definition blank_or_none :: "string \<Rightarrow> bool" where
  "blank_or_none sp \<longleftrightarrow> sp = [] \<or> sp = '' ''"

lemma scan_number_blank:
  "blank_or_none sp \<Longrightarrow> in_int x \<Longrightarrow> no_digit rest \<Longrightarrow>
   scan_number wrap32 (sp @ show_int x @ rest) = Matched [AInt x] 1 rest"
  by (auto simp: blank_or_none_def scan_number_skip in_int_llong)

lemma sscanf_number:
  assumes "blank_or_none sp" "in_int x" "no_digit rest"
  shows "sscanf ''%d%n'' (sp @ show_int x @ rest) =
    (1, [AInt x, APos (length sp + length (show_int x))])"
  by (simp add: sscanf_def loader_formats scan_number_blank [OF assms])

lemma text_at_step:
  assumes "text_at line pos = Some (t @ rest)"
  shows "text_at line (pos + int (length t)) = Some rest"
proof -
  from assms have p: "0 \<le> pos" "pos \<le> int (length line)" and d: "drop (nat pos) line = t @ rest"
    by (auto simp: text_at_def split: if_splits)
  from d have "length line - nat pos = length t + length rest" by (metis length_append length_drop)
  moreover have "drop (nat pos + length t) line = rest"
    using d by (metis add.commute append_eq_conv_conj drop_drop)
  ultimately show ?thesis
    using p by (auto simp: text_at_def nat_add_distrib)
qed

lemma no_digit_spaced [simp]: "no_digit (spaced xs)"
  by (cases xs) (simp_all add: spaced_def)

lemma spaced_Cons: "spaced (x # xs) = '' '' @ show_int x @ spaced xs"
  by (simp add: spaced_def)

lemma blank_or_none_simps [simp]: "blank_or_none []" "blank_or_none '' ''"
  by (simp_all add: blank_or_none_def)

section \<open>Final states\<close>

definition with_finals :: "TransitionGraph \<Rightarrow> int list \<Rightarrow> TransitionGraph" where
  "with_finals tg xs = tg\<lparr> tg_acceptingStates :=
     (\<lambda>q. if q \<in> set xs then 1 else tg_acceptingStates tg q) \<rparr>"

lemma load_finals_step:
  assumes "text_at line pos = Some (sp @ show_int x @ spaced xs)" "blank_or_none sp" "in_Q x"
    and "ld_pos v = Some pos"
  shows "\<exists>v'. ld_pos v' = Some (pos + int (length (sp @ show_int x))) \<and>
    load_finals (Suc k) line v tg = load_finals k line v' (with_finals tg [x])"
proof -
  have s: "sscanf ''%d%n'' (sp @ show_int x @ spaced xs) =
      (1, [AInt x, APos (length sp + length (show_int x))])"
    using sscanf_number [OF assms(2) in_Q_int [OF assms(3)]] by simp
  let ?v = "v\<lparr> ld_q := Some x, ld_npos := Some (int (length sp + length (show_int x))),
    ld_pos := Some (pos + int (length sp + length (show_int x))) \<rparr>"
  have "load_finals (Suc k) line v tg = load_finals k line ?v (with_finals tg [x])"
    using assms s by (simp add: got_defs set_accepting_def with_finals_def fun_upd_def)
  then show ?thesis by (intro exI [of _ ?v]) simp
qed

lemma with_finals_append: "with_finals (with_finals tg xs) ys = with_finals tg (xs @ ys)"
  by (auto simp: with_finals_def fun_eq_iff intro!: arg_cong [of _ _ "\<lambda>f. tg_acceptingStates_update f tg"])

lemma load_finals_spaced:
  "text_at line pos = Some (spaced xs) \<Longrightarrow> \<forall>x \<in> set xs. in_Q x \<Longrightarrow> ld_pos v = Some pos \<Longrightarrow>
   \<exists>v'. load_finals (length xs) line v tg = Some (v', with_finals tg xs)"
proof (induction xs arbitrary: pos v tg)
  case Nil
  then show ?case by (simp add: with_finals_def)
next
  case (Cons x xs)
  from Cons.prems have t: "text_at line pos = Some ('' '' @ show_int x @ spaced xs)"
    by (simp add: spaced_Cons)
  obtain v' where v': "ld_pos v' = Some (pos + int (length ('' '' @ show_int x)))"
    "load_finals (Suc (length xs)) line v tg = load_finals (length xs) line v' (with_finals tg [x])"
    using load_finals_step [OF t] Cons.prems by fastforce
  have "text_at line (pos + int (length ('' '' @ show_int x))) = Some (spaced xs)"
    by (rule text_at_step) (use t in simp)
  from Cons.IH [OF this _ v'(1), of "with_finals tg [x]"] Cons.prems(2) v'(2) show ?case
    by (simp add: with_finals_append del: load_finals.simps)
qed

lemma load_finals_line:
  assumes "\<forall>x \<in> set xs. in_Q x" "ld_pos v = Some 0"
  shows "\<exists>v'. load_finals (length xs) (final_line xs) v tg = Some (v', with_finals tg xs)"
proof (cases xs)
  case Nil
  then show ?thesis by (simp add: with_finals_def)
next
  case (Cons x ys)
  have t: "text_at (final_line xs) 0 = Some ([] @ show_int x @ spaced ys)"
    by (simp add: text_at_def final_line_def Cons)
  obtain v' where v': "ld_pos v' = Some (0 + int (length ([] @ show_int x)))"
    "load_finals (Suc (length ys)) (final_line xs) v tg =
       load_finals (length ys) (final_line xs) v' (with_finals tg [x])"
    using load_finals_step [OF t _ _ assms(2)] assms(1) Cons by fastforce
  have "text_at (final_line xs) (0 + int (length ([] @ show_int x))) = Some (spaced ys)"
    by (rule text_at_step) (use t in simp)
  from load_finals_spaced [OF this _ v'(1), of "with_finals tg [x]"] v'(2) assms(1) Cons show ?thesis
    by (simp add: with_finals_append del: load_finals.simps)
qed

section \<open>Transitions\<close>

lemma add_edge_ok:
  assumes "represents tg E" "in_Q q" "in_A l" "length (E q l) < 107"
  shows "\<exists>tg'. add_edge tg q l r = Some tg' \<and> frame tg' = frame tg \<and>
    represents tg' (E(q := (E q)(l := E q l @ [r])))"
proof -
  let ?tg = "tg\<lparr> tg_graph := (tg_graph tg)(q := (tg_graph tg q)(l :=
      (tg_graph tg q l)(int (length (E q l)) := r))),
    tg_size := (tg_size tg)(q := (tg_size tg q)(l := int (length (E q l)) + 1)) \<rparr>"
  from assms have n: "size_at tg q l = Some (int (length (E q l)))"
    by (simp add: size_at_def represents_def)
  with assms(4) have "add_edge tg q l r = Some ?tg"
    by (simp add: add_edge_def in_Q_def config)
  moreover have "represents ?tg (E(q := (E q)(l := E q l @ [r])))"
    using assms(1) by (auto simp: represents_def nth_append less_Suc_eq)
  ultimately show ?thesis by (auto simp: frame_def)
qed

definition grow :: "(int \<Rightarrow> int \<Rightarrow> int list) \<Rightarrow> int \<Rightarrow> int \<Rightarrow> int list \<Rightarrow> int \<Rightarrow> int \<Rightarrow> int list" where
  "grow E q l ts = E(q := (E q)(l := E q l @ ts))"

lemma grow_Cons: "grow (E(q := (E q)(l := E q l @ [r]))) q l ts = grow E q l (r # ts)"
  by (simp add: grow_def)

lemma load_targets_ok:
  "ts \<noteq> [] \<Longrightarrow> text_at line pos = Some (spaced ts) \<Longrightarrow> \<forall>r \<in> set ts. in_Q r \<Longrightarrow>
   ld_pos v = Some pos \<Longrightarrow> ld_q v = Some q \<Longrightarrow> ld_a v = Some c \<Longrightarrow> in_Q q \<Longrightarrow> in_A (letter c) \<Longrightarrow>
   represents tg E \<Longrightarrow> length (E q (letter c)) + length ts \<le> 107 \<Longrightarrow>
   \<exists>v' tg'. load_targets line v tg = Some (v', tg') \<and> frame tg' = frame tg \<and>
     represents tg' (grow E q (letter c) ts)"
proof (induction ts arbitrary: pos v tg E)
  case (Cons r ts)
  from Cons.prems(2) have t: "text_at line pos = Some ('' '' @ show_int r @ spaced ts)"
    by (simp add: spaced_Cons)
  let ?n = "int (length ('' '' @ show_int r))"
  have s: "sscanf ''%d%n'' ('' '' @ show_int r @ spaced ts) =
      (1, [AInt r, APos (length '' '' + length (show_int r))])"
    by (rule sscanf_number) (use Cons.prems(3) in \<open>simp_all add: in_Q_int\<close>)
  have rest: "text_at line (pos + ?n) = Some (spaced ts)"
    by (rule text_at_step) (use t in simp)
  let ?l = "letter c" let ?E = "E(q := (E q)(letter c := E q (letter c) @ [r]))"
  obtain tg1 where tg1: "add_edge tg q ?l r = Some tg1" "frame tg1 = frame tg" "represents tg1 ?E"
    using add_edge_ok [OF Cons.prems(9,7,8)] Cons.prems(10) by fastforce
  let ?v = "v\<lparr> ld_r := Some r, ld_npos := Some ?n, ld_pos := Some (pos + ?n) \<rparr>"
  have run: "load_targets line v tg =
      (if spaced ts = [] then Some (?v, tg1) else load_targets line ?v tg1)"
    using Cons.prems t s tg1(1) rest
    by (simp add: load_targets.simps [of line v] got_defs letter_def add.assoc)
  show ?case
  proof (cases "ts = []")
    case True
    have "represents tg1 (grow E q ?l (r # ts))" using tg1(3) True by (simp only: grow_def)
    moreover have "load_targets line v tg = Some (?v, tg1)" using run True by (simp add: spaced_def)
    ultimately show ?thesis using tg1(2) by (intro exI conjI)
  next
    case False
    then have "spaced ts \<noteq> []" by (cases ts) (simp_all add: spaced_def)
    then have run': "load_targets line v tg = load_targets line ?v tg1" using run by simp
    have "\<exists>v' tg'. load_targets line ?v tg1 = Some (v', tg') \<and> frame tg' = frame tg1 \<and>
        represents tg' (grow ?E q ?l ts)"
      by (rule Cons.IH [OF False rest _ _ _ _ _ _ tg1(3)]) (use Cons.prems in simp_all)
    then show ?thesis unfolding run' grow_Cons tg1(2) .
  qed
qed simp

lemma sscanf_transition:
  assumes "in_int q" "\<not> is_space c"
  shows "sscanf ''%d %c%n'' (show_int q @ '' '' @ [c] @ rest) =
    (2, [AInt q, AChar c, APos (length (show_int q) + 2)])"
  using assms by (simp add: sscanf_def loader_formats in_int_llong)

lemma letter_not_space: "in_A (letter c) \<Longrightarrow> \<not> is_space c \<and> c \<noteq> NEWLINE"
  by (auto simp: in_A_def letter_def schar_def is_space_def NEWLINE_def)

lemma no_newline_show_int: "NEWLINE \<notin> set (show_int x)"
  using show_int_no_space [of x] by (auto simp: NEWLINE_def)

lemma no_newline_spaced: "NEWLINE \<notin> set (spaced xs)"
  using no_newline_show_int by (induction xs) (auto simp: spaced_def, simp add: NEWLINE_def)

lemma trans_line_facts:
  assumes "wf_transition (q, c, ts)"
  shows "NEWLINE \<notin> set (trans_line (q, c, ts))" "length (trans_line (q, c, ts)) \<le> 254"
    "0 < length (trans_line (q, c, ts))"
  using assms letter_not_space [of c] no_newline_spaced [of ts] no_newline_show_int [of q]
  by (auto simp: wf_transition_def trans_line_def, simp add: NEWLINE_def)

lemma load_transition_line:
  assumes wf: "wf_transition (q, c, ts)" and E: "represents tg E"
    and room: "length (E q (letter c)) + length ts \<le> 107"
  shows "\<exists>lb' v' tg'. load_transitions lb (Some (trans_line (q, c, ts) @ NEWLINE # s)) v tg =
      load_transitions lb' (Some s) v' tg' \<and> frame tg' = frame tg \<and>
      represents tg' (grow E q (letter c) ts)"
proof -
  let ?line = "trans_line (q, c, ts)" let ?lb = "\<lparr> lb_text = ?line, lb_size = 256 \<rparr>"
  let ?pos = "int (length (show_int q @ '' '' @ [c]))"
  let ?v = "v\<lparr> ld_q := Some q, ld_a := Some c, ld_pos := Some ?pos \<rparr>"
  from wf have q: "in_Q q" "in_A (letter c)" "ts \<noteq> []" "\<forall>r \<in> set ts. in_Q r"
    by (auto simp: wf_transition_def)
  have get: "strGetline (Some lb) (Some (?line @ NEWLINE # s)) = Some (int (length ?line), ?lb, Some s)"
    by (rule strGetline_line [OF trans_line_facts(1,2) [OF wf]])
  have scan: "sscanf ''%d %c%n'' ?line = (2, [AInt q, AChar c, APos (length (show_int q) + 2)])"
    using sscanf_transition [OF in_Q_int [OF q(1)], of c "spaced ts"] letter_not_space [OF q(2)]
    by (simp add: trans_line_def)
  have pos: "text_at ?line ?pos = Some (spaced ts)"
    using text_at_step [of ?line 0 "show_int q @ '' '' @ [c]" "spaced ts"]
    by (simp add: text_at_def trans_line_def)
  obtain v' tg' where run: "load_targets ?line ?v tg = Some (v', tg')" "frame tg' = frame tg"
    "represents tg' (grow E q (letter c) ts)"
    using load_targets_ok [OF q(3) pos q(4) _ _ _ q(1,2) E room, of ?v] by auto
  have "spaced ts \<noteq> []" using q(3) by (cases ts) (simp_all add: spaced_def)
  then have "load_transitions lb (Some (?line @ NEWLINE # s)) v tg = load_transitions ?lb (Some s) v' tg'"
    using get scan pos run(1) trans_line_facts(3) [OF wf]
    by (simp add: load_transitions.simps [of lb] got_defs)
  with run show ?thesis by blast
qed

lemma successors_Cons:
  "successors ((q, c, ts) # trs) = (\<lambda>q' l. (if q = q' \<and> letter c = l then ts else []) @ successors trs q' l)"
  by (simp add: successors_def fun_eq_iff)

lemma load_transitions_ok:
  "\<forall>t \<in> set trs. wf_transition t \<Longrightarrow> represents tg E \<Longrightarrow>
   \<forall>q l. length (E q l) + length (successors trs q l) \<le> 107 \<Longrightarrow>
   \<exists>tg'. load_transitions lb (Some (trans_lines trs)) v tg = Some (tg', Some []) \<and>
     frame tg' = frame tg \<and> represents tg' (\<lambda>q l. E q l @ successors trs q l)"
proof (induction trs arbitrary: lb v tg E)
  case Nil
  then show ?case
    by (simp add: load_transitions.simps [of lb] trans_lines_def successors_def)
next
  case (Cons t trs)
  obtain q c ts where t: "t = (q, c, ts)" by (rule prod_cases3)
  let ?E = "grow E q (letter c) ts"
  have wf: "wf_transition (q, c, ts)" using Cons.prems(1) t by simp
  from Cons.prems(3) have "length (E q (letter c)) + length (successors (t # trs) q (letter c)) \<le> 107"
    by blast
  then have room: "length (E q (letter c)) + length ts \<le> 107" by (simp add: t successors_Cons)
  obtain lb1 v1 tg1 where s: "load_transitions lb (Some (trans_line (q, c, ts) @ NEWLINE # trans_lines trs)) v tg =
      load_transitions lb1 (Some (trans_lines trs)) v1 tg1" "frame tg1 = frame tg" "represents tg1 ?E"
    using load_transition_line [OF wf Cons.prems(2) room] by blast
  have E: "(\<lambda>q' l. ?E q' l @ successors trs q' l) = (\<lambda>q' l. E q' l @ successors (t # trs) q' l)"
    by (auto simp: fun_eq_iff t successors_Cons grow_def)
  then have "length (?E q' l) + length (successors trs q' l) \<le> 107" for q' l
    using Cons.prems(3) by (metis length_append)
  with Cons.IH [of tg1 ?E lb1 v1] Cons.prems(1) s obtain tg' where
    "load_transitions lb1 (Some (trans_lines trs)) v1 tg1 = Some (tg', Some [])" "frame tg' = frame tg"
    "represents tg' (\<lambda>q' l. ?E q' l @ successors trs q' l)" by auto
  with s(1) show ?case unfolding E by (auto simp: trans_lines_def t)
qed

section \<open>The whole description\<close>

lemma header_scan:
  assumes "in_int (ds_N d)" "in_int (ds_A d)" "in_int (ds_Q d)" "in_int (ds_U d)"
    "in_int (int (length (ds_finals d)))"
  shows "sscanf ''%d %d %d %d %d'' (header_line d) =
    (5, [AInt (ds_N d), AInt (ds_A d), AInt (ds_Q d), AInt (ds_U d), AInt (int (length (ds_finals d)))])"
proof -
  let ?ds = "parse_format ''%d %d %d %d %d''"
  let ?as = "[AInt (ds_N d), AInt (ds_A d), AInt (ds_Q d), AInt (ds_U d), AInt (int (length (ds_finals d)))]"
  have "scannable ?ds ?as []" using assms by (simp add: loader_formats)
  from sscan_sprint [OF this, of "[]"] show ?thesis
    by (simp add: header_line_def sscanf_def sprintf_def)
qed

lemma length_final_line: "length xs \<le> length (final_line xs)"
proof -
  have spaced: "length ys \<le> length (spaced ys)" for ys
    by (induction ys) (simp_all add: spaced_def)
  have number: "1 \<le> length (show_int x)" for x
    using show_int_nonempty [of x] by (cases "show_int x") simp_all
  show ?thesis
  proof (cases xs)
    case (Cons x ys)
    with add_mono [OF number [of x] spaced [of ys]] show ?thesis by (simp add: final_line_def)
  qed simp
qed

lemma header_facts:
  assumes "in_int (ds_N d)" "in_int (ds_A d)" "in_int (ds_Q d)" "in_int (ds_U d)"
    "in_int (int (length (ds_finals d)))"
  shows "NEWLINE \<notin> set (header_line d)" "length (header_line d) \<le> 254"
proof -
  have h: "header_line d = show_int (ds_N d) @ '' '' @ show_int (ds_A d) @ '' '' @ show_int (ds_Q d) @
      '' '' @ show_int (ds_U d) @ '' '' @ show_int (int (length (ds_finals d)))"
    by (simp add: header_line_def sprintf_def loader_formats)
  show "NEWLINE \<notin> set (header_line d)"
    by (simp add: h no_newline_show_int, simp add: NEWLINE_def)
  show "length (header_line d) \<le> 254"
    using length_show_int [OF assms(1)] length_show_int [OF assms(2)] length_show_int [OF assms(3)]
      length_show_int [OF assms(4)] length_show_int [OF assms(5)] by (simp add: h)
qed

lemma no_newline_final_line: "NEWLINE \<notin> set (final_line xs)"
  by (cases xs) (simp_all add: final_line_def no_newline_show_int no_newline_spaced)

lemma new_graph_represents: "represents (newTransitionGraph m) (\<lambda>_ _. [])"
  by (simp add: represents_def newTransitionGraph_def initTransitionGraph_def)

lemma represents_frame:
  "represents (tg\<lparr> tg_acceptingStates := f \<rparr>) E = represents tg E"
  "represents (tg\<lparr> tg_q0 := x \<rparr>) E = represents tg E"
  "represents (tg\<lparr> tg_A := x, tg_Q := y, tg_U := z, tg_F := u \<rparr>) E = represents tg E"
  by (simp_all add: represents_def)

lemma load_render:
  assumes wf: "wf_description d"
  shows "\<exists>tg. loadTransitionGraph (Some (Some (render d))) (newTransitionGraph m) = Some (tg, Some (Some [])) \<and>
    described d tg"
proof -
  let ?F = "int (length (ds_finals d))"
  have F: "in_int ?F"
    using wf length_final_line [of "ds_finals d"] by (simp add: wf_description_def in_int_def)
  have ints: "in_int (ds_N d)" "in_int (ds_A d)" "in_int (ds_Q d)" "in_int (ds_U d)" "in_Q (ds_q0 d)"
    using wf by (simp_all add: wf_description_def)
  note header = header_facts [OF ints(1-4) F]
  have q0: "length (show_int (ds_q0 d)) \<le> 254"
    using length_show_int [OF in_Q_int [OF ints(5)]] by simp
  define tg1 where "tg1 = (newTransitionGraph m)\<lparr> tg_A := ds_A d, tg_Q := ds_Q d, tg_U := ds_U d, tg_F := ?F \<rparr>"
  define tg2 where "tg2 = with_finals (tg1\<lparr> tg_q0 := ds_q0 d \<rparr>) (ds_finals d)"
  obtain v where fin: "load_finals (length (ds_finals d)) (final_line (ds_finals d))
      (unwritten\<lparr> ld_pos := Some 0 \<rparr>) (tg1\<lparr> tg_q0 := ds_q0 d \<rparr>) = Some (v, tg2)"
    using load_finals_line [of "ds_finals d" "unwritten\<lparr> ld_pos := Some 0 \<rparr>" "tg1\<lparr> tg_q0 := ds_q0 d \<rparr>"] wf
    by (auto simp: wf_description_def tg2_def)
  have rep: "represents tg2 (\<lambda>_ _. [])"
    unfolding tg2_def tg1_def with_finals_def represents_frame by (rule new_graph_represents)
  obtain tg where tg: "load_transitions \<lparr> lb_text = final_line (ds_finals d), lb_size = 256 \<rparr>
      (Some (trans_lines (ds_trans d))) v tg2 = Some (tg, Some [])" "frame tg = frame tg2"
    "represents tg (successors (ds_trans d))"
    using load_transitions_ok [OF _ rep, of "ds_trans d"
        "\<lparr> lb_text = final_line (ds_finals d), lb_size = 256 \<rparr>" v] wf
    by (auto simp: wf_description_def)
  have "described d tg"
    using tg(2,3) by (auto simp: described_def frame_def tg2_def tg1_def with_finals_def
        newTransitionGraph_def initTransitionGraph_def)
  moreover have "sscanf ''%d'' (show_int (ds_q0 d)) = (1, [AInt (ds_q0 d)])"
    using in_Q_int [OF ints(5)] by (simp add: sscanf_def loader_formats in_int_llong)
  then have "loadTransitionGraph (Some (Some (render d))) (newTransitionGraph m) = Some (tg, Some (Some []))"
    using fin tg(1) header q0 wf
    by (simp add: loadTransitionGraph_def render_def strGetline_line header_scan [OF ints(1-4) F]
        no_newline_show_int no_newline_final_line wf_description_def got_defs tg1_def)
  ultimately show ?thesis by blast
qed

lemma successors_in_Q:
  "\<forall>t \<in> set trs. wf_transition t \<Longrightarrow> p \<in> set (successors trs q l) \<Longrightarrow> in_Q p"
  by (auto simp: successors_def wf_transition_def split: if_splits)

lemma described_wf:
  assumes "wf_description d" "described d tg"
  shows "wf_graph tg"
  using assms successors_in_Q [of "ds_trans d"]
  by (auto simp: wf_graph_def described_def represents_def wf_description_def config)
     (metis nat_less_iff nth_mem zero_le_imp_eq_int of_nat_less_iff)

text \<open>Acceptance on descriptions, as the README defines it.\<close>

fun ds_accepts :: "description \<Rightarrow> int \<Rightarrow> string \<Rightarrow> bool" where
  "ds_accepts d q [] \<longleftrightarrow> q \<in> set (ds_finals d)"
| "ds_accepts d q (c # w) \<longleftrightarrow>
     (if q \<ge> ds_U d then \<exists>p \<in> set (successors (ds_trans d) q (letter c)). ds_accepts d p w
      else \<forall>p \<in> set (successors (ds_trans d) q (letter c)). ds_accepts d p w)"

lemma described_accepts:
  assumes "wf_description d" "described d tg"
  shows "in_Q q \<Longrightarrow> wf_word w \<Longrightarrow> accepts tg q w = ds_accepts d q w"
proof (induction w arbitrary: q)
  case Nil
  with assms(2) show ?case by (simp add: described_def)
next
  case (Cons c w)
  then have "succs tg q c = successors (ds_trans d) q (letter c)"
    using assms(2) by (intro nth_equalityI) (auto simp: succs_def described_def represents_def wf_word_def)
  moreover have "in_Q p" if "p \<in> set (successors (ds_trans d) q (letter c))" for p
    using successors_in_Q [OF _ that] assms(1) by (simp add: wf_description_def)
  moreover have "tg_U tg = ds_U d" using assms(2) by (simp add: described_def)
  ultimately show ?case using Cons by (simp add: wf_word_def)
qed

section \<open>Properties\<close>

text \<open>
  C25: Loading the text of a description into a new graph consumes the whole text, stays inside
  every array and gives a graph with the initial state, the final states, the universal states and,
  in the order of the lines, the successors of the description; on it acceptSync answers as the
  README defines acceptance for the description.
\<close>

theorem loadTransitionGraph_correct:
  assumes "wf_description d"
  shows "\<exists>tg. loadTransitionGraph (Some (Some (render d))) (newTransitionGraph m) = Some (tg, Some (Some [])) \<and>
    described d tg \<and>
    (\<forall>w. wf_word w \<longrightarrow> (\<exists>v. acceptSync tg w = Some v \<and> (v \<noteq> 0 \<longleftrightarrow> ds_accepts d (ds_q0 d) w)))"
proof -
  obtain tg where tg: "loadTransitionGraph (Some (Some (render d))) (newTransitionGraph m) = Some (tg, Some (Some []))"
    "described d tg" using load_render [OF assms] by blast
  note wf = described_wf [OF assms tg(2)]
  have "\<exists>v. acceptSync tg w = Some v \<and> (v \<noteq> 0 \<longleftrightarrow> ds_accepts d (ds_q0 d) w)" if "wf_word w" for w
    using acceptSync_value [OF wf that] described_accepts [OF assms tg(2) _ that, of "ds_q0 d"] assms tg(2)
    by (simp add: wf_description_def described_def)
  with tg show ?thesis by blast
qed

definition demo_description :: description where
  "demo_description = \<lparr> ds_N = 5, ds_A = 2, ds_Q = 3, ds_U = 1, ds_q0 = 0, ds_finals = [1, 2],
     ds_trans = [(0, CHR ''a'', [1, 2]), (1, CHR ''b'', [2])] \<rparr>"

lemma demo_description_wf: "wf_description demo_description"
proof -
  have short: "length (show_int n) = 1" if "0 \<le> n" "n < 10" for n
    using that by (simp add: show_int_def show_nat.simps)
  show ?thesis
    by (auto simp: wf_description_def demo_description_def wf_transition_def successors_def in_Q_def in_A_def
        letter_def schar_def config in_int_def trans_line_def final_line_def spaced_def short)
qed

theorem loadTransitionGraph_correct_witness:
  "\<exists>tg v. loadTransitionGraph (Some (Some (render demo_description))) (newTransitionGraph demo_graph) =
     Some (tg, Some (Some [])) \<and> acceptSync tg ''a'' = Some v \<and> v \<noteq> 0"
proof -
  from loadTransitionGraph_correct [OF demo_description_wf, of demo_graph]
  obtain tg where "loadTransitionGraph (Some (Some (render demo_description))) (newTransitionGraph demo_graph) =
      Some (tg, Some (Some []))" "\<exists>v. acceptSync tg ''a'' = Some v \<and>
        (v \<noteq> 0 \<longleftrightarrow> ds_accepts demo_description (ds_q0 demo_description) ''a'')"
    using demo_word(1) by blast
  moreover have "ds_accepts demo_description (ds_q0 demo_description) ''a''"
    by (simp add: demo_description_def successors_def letter_def)
  ultimately show ?thesis by blast
qed

text \<open>
  Both readers return the whole input, whatever its lines, within the block they allocate, if that
  block can be asked for.
\<close>

theorem loadDesc_complete:
  assumes "length s < 2 ^ 31 - 1"
  shows "loadTransitionGraphDescFromStdin (fresh_file s) = Inr s \<and> loadTransitionGraphDescFromFile s = Inr s"
proof -
  have "in_int (int (length s) + 1)" using assms by (simp add: in_int_def)
  moreover have "1 < FILE_BUF_SIZE" by (simp add: FILE_BUF_SIZE_def)
  from read_content_all [OF this, of "[]" 1 "fresh_file s"]
  have "loadTransitionGraphDescFromStdin (fresh_file s) = Inr s"
    by (auto simp: loadTransitionGraphDescFromStdin_def fresh_file_def)
  ultimately show ?thesis by (simp add: loadTransitionGraphDescFromFile_def Let_def)
qed

theorem loadDesc_complete_witness:
  "loadTransitionGraphDescFromStdin (fresh_file ''1 1 1 0 0'') = Inr ''1 1 1 0 0''"
  using loadDesc_complete [of "''1 1 1 0 0''"] by simp

section \<open>What any loaded graph is like\<close>

text \<open>
  The type of a graph: each row counts between none and MAX_Q targets, the cells behind the count are
  still -1, and the accepting flags are 0 or 1.
\<close>

definition row_typed :: "TransitionGraph \<Rightarrow> int \<Rightarrow> int \<Rightarrow> bool" where
  "row_typed tg q a \<longleftrightarrow> 0 \<le> tg_size tg q a \<and> tg_size tg q a \<le> MAX_Q \<and>
     (\<forall>i. tg_size tg q a \<le> i \<and> i < MAX_Q \<longrightarrow> tg_graph tg q a i = -1)"

definition graph_typed :: "TransitionGraph \<Rightarrow> bool" where
  "graph_typed tg \<longleftrightarrow> (\<forall>q a. in_Q q \<and> in_A a \<longrightarrow> row_typed tg q a) \<and>
     (\<forall>q. in_Q q \<longrightarrow> tg_acceptingStates tg q \<in> {0, 1})"

lemma graph_typed_new: "graph_typed (newTransitionGraph memory)"
  by (auto simp: graph_typed_def row_typed_def newTransitionGraph_def initTransitionGraph_def in_Q_def MAX_Q_def)

lemma graph_typed_header [simp]:
  "graph_typed (tg\<lparr> tg_A := v \<rparr>) = graph_typed tg" "graph_typed (tg\<lparr> tg_Q := v \<rparr>) = graph_typed tg"
  "graph_typed (tg\<lparr> tg_U := v \<rparr>) = graph_typed tg" "graph_typed (tg\<lparr> tg_F := v \<rparr>) = graph_typed tg"
  "graph_typed (tg\<lparr> tg_q0 := v \<rparr>) = graph_typed tg"
  by (simp_all add: graph_typed_def row_typed_def)

lemma set_accepting_typed: "set_accepting tg q = Some tg' \<Longrightarrow> graph_typed tg \<Longrightarrow> graph_typed tg'"
  by (auto simp: set_accepting_def graph_typed_def row_typed_def split: if_splits)

lemma add_edge_typed: "add_edge tg q l r = Some tg' \<Longrightarrow> graph_typed tg \<Longrightarrow> graph_typed tg'"
  by (auto simp: add_edge_def size_at_def graph_typed_def row_typed_def in_Q_def bind_eq_Some_conv split: if_splits)

lemma load_finals_typed:
  "load_finals k line v tg = Some (v', tg') \<Longrightarrow> graph_typed tg \<Longrightarrow> graph_typed tg'"
proof (induction k arbitrary: v tg)
  case (Suc k)
  then show ?case by (auto simp: bind_eq_Some_conv Let_def split_beta intro: set_accepting_typed)
qed simp

lemma load_targets_typed:
  "load_targets line v tg = Some r \<Longrightarrow> graph_typed tg \<longrightarrow> graph_typed (snd r)"
proof (erule load_targets.raw_induct [rotated])
  fix f line v tg r
  assume IH: "\<And>line v tg r. f line v tg = Some r \<Longrightarrow> graph_typed tg \<longrightarrow> graph_typed (snd r)"
    and body: "do {
     pos \<leftarrow> ld_pos v;
     t \<leftarrow> text_at line pos;
     let (k, as) = sscanf ''%d%n'' t;
     if k = 0 then Some (v, tg)
     else do {
       let v = v\<lparr> ld_r := got_int as 0 (ld_r v), ld_npos := got_int as 1 (ld_npos v) \<rparr>;
       npos \<leftarrow> ld_npos v;
       let v = v\<lparr> ld_pos := Some (pos + npos) \<rparr>;
       q \<leftarrow> ld_q v;
       a \<leftarrow> ld_a v;
       r \<leftarrow> ld_r v;
       tg \<leftarrow> add_edge tg q (schar a - schar (CHR ''a'')) r;
       t \<leftarrow> text_at line (pos + npos);
       if t = [] then Some (v, tg) else f line v tg } } = Some r"
  show "graph_typed tg \<longrightarrow> graph_typed (snd r)"
  proof
    assume g: "graph_typed tg"
    from body consider "snd r = tg"
      | q l p tg1 v1 where "add_edge tg q l p = Some tg1" "r = (v1, tg1) \<or> f line v1 tg1 = Some r"
      by (fastforce simp: bind_eq_Some_conv Let_def split_beta split: if_splits)
    then show "graph_typed (snd r)"
    proof cases
      case 2
      with add_edge_typed [OF 2(1) g] IH [of line v1 tg1 r] show ?thesis by auto
    qed (simp add: g)
  qed
qed

lemma load_transitions_typed:
  "load_transitions lb input v tg = Some (tg', rest) \<Longrightarrow> graph_typed tg \<Longrightarrow> graph_typed tg'"
proof (induction "stream_length input" arbitrary: lb input v tg rule: less_induct)
  case less
  obtain len lb1 input1 where s: "strGetline (Some lb) input = Some (len, lb1, input1)"
    using less.prems(1) by (subst (asm) load_transitions.simps) (auto split: option.splits)
  obtain k as where as: "sscanf ''%d %c%n'' (lb_text lb1) = (k, as)" by force
  let ?v = "v\<lparr> ld_q := got_int as 0 (ld_q v), ld_a := got_char as 1 (ld_a v), ld_pos := got_int as 2 (ld_pos v) \<rparr>"
  have IH: "graph_typed tg'" if "load_transitions lb1 input1 u tg1 = Some (tg', rest)" "graph_typed tg1" "len \<noteq> -1" for u tg1
    using less.hyps [OF strGetline_stream [OF s that(3)] that(1,2)] .
  note step = less.prems(1) [unfolded load_transitions.simps [of lb] s option.case prod.case as Let_def]
  consider "tg' = tg" | u where "len \<noteq> -1" "load_transitions lb1 input1 u tg = Some (tg', rest)"
    | u tg1 where "len \<noteq> -1" "load_targets (lb_text lb1) ?v tg = Some (u, tg1)" "load_transitions lb1 input1 u tg1 = Some (tg', rest)"
    using step by (auto simp: bind_eq_Some_conv split: if_splits)
  then show ?case
  proof cases
    case 3
    with load_targets_typed [OF 3(2)] less.prems(2) IH show ?thesis by simp
  qed (use less.prems(2) IH in auto)
qed

text \<open>A loop that prints ends well when its body does.\<close>

lemma print_range_ok: "(\<And>i. k \<le> i \<Longrightarrow> i < n \<Longrightarrow> f i \<noteq> None) \<Longrightarrow> print_range f k n \<noteq> None"
proof (induction f k n rule: print_range.induct)
  case (1 f i n)
  show ?case
  proof (cases "i < n")
    case True
    with 1(2) [of i] obtain out where out: "f i = Some out" by auto
    obtain outs where "print_range f (i + 1) n = Some outs" using 1(1) [OF True out] 1(2) by force
    with True out show ?thesis by (subst print_range.simps) simp
  qed (simp add: print_range.simps)
qed

lemma print_edges_typed:
  assumes "graph_typed tg" "in_Q q" "in_A a"
  shows "print_edges tg q a \<noteq> None"
proof -
  have row: "0 \<le> tg_size tg q a" "tg_size tg q a \<le> MAX_Q" using assms by (auto simp: graph_typed_def row_typed_def)
  have "print_range (print_target tg q a) 0 (tg_size tg q a) \<noteq> None"
    by (rule print_range_ok) (use assms row in \<open>auto simp: print_target_def graph_at_def in_Q_def\<close>)
  with assms show ?thesis by (auto simp: print_edges_def size_at_def)
qed

lemma printTransitionGraph_typed:
  assumes "graph_typed tg"
  shows "printTransitionGraph tg \<noteq> None"
proof -
  have "print_range (\<lambda>q. print_range (print_edges tg q) 0 MAX_A) 0 MAX_Q \<noteq> None"
    by (intro print_range_ok print_edges_typed assms) (simp_all add: in_Q_def in_A_def)
  then show ?thesis by (auto simp: printTransitionGraph_def)
qed



end
