(* ===== verification/DynList.thy ===== *)
theory DynList
  imports Prelude
begin

text \<open>
  The doubly linked list of dynamic_lists.h and dynamic_lists.c.

  The nodes live in a store that maps addresses to \<open>ListNode\<close> structs; a pointer is an
  address or \<open>None\<close> for NULL. Every access through a pointer looks the node up, and accessing NULL
  or a freed node is undefined. \<open>ListRoot\<close> is the struct \<open>List\<close>, which the operations take by
  pointer, \<open>None\<close> being the null pointer they test for. malloc returns the next unused
  address; addresses are never reused, so that a dangling pointer stays one.

  The traversals are \<open>partial_function\<close>s over \<open>option\<close>: on a cyclic list they do not return, and
  their value is then \<open>None\<close> as well.
\<close>

section \<open>The store\<close>

type_synonym addr = nat

record 'a ListNode =
  ln_right :: "addr option"
  ln_value :: "'a option"
  ln_left :: "addr option"

record ListRoot =
  lr_begin :: "addr option"
  lr_end :: "addr option"

record 'a store =
  st_node :: "addr \<Rightarrow> 'a ListNode option"
  st_next :: addr

definition empty_store :: "'a store" where
  "empty_store = \<lparr> st_node = (\<lambda>_. None), st_next = 0 \<rparr>"

definition deref :: "'a store \<Rightarrow> addr option \<Rightarrow> 'a ListNode option" where
  "deref s p = (case p of None \<Rightarrow> None | Some a \<Rightarrow> st_node s a)"

definition update_node ::
  "addr option \<Rightarrow> ('a ListNode \<Rightarrow> 'a ListNode) \<Rightarrow> 'a store \<Rightarrow> 'a store option" where
  "update_node p f s = (case p of None \<Rightarrow> None
     | Some a \<Rightarrow> (case st_node s a of None \<Rightarrow> None
         | Some n \<Rightarrow> Some (s\<lparr> st_node := (st_node s)(a \<mapsto> f n) \<rparr>)))"

definition set_right :: "addr option \<Rightarrow> addr option \<Rightarrow> 'a store \<Rightarrow> 'a store option" where
  "set_right p r = update_node p (\<lambda>n. n\<lparr> ln_right := r \<rparr>)"

definition set_left :: "addr option \<Rightarrow> addr option \<Rightarrow> 'a store \<Rightarrow> 'a store option" where
  "set_left p l = update_node p (\<lambda>n. n\<lparr> ln_left := l \<rparr>)"

definition set_value :: "addr option \<Rightarrow> 'a option \<Rightarrow> 'a store \<Rightarrow> 'a store option" where
  "set_value p v = update_node p (\<lambda>n. n\<lparr> ln_value := v \<rparr>)"

text \<open>FREE on a node: freeing NULL does nothing, freeing a freed node is undefined.\<close>

definition free_node :: "addr option \<Rightarrow> 'a store \<Rightarrow> 'a store option" where
  "free_node p s = (case p of None \<Rightarrow> Some s
     | Some a \<Rightarrow> (case st_node s a of None \<Rightarrow> None
         | Some _ \<Rightarrow> Some (s\<lparr> st_node := (st_node s)(a := None) \<rparr>)))"

definition ListMakeNode ::
  "addr option \<Rightarrow> 'a option \<Rightarrow> addr option \<Rightarrow> 'a store \<Rightarrow> addr option \<times> 'a store" where
  "ListMakeNode left value right s =
     (Some (st_next s), s\<lparr> st_node := (st_node s)(st_next s \<mapsto>
        \<lparr> ln_right = right, ln_value = value, ln_left = left \<rparr>), st_next := Suc (st_next s) \<rparr>)"

section \<open>Adding and removing at the ends\<close>

definition ListNew :: ListRoot where
  "ListNew = \<lparr> lr_begin = None, lr_end = None \<rparr>"

definition ListPushFront ::
  "ListRoot option \<Rightarrow> 'a option \<Rightarrow> 'a store \<Rightarrow> (addr option \<times> ListRoot option \<times> 'a store) option" where
  "ListPushFront lp value s = (case lp of
     None \<Rightarrow> Some (None, None, s)
   | Some l \<Rightarrow> do {
       let (new_node, s) = ListMakeNode None value (lr_begin l) s;
       s \<leftarrow> (if lr_begin l \<noteq> None then set_left (lr_begin l) new_node s else Some s);
       let l = l\<lparr> lr_begin := new_node \<rparr>;
       let l = (if lr_end l = None then l\<lparr> lr_end := new_node \<rparr> else l);
       Some (new_node, Some l, s) })"

definition ListPushBack ::
  "ListRoot option \<Rightarrow> 'a option \<Rightarrow> 'a store \<Rightarrow> (addr option \<times> ListRoot option \<times> 'a store) option" where
  "ListPushBack lp value s = (case lp of
     None \<Rightarrow> Some (None, None, s)
   | Some l \<Rightarrow> do {
       let (new_node, s) = ListMakeNode (lr_end l) value None s;
       s \<leftarrow> (if lr_end l \<noteq> None then set_right (lr_end l) new_node s else Some s);
       let l = l\<lparr> lr_end := new_node \<rparr>;
       let l = (if lr_begin l = None then l\<lparr> lr_begin := new_node \<rparr> else l);
       Some (new_node, Some l, s) })"

definition ListPopFront ::
  "ListRoot option \<Rightarrow> 'a store \<Rightarrow> ('a option \<times> ListRoot option \<times> 'a store) option" where
  "ListPopFront lp s = (case lp of
     None \<Rightarrow> Some (None, None, s)
   | Some l \<Rightarrow>
       if lr_begin l = None then Some (None, Some l, s)
       else do {
         n \<leftarrow> deref s (lr_begin l);
         let new_begin = ln_right n;
         (l, s) \<leftarrow> (if new_begin \<noteq> None
            then do { s \<leftarrow> set_left new_begin None s; Some (l, s) }
            else Some (l\<lparr> lr_end := None \<rparr>, s));
         s \<leftarrow> free_node (lr_begin l) s;
         Some (ln_value n, Some (l\<lparr> lr_begin := new_begin \<rparr>), s) })"

definition ListPopBack ::
  "ListRoot option \<Rightarrow> 'a store \<Rightarrow> ('a option \<times> ListRoot option \<times> 'a store) option" where
  "ListPopBack lp s = (case lp of
     None \<Rightarrow> Some (None, None, s)
   | Some l \<Rightarrow>
       if lr_end l = None then Some (None, Some l, s)
       else do {
         n \<leftarrow> deref s (lr_end l);
         let new_end = ln_left n;
         (l, s) \<leftarrow> (if new_end \<noteq> None
            then do { s \<leftarrow> set_right new_end None s; Some (l, s) }
            else Some (l\<lparr> lr_begin := None \<rparr>, s));
         s \<leftarrow> free_node (lr_end l) s;
         Some (ln_value n, Some (l\<lparr> lr_end := new_end \<rparr>), s) })"

section \<open>Destroying\<close>

partial_function (option) ListDestroyRecLeft :: "addr option \<Rightarrow> 'a store \<Rightarrow> 'a store option" where
  "ListDestroyRecLeft p s =
     (if p = None then Some s
      else do {
        n \<leftarrow> deref s p;
        s \<leftarrow> (if ln_left n \<noteq> None then ListDestroyRecLeft (ln_left n) s else Some s);
        free_node p s })"

definition ListClear :: "ListRoot option \<Rightarrow> 'a store \<Rightarrow> (ListRoot option \<times> 'a store) option" where
  "ListClear lp s = (case lp of
     None \<Rightarrow> Some (None, s)
   | Some l \<Rightarrow> do {
       s \<leftarrow> (if lr_end l \<noteq> None then ListDestroyRecLeft (lr_end l) s else Some s);
       Some (Some ListNew, s) })"

partial_function (option) list_destroy_loop :: "addr option \<Rightarrow> 'a store \<Rightarrow> 'a store option" where
  "list_destroy_loop it s =
     (if it = None then Some s
      else do {
        n \<leftarrow> deref s it;
        s \<leftarrow> free_node it s;
        list_destroy_loop (ln_right n) s })"

definition ListDestroy :: "ListRoot option \<Rightarrow> 'a store \<Rightarrow> (ListRoot option \<times> 'a store) option" where
  "ListDestroy lp s = (case lp of
     None \<Rightarrow> Some (None, s)
   | Some l \<Rightarrow> do {
       s \<leftarrow> list_destroy_loop (lr_begin l) s;
       Some (Some ListNew, s) })"

section \<open>Iterators and queries\<close>

definition ListBegin :: "ListRoot option \<Rightarrow> addr option" where
  "ListBegin lp = (case lp of None \<Rightarrow> None | Some l \<Rightarrow> lr_begin l)"

definition ListEnd :: "ListRoot option \<Rightarrow> addr option" where
  "ListEnd lp = (case lp of None \<Rightarrow> None | Some l \<Rightarrow> lr_end l)"

definition ListNext :: "'a store \<Rightarrow> addr option \<Rightarrow> addr option option" where
  "ListNext s node = (if node = None then Some None else map_option ln_right (deref s node))"

definition ListPrevious :: "'a store \<Rightarrow> addr option \<Rightarrow> addr option option" where
  "ListPrevious s node = (if node = None then Some None else map_option ln_left (deref s node))"

definition ListGetValue :: "'a store \<Rightarrow> addr option \<Rightarrow> 'a option option" where
  "ListGetValue s node = (if node = None then Some None else map_option ln_value (deref s node))"

definition ListSetValue :: "addr option \<Rightarrow> 'a option \<Rightarrow> 'a store \<Rightarrow> 'a store option" where
  "ListSetValue node value s = (if node = None then Some s else set_value node value s)"

definition ListIsEnd :: "'a store \<Rightarrow> addr option \<Rightarrow> bool option" where
  "ListIsEnd s node = (if node = None then Some False else map_option (\<lambda>n. ln_right n = None) (deref s node))"

definition ListIsBegin :: "'a store \<Rightarrow> addr option \<Rightarrow> bool option" where
  "ListIsBegin s node = (if node = None then Some False else map_option (\<lambda>n. ln_left n = None) (deref s node))"

definition ListIsSideElement :: "'a store \<Rightarrow> addr option \<Rightarrow> bool option" where
  "ListIsSideElement s node =
     (if node = None then Some False
      else map_option (\<lambda>n. ln_left n = None \<or> ln_right n = None) (deref s node))"

definition ListEmpty :: "ListRoot option \<Rightarrow> bool" where
  "ListEmpty lp = (case lp of None \<Rightarrow> True | Some l \<Rightarrow> lr_begin l = None \<and> lr_end l = None)"

definition ListFirst :: "ListRoot option \<Rightarrow> 'a store \<Rightarrow> 'a option option" where
  "ListFirst lp s = (case lp of None \<Rightarrow> Some None
     | Some l \<Rightarrow> if lr_begin l = None then Some None else map_option ln_value (deref s (lr_begin l)))"

definition ListLast :: "ListRoot option \<Rightarrow> 'a store \<Rightarrow> 'a option option" where
  "ListLast lp s = (case lp of None \<Rightarrow> Some None
     | Some l \<Rightarrow> if lr_end l = None then Some None else map_option ln_value (deref s (lr_end l)))"

text \<open>The loops LOOP_LIST of ListSize, ListGetValueAt and ListCopyInto.\<close>

partial_function (option) list_size_loop :: "'a store \<Rightarrow> addr option \<Rightarrow> int \<Rightarrow> int option" where
  "list_size_loop s it count =
     (if it = None then Some count
      else do { it \<leftarrow> ListNext s it; list_size_loop s it (count + 1) })"

definition ListSize :: "ListRoot option \<Rightarrow> 'a store \<Rightarrow> int option" where
  "ListSize lp s = (case lp of None \<Rightarrow> Some 0 | Some l \<Rightarrow> list_size_loop s (lr_begin l) 0)"

partial_function (option) list_value_loop ::
  "'a store \<Rightarrow> addr option \<Rightarrow> int \<Rightarrow> int \<Rightarrow> 'a option option" where
  "list_value_loop s i position pos_index =
     (if i = None then Some None
      else do {
        element \<leftarrow> ListGetValue s i;
        if position = pos_index then Some element
        else do { i \<leftarrow> ListNext s i; list_value_loop s i position (pos_index + 1) } })"

definition ListGetValueAt :: "ListRoot option \<Rightarrow> int \<Rightarrow> 'a store \<Rightarrow> 'a option option" where
  "ListGetValueAt lp position s =
     (if lp = None then Some None
      else if position < 0 then Some None
      else list_value_loop s (ListBegin lp) position 0)"

partial_function (option) list_copy_loop ::
  "addr option \<Rightarrow> ListRoot option \<Rightarrow> 'a store \<Rightarrow> (ListRoot option \<times> 'a store) option" where
  "list_copy_loop it tgt s =
     (if it = None then Some (tgt, s)
      else do {
        n \<leftarrow> deref s it;
        (_, tgt, s) \<leftarrow> ListPushBack tgt (ln_value n) s;
        it \<leftarrow> ListNext s it;
        list_copy_loop it tgt s })"

definition ListCopyInto ::
  "ListRoot option \<Rightarrow> ListRoot option \<Rightarrow> 'a store \<Rightarrow> (ListRoot option \<times> 'a store) option" where
  "ListCopyInto src tgt s =
     (if src = None then Some (tgt, s)
      else if tgt = None then Some (tgt, s)
      else list_copy_loop (ListBegin src) tgt s)"

declare ListDestroyRecLeft.simps [code] list_destroy_loop.simps [code] list_size_loop.simps [code]
  list_value_loop.simps [code] list_copy_loop.simps [code]

section \<open>Copying\<close>

text \<open>
  ListCopy of five or more elements: make the nodes of the chunk, fill in the values from the source,
  then link them; \<open>chunk\<close> is the array of the new nodes.
\<close>

fun make_chunk :: "nat \<Rightarrow> 'a store \<Rightarrow> addr option list \<times> 'a store" where
  "make_chunk 0 s = ([], s)"
| "make_chunk (Suc k) s =
     (let (p, s) = ListMakeNode None None None s; (ps, s) = make_chunk k s in (p # ps, s))"

fun clear_chunk :: "addr option list \<Rightarrow> 'a store \<Rightarrow> 'a store option" where
  "clear_chunk [] s = Some s"
| "clear_chunk (p # ps) s = do {
     s \<leftarrow> set_left p None s; s \<leftarrow> set_right p None s; s \<leftarrow> set_value p None s; clear_chunk ps s }"

fun fill_chunk :: "addr option list \<Rightarrow> addr option \<Rightarrow> 'a store \<Rightarrow> 'a store option" where
  "fill_chunk [] it s = Some s"
| "fill_chunk (p # ps) it s =
     (if it = None then Some s
      else do {
        n \<leftarrow> deref s it;
        s \<leftarrow> set_value p (ln_value n) s;
        n \<leftarrow> deref s it;
        fill_chunk ps (ln_right n) s })"

text \<open>The linking loop from index \<open>i\<close>, with \<open>before\<close> the pointer \<open>chunk[i-1]\<close>.\<close>

fun link_chunk :: "addr option option \<Rightarrow> addr option list \<Rightarrow> 'a store \<Rightarrow> 'a store option" where
  "link_chunk before [] s = Some s"
| "link_chunk before (p # ps) s = do {
     s \<leftarrow> (case before of None \<Rightarrow> Some s | Some b \<Rightarrow> set_left p b s);
     s \<leftarrow> (case ps of [] \<Rightarrow> Some s | q # _ \<Rightarrow> set_right p q s);
     link_chunk (Some p) ps s }"

definition ListCopy :: "ListRoot option \<Rightarrow> 'a store \<Rightarrow> (ListRoot \<times> 'a store) option" where
  "ListCopy lp s = (case lp of
     None \<Rightarrow> Some (ListNew, s)
   | Some l \<Rightarrow> do {
       count \<leftarrow> ListSize lp s;
       if count = 0 then Some (ListNew, s)
       else if count < 5 then do {
         (ret, s) \<leftarrow> ListCopyInto lp (Some ListNew) s;
         ret \<leftarrow> ret;
         Some (ret, s) }
       else do {
         let (chunk, s) = make_chunk (nat count) s;
         s \<leftarrow> clear_chunk chunk s;
         s \<leftarrow> fill_chunk chunk (lr_begin l) s;
         s \<leftarrow> set_left (hd chunk) None s;
         s \<leftarrow> set_right (last chunk) None s;
         s \<leftarrow> link_chunk None chunk s;
         Some (\<lparr> lr_begin = hd chunk, lr_end = last chunk \<rparr>, s) } })"

section \<open>Mapping\<close>

text \<open>The second result is the arguments of the calls of the mapped function, in their order.\<close>

partial_function (option) ListMapNodes ::
  "addr option \<Rightarrow> ('a option \<Rightarrow> 'a option) \<Rightarrow> bool \<Rightarrow> 'a store \<Rightarrow> ('a store \<times> 'a option list) option" where
  "ListMapNodes p mapping preserveValue s =
     (if p = None then Some (s, [])
      else do {
        n \<leftarrow> deref s p;
        s \<leftarrow> (if \<not> preserveValue then set_value p (mapping (ln_value n)) s else Some s);
        m \<leftarrow> deref s p;
        (s, calls) \<leftarrow> ListMapNodes (ln_right m) mapping preserveValue s;
        Some (s, ln_value n # calls) })"

declare ListMapNodes.simps [code]

definition ListIterate ::
  "ListRoot option \<Rightarrow> ('a option \<Rightarrow> 'a option) \<Rightarrow> 'a store \<Rightarrow> ('a store \<times> 'a option list) option" where
  "ListIterate lp iterator s = (case lp of
     None \<Rightarrow> Some (s, [])
   | Some l \<Rightarrow> if lr_begin l = None then Some (s, []) else ListMapNodes (lr_begin l) iterator True s)"

definition ListMap ::
  "ListRoot option \<Rightarrow> ('a option \<Rightarrow> 'a option) \<Rightarrow> 'a store \<Rightarrow> ('a store \<times> 'a option list) option" where
  "ListMap lp mapping s = (case lp of
     None \<Rightarrow> Some (s, [])
   | Some l \<Rightarrow> if lr_begin l = None then Some (s, []) else ListMapNodes (lr_begin l) mapping False s)"

definition ListDeepCopy ::
  "ListRoot option \<Rightarrow> ('a option \<Rightarrow> 'a option) \<Rightarrow> 'a store \<Rightarrow> (ListRoot \<times> 'a store) option" where
  "ListDeepCopy lp assigner s =
     (if lp = None then Some (ListNew, s)
      else do {
        (ret, s) \<leftarrow> ListCopy lp s;
        (s, _) \<leftarrow> ListMap (Some ret) assigner s;
        Some (ret, s) })"

text \<open>ListDestroyDeep hands every value to the deallocator, then destroys the list.\<close>

partial_function (option) list_values_loop :: "'a store \<Rightarrow> addr option \<Rightarrow> 'a option list option" where
  "list_values_loop s it =
     (if it = None then Some []
      else do {
        v \<leftarrow> ListGetValue s it;
        it \<leftarrow> ListNext s it;
        vs \<leftarrow> list_values_loop s it;
        Some (v # vs) })"

declare list_values_loop.simps [code]

definition ListDestroyDeep ::
  "ListRoot option \<Rightarrow> 'a store \<Rightarrow> (ListRoot option \<times> 'a store \<times> 'a option list) option" where
  "ListDestroyDeep lp s = do {
     calls \<leftarrow> list_values_loop s (ListBegin lp);
     (lp, s) \<leftarrow> ListDestroy lp s;
     Some (lp, s, calls) }"

section \<open>Splicing\<close>

definition ListDetachElement ::
  "ListRoot option \<Rightarrow> addr option \<Rightarrow> 'a store \<Rightarrow> (ListRoot option \<times> 'a store) option" where
  "ListDetachElement lp node s =
     (if node = None then Some (lp, s)
      else do {
        n \<leftarrow> deref s node;
        (lp, s) \<leftarrow> (if ln_left n \<noteq> None
           then do { s \<leftarrow> set_right (ln_left n) (ln_right n) s; Some (lp, s) }
           else do { l \<leftarrow> lp; Some (Some (l\<lparr> lr_begin := ln_right n \<rparr>), s) });
        (lp, s) \<leftarrow> (if ln_right n \<noteq> None
           then do { s \<leftarrow> set_left (ln_right n) (ln_left n) s; Some (lp, s) }
           else do { l \<leftarrow> lp; Some (Some (l\<lparr> lr_end := ln_left n \<rparr>), s) });
        s \<leftarrow> free_node node s;
        Some (lp, s) })"

definition ListNewDetachedElement :: "'a store \<Rightarrow> addr option \<times> 'a store" where
  "ListNewDetachedElement s = ListMakeNode None None None s"

text \<open>The last two branches of the code are the same statements.\<close>

definition ListInsertListAt ::
  "ListRoot option \<Rightarrow> addr option \<Rightarrow> ListRoot option \<Rightarrow> 'a store
    \<Rightarrow> (ListRoot option \<times> ListRoot option \<times> 'a store) option" where
  "ListInsertListAt tgt node srcp s =
     (if node = None then Some (tgt, srcp, s)
      else case srcp of
        None \<Rightarrow> Some (tgt, srcp, s)
      | Some src \<Rightarrow>
          if lr_begin src = None \<or> lr_end src = None then Some (tgt, srcp, s)
          else do {
            n \<leftarrow> deref s node;
            if ln_left n = None then do {
              t \<leftarrow> tgt;
              s \<leftarrow> set_right (lr_end src) node s;
              s \<leftarrow> set_left node (lr_end src) s;
              Some (Some (t\<lparr> lr_begin := lr_begin src \<rparr>), Some ListNew, s) }
            else do {
              s \<leftarrow> set_right (ln_left n) (lr_begin src) s;
              n \<leftarrow> deref s node;
              s \<leftarrow> set_left (lr_begin src) (ln_left n) s;
              s \<leftarrow> set_left node (lr_end src) s;
              s \<leftarrow> set_right (lr_end src) node s;
              Some (tgt, Some ListNew, s) } })"

definition ListInsertElementAt ::
  "ListRoot option \<Rightarrow> addr option \<Rightarrow> 'a option \<Rightarrow> 'a store \<Rightarrow> (ListRoot option \<times> 'a store) option" where
  "ListInsertElementAt tgt node value s = do {
     (_, wrapper, s) \<leftarrow> ListPushBack (Some ListNew) value s;
     (tgt, wrapper, s) \<leftarrow> ListInsertListAt tgt node wrapper s;
     (_, s) \<leftarrow> ListDestroy wrapper s;
     Some (tgt, s) }"

definition ListSplit ::
  "ListRoot option \<Rightarrow> addr option \<Rightarrow> 'a store \<Rightarrow> (ListRoot \<times> ListRoot option \<times> 'a store) option" where
  "ListSplit srcp splitter s = (case srcp of
     None \<Rightarrow> Some (ListNew, None, s)
   | Some src \<Rightarrow>
       if splitter = None then Some (ListNew, srcp, s)
       else do {
         let real_end = lr_end src;
         let src = src\<lparr> lr_end := splitter \<rparr>;
         n \<leftarrow> deref s splitter;
         if ln_right n \<noteq> None then do {
           let ret = \<lparr> lr_begin = ln_right n, lr_end = real_end \<rparr>;
           s \<leftarrow> set_right splitter None s;
           s \<leftarrow> set_left (lr_begin ret) None s;
           Some (ret, Some src, s) }
         else Some (ListNew, Some src, s) })"

end
