(* ===== verification/DynListCorrect.thy ===== *)
theory DynListCorrect
  imports DynList
begin

text \<open>
  The doubly linked list implements sequences. \<open>chain m l xs r\<close> says that the nodes of the map
  \<open>m\<close> at the addresses of \<open>xs\<close> hold its values and are linked one to the next in both
  directions, with \<open>l\<close> and \<open>r\<close> beyond the ends; \<open>list_at s l xs\<close> that the list with root
  \<open>l\<close> consists of such nodes. Each operation has a lemma: it returns, the list is again linked both
  ways and holds the values the operation promises, and no other node of the store changes
  (\<open>same_except\<close>), so that several lists can live in one store.
\<close>

section \<open>Linked nodes\<close>

type_synonym 'a entry = "addr \<times> 'a option"

definition first_of :: "'a entry list \<Rightarrow> addr option \<Rightarrow> addr option" where
  "first_of xs r = (case xs of [] \<Rightarrow> r | x # _ \<Rightarrow> Some (fst x))"

definition last_of :: "addr option \<Rightarrow> 'a entry list \<Rightarrow> addr option" where
  "last_of l xs = (if xs = [] then l else Some (fst (last xs)))"

lemma first_of_simps [simp]: "first_of [] r = r" "first_of (x # xs) r = Some (fst x)"
  "first_of (xs @ ys) r = first_of xs (first_of ys r)"
  by (simp_all add: first_of_def split: list.split)

lemma last_of_simps [simp]: "last_of l [] = l" "last_of l (xs @ ys) = last_of (last_of l xs) ys"
  "last_of l (x # xs) = last_of (Some (fst x)) xs"
  by (simp_all add: last_of_def)

fun chain :: "(addr \<Rightarrow> 'a ListNode option) \<Rightarrow> addr option \<Rightarrow> 'a entry list \<Rightarrow> addr option \<Rightarrow> bool" where
  "chain m l [] r = True"
| "chain m l (x # xs) r =
     (m (fst x) = Some \<lparr> ln_right = first_of xs r, ln_value = snd x, ln_left = l \<rparr> \<and>
      chain m (Some (fst x)) xs r)"

lemma chain_append: "chain m l (xs @ ys) r \<longleftrightarrow> chain m l xs (first_of ys r) \<and> chain m (last_of l xs) ys r"
  by (induction xs arbitrary: l) auto

abbreviation addrs :: "'a entry list \<Rightarrow> addr list" where
  "addrs xs \<equiv> map fst xs"

lemma chain_cong: "(\<And>a. a \<in> set (addrs xs) \<Longrightarrow> m' a = m a) \<Longrightarrow> chain m' l xs r = chain m l xs r"
  by (induction xs arbitrary: l) auto

lemma chain_upd [simp]: "a \<notin> set (addrs xs) \<Longrightarrow> chain (m(a := y)) l xs r = chain m l xs r"
  by (rule chain_cong) auto

lemma chain_dom: "chain m l xs r \<Longrightarrow> a \<in> set (addrs xs) \<Longrightarrow> m a \<noteq> None"
  by (induction xs arbitrary: l) auto

definition list_at :: "'a store \<Rightarrow> ListRoot \<Rightarrow> 'a entry list \<Rightarrow> bool" where
  "list_at s l xs \<longleftrightarrow> chain (st_node s) None xs None \<and> lr_begin l = first_of xs None \<and>
     lr_end l = last_of None xs \<and> distinct (addrs xs)"

definition ok_store :: "'a store \<Rightarrow> bool" where
  "ok_store s \<longleftrightarrow> (\<forall>a. st_node s a \<noteq> None \<longrightarrow> a < st_next s)"

definition same_except :: "addr set \<Rightarrow> 'a store \<Rightarrow> 'a store \<Rightarrow> bool" where
  "same_except A s s' \<longleftrightarrow> st_next s \<le> st_next s' \<and>
     (\<forall>a. a \<notin> A \<longrightarrow> a < st_next s \<longrightarrow> st_node s' a = st_node s a)"

lemma same_except_refl [simp]: "same_except A s s"
  by (simp add: same_except_def)

lemma same_except_trans:
  "same_except A s s' \<Longrightarrow> same_except B s' s'' \<Longrightarrow> (\<And>a. a \<in> B \<Longrightarrow> a < st_next s \<Longrightarrow> a \<in> A) \<Longrightarrow>
   same_except A s s''"
  unfolding same_except_def by (metis le_trans less_le_trans)

lemma list_at_frame:
  assumes "list_at s l xs" "ok_store s" "same_except A s s'" "set (addrs xs) \<inter> A = {}"
  shows "list_at s' l xs"
proof -
  have "st_node s' a = st_node s a" if "a \<in> set (addrs xs)" for a
    using assms that chain_dom [of "st_node s" None xs None a]
    by (auto simp: list_at_def ok_store_def same_except_def)
  then have "chain (st_node s') None xs None = chain (st_node s) None xs None" by (rule chain_cong)
  with assms(1) show ?thesis by (simp add: list_at_def)
qed

lemma list_at_fresh: "list_at s l xs \<Longrightarrow> ok_store s \<Longrightarrow> st_next s \<notin> set (addrs xs)"
  using chain_dom by (fastforce simp: list_at_def ok_store_def)

lemma list_at_New [simp]: "list_at s ListNew []"
  by (simp add: list_at_def ListNew_def)

lemma list_at_split_last:
  "list_at s l (xs @ [x]) \<Longrightarrow>
   st_node s (fst x) = Some \<lparr> ln_right = None, ln_value = snd x, ln_left = last_of None xs \<rparr>"
  by (simp add: list_at_def chain_append)

lemmas node_ops = set_right_def set_left_def set_value_def update_node_def deref_def free_node_def

section \<open>The ends\<close>

lemma ListPushBack_ok:
  assumes l: "list_at s l xs" and s: "ok_store s"
  shows "\<exists>l' s'. ListPushBack (Some l) v s = Some (Some (st_next s), Some l', s') \<and>
    list_at s' l' (xs @ [(st_next s, v)]) \<and> ok_store s' \<and> same_except (set (addrs xs)) s s' \<and>
    st_next s' = Suc (st_next s)"
proof (cases xs rule: rev_cases)
  case Nil
  with l s show ?thesis
    by (auto simp: ListPushBack_def ListMakeNode_def list_at_def ok_store_def same_except_def less_Suc_eq)
next
  case (snoc ys y)
  have fresh: "st_next s \<notin> set (addrs xs)" by (rule list_at_fresh [OF l s])
  have y: "st_node s (fst y) = Some \<lparr> ln_right = None, ln_value = snd y, ln_left = last_of None ys \<rparr>"
    using list_at_split_last l snoc by metis
  from l snoc have c: "chain (st_node s) None ys (Some (fst y))" "distinct (addrs xs)"
    "lr_begin l = first_of xs None" "lr_end l = Some (fst y)"
    by (simp_all add: list_at_def chain_append)
  have "lr_begin l \<noteq> None" using c(3) snoc by (cases ys) simp_all
  with c y fresh snoc s show ?thesis
    by (auto simp: ListPushBack_def ListMakeNode_def node_ops list_at_def chain_append ok_store_def
        same_except_def less_Suc_eq)
qed

lemma ListPushFront_ok:
  assumes l: "list_at s l xs" and s: "ok_store s"
  shows "\<exists>l' s'. ListPushFront (Some l) v s = Some (Some (st_next s), Some l', s') \<and>
    list_at s' l' ((st_next s, v) # xs) \<and> ok_store s' \<and> same_except (set (addrs xs)) s s' \<and>
    st_next s' = Suc (st_next s)"
proof (cases xs)
  case Nil
  with l s show ?thesis
    by (auto simp: ListPushFront_def ListMakeNode_def list_at_def ok_store_def same_except_def less_Suc_eq)
next
  case (Cons y ys)
  have fresh: "st_next s \<notin> set (addrs xs)" by (rule list_at_fresh [OF l s])
  from l Cons have "lr_end l = Some (fst (last xs))" by (simp add: list_at_def last_of_def)
  moreover from this have "last_of (Some (st_next s)) xs = lr_end l" using Cons by (simp add: last_of_def)
  ultimately show ?thesis
    using l fresh Cons s
    by (auto simp: ListPushFront_def ListMakeNode_def node_ops list_at_def ok_store_def
        same_except_def less_Suc_eq)
qed

lemma ListPopFront_ok:
  assumes l: "list_at s l (x # xs)" and s: "ok_store s"
  shows "\<exists>l' s'. ListPopFront (Some l) s = Some (snd x, Some l', s') \<and>
    list_at s' l' xs \<and> ok_store s' \<and> same_except (set (addrs (x # xs))) s s'"
proof (cases xs)
  case Nil
  with l s show ?thesis
    by (auto simp: ListPopFront_def node_ops list_at_def ok_store_def same_except_def)
next
  case (Cons y ys)
  then have "last_of (Some (fst x)) xs = last_of None xs" by (simp add: last_of_def)
  with l s Cons show ?thesis
    by (auto simp: ListPopFront_def node_ops list_at_def ok_store_def same_except_def)
qed

lemma ListPopBack_ok:
  assumes l: "list_at s l (xs @ [x])" and s: "ok_store s"
  shows "\<exists>l' s'. ListPopBack (Some l) s = Some (snd x, Some l', s') \<and>
    list_at s' l' xs \<and> ok_store s' \<and> same_except (set (addrs (xs @ [x]))) s s'"
proof (cases xs rule: rev_cases)
  case Nil
  with l s show ?thesis
    by (auto simp: ListPopBack_def node_ops list_at_def ok_store_def same_except_def)
next
  case (snoc ys y)
  with l s show ?thesis
    by (auto simp: ListPopBack_def node_ops list_at_def chain_append ok_store_def same_except_def)
qed

lemma ListPop_empty:
  assumes "list_at s l []"
  shows "ListPopFront (Some l) s = Some (None, Some l, s)" "ListPopBack (Some l) s = Some (None, Some l, s)"
  using assms by (simp_all add: ListPopFront_def ListPopBack_def list_at_def)

lemma ListFirst_ok: "list_at s l xs \<Longrightarrow> ListFirst (Some l) s = Some (if xs = [] then None else snd (hd xs))"
  by (cases xs) (auto simp: ListFirst_def list_at_def deref_def)

lemma ListLast_ok: "list_at s l xs \<Longrightarrow> ListLast (Some l) s = Some (if xs = [] then None else snd (last xs))"
  by (cases xs rule: rev_cases) (auto simp: ListLast_def list_at_def chain_append deref_def)

section \<open>Traversals\<close>

lemma list_size_loop_ok:
  "chain (st_node s) l xs None \<Longrightarrow> list_size_loop s (first_of xs None) n = Some (n + int (length xs))"
proof (induction xs arbitrary: l n)
  case (Cons x xs)
  then have "list_size_loop s (first_of xs None) (n + 1) = Some (n + 1 + int (length xs))"
    by (intro Cons.IH [of "Some (fst x)"]) simp
  with Cons.prems show ?case
    by (subst list_size_loop.simps) (simp add: ListNext_def deref_def)
qed (simp add: list_size_loop.simps)

lemma ListSize_ok: "list_at s l xs \<Longrightarrow> ListSize (Some l) s = Some (int (length xs))"
  using list_size_loop_ok [of s None xs 0] by (simp add: ListSize_def list_at_def)

lemma list_value_loop_ok:
  "chain (st_node s) l xs None \<Longrightarrow> i \<le> p \<Longrightarrow> list_value_loop s (first_of xs None) p i =
   Some (if p - i < int (length xs) then snd (xs ! nat (p - i)) else None)"
proof (induction xs arbitrary: l i)
  case (Cons x xs)
  show ?case
  proof (cases "p = i")
    case True
    with Cons show ?thesis by (subst list_value_loop.simps) (simp add: ListGetValue_def deref_def)
  next
    case False
    with Cons.prems have "nat (p - i) = Suc (nat (p - (i + 1)))" "i + 1 \<le> p" by auto
    with False Cons show ?thesis
      by (subst list_value_loop.simps) (auto simp: ListGetValue_def ListNext_def deref_def)
  qed
qed (simp add: list_value_loop.simps)

lemma ListGetValueAt_ok:
  "list_at s l xs \<Longrightarrow> ListGetValueAt (Some l) p s =
   Some (if 0 \<le> p \<and> p < int (length xs) then snd (xs ! nat p) else None)"
  using list_value_loop_ok [of s None xs 0 p]
  by (auto simp: ListGetValueAt_def list_at_def ListBegin_def)

lemma list_values_loop_ok:
  "chain (st_node s) l xs None \<Longrightarrow> list_values_loop s (first_of xs None) = Some (map snd xs)"
proof (induction xs arbitrary: l)
  case (Cons x xs)
  then have "list_values_loop s (first_of xs None) = Some (map snd xs)"
    by (intro Cons.IH [of "Some (fst x)"]) simp
  with Cons.prems show ?case
    by (subst list_values_loop.simps) (simp add: ListGetValue_def ListNext_def deref_def)
qed (simp add: list_values_loop.simps)

definition remove_nodes :: "addr list \<Rightarrow> 'a store \<Rightarrow> 'a store" where
  "remove_nodes as s = s\<lparr> st_node := (\<lambda>a. if a \<in> set as then None else st_node s a) \<rparr>"

lemma remove_nodes_ok: "ok_store s \<Longrightarrow> ok_store (remove_nodes as s) \<and> same_except (set as) s (remove_nodes as s)"
  by (auto simp: ok_store_def same_except_def remove_nodes_def)

lemma remove_nodes_Nil [simp]: "remove_nodes [] s = s"
  by (simp add: remove_nodes_def)

lemma remove_nodes_node: "st_node (remove_nodes as s) a = (if a \<in> set as then None else st_node s a)"
  by (simp add: remove_nodes_def)

lemma free_node_remove: "st_node s a \<noteq> None \<Longrightarrow> free_node (Some a) s = Some (remove_nodes [a] s)"
  by (auto simp: free_node_def remove_nodes_def fun_upd_def)

lemma remove_nodes_append: "remove_nodes bs (remove_nodes as s) = remove_nodes (as @ bs) s"
  by (auto simp: remove_nodes_def fun_eq_iff intro!: arg_cong [of _ _ "\<lambda>f. st_node_update f s"])

lemma list_destroy_loop_ok:
  "chain (st_node s) l xs None \<Longrightarrow> distinct (addrs xs) \<Longrightarrow>
   list_destroy_loop (first_of xs None) s = Some (remove_nodes (addrs xs) s)"
proof (induction xs arbitrary: l s)
  case (Cons x xs)
  let ?s = "remove_nodes [fst x] s"
  have "chain (st_node ?s) (Some (fst x)) xs None"
    using Cons.prems by (subst chain_cong [of _ _ "st_node s"]) (auto simp: remove_nodes_node image_iff)
  with Cons.IH [of ?s] Cons.prems show ?case
    by (subst list_destroy_loop.simps) (simp add: deref_def free_node_remove remove_nodes_append)
qed (simp add: list_destroy_loop.simps)

lemma ListDestroyRecLeft_ok:
  "chain (st_node s) None xs r \<Longrightarrow> distinct (addrs xs) \<Longrightarrow>
   ListDestroyRecLeft (last_of None xs) s = Some (remove_nodes (addrs xs) s)"
proof (induction xs arbitrary: r rule: rev_induct)
  case (snoc x xs)
  then have x: "st_node s (fst x) = Some \<lparr> ln_right = r, ln_value = snd x, ln_left = last_of None xs \<rparr>"
    by (simp add: chain_append)
  have there: "st_node (remove_nodes (addrs xs) s) (fst x) \<noteq> None"
    using x snoc.prems(2) by (simp add: remove_nodes_node)
  show ?case
  proof (cases "xs = []")
    case True
    with x show ?thesis
      by (subst ListDestroyRecLeft.simps) (simp add: deref_def free_node_remove)
  next
    case False
    then obtain a where a: "last_of None xs = Some a" by (simp add: last_of_def)
    have "ListDestroyRecLeft (last_of None xs) s = Some (remove_nodes (addrs xs) s)"
      using snoc by (intro snoc.IH [of "Some (fst x)"]) (simp_all add: chain_append)
    with a x there show ?thesis
      by (subst ListDestroyRecLeft.simps) (simp add: deref_def free_node_remove remove_nodes_append)
  qed
qed (simp add: ListDestroyRecLeft.simps)

lemma ListDestroy_ok:
  "list_at s l xs \<Longrightarrow> ListDestroy (Some l) s = Some (Some ListNew, remove_nodes (addrs xs) s)"
  using list_destroy_loop_ok [of s None xs] by (simp add: ListDestroy_def list_at_def)

lemma ListClear_ok:
  "list_at s l xs \<Longrightarrow> ListClear (Some l) s = Some (Some ListNew, remove_nodes (addrs xs) s)"
  using ListDestroyRecLeft_ok [of s xs None]
  by (cases "xs = []") (auto simp: ListClear_def list_at_def last_of_def)

lemma ListDestroyDeep_ok:
  "list_at s l xs \<Longrightarrow>
   ListDestroyDeep (Some l) s = Some (Some ListNew, remove_nodes (addrs xs) s, map snd xs)"
  using list_values_loop_ok [of s None xs]
  by (simp add: ListDestroyDeep_def ListDestroy_ok ListBegin_def) (simp add: list_at_def)

text \<open>The values of a list replaced through \<open>f\<close>.\<close>

definition map_entries :: "('a option \<Rightarrow> 'a option) \<Rightarrow> 'a entry list \<Rightarrow> 'a entry list" where
  "map_entries f xs = map (\<lambda>(a, v). (a, f v)) xs"

lemma map_entries_simps [simp]: "map_entries f [] = []" "map_entries f (x # xs) = (fst x, f (snd x)) # map_entries f xs"
  "addrs (map_entries f xs) = addrs xs" "map snd (map_entries f xs) = map f (map snd xs)"
  by (auto simp: map_entries_def split_beta)

lemma first_of_map_entries [simp]: "first_of (map_entries f xs) r = first_of xs r"
  by (cases xs) simp_all

lemma last_of_map_entries [simp]: "last_of l (map_entries f xs) = last_of l xs"
  by (induction xs arbitrary: l) simp_all

lemma store_idem: "st_node s a = Some n \<Longrightarrow> s\<lparr> st_node := (st_node s)(a \<mapsto> n) \<rparr> = s"
  by (cases s) (simp add: fun_upd_idem)

lemma ListMapNodes_ok:
  "chain (st_node s) l xs None \<Longrightarrow> distinct (addrs xs) \<Longrightarrow> ok_store s \<Longrightarrow>
   \<exists>s'. ListMapNodes (first_of xs None) f p s = Some (s', map snd xs) \<and> ok_store s' \<and>
     same_except (set (addrs xs)) s s' \<and> st_next s' = st_next s \<and>
     chain (st_node s') l (if p then xs else map_entries f xs) None"
proof (induction xs arbitrary: l s)
  case (Cons x xs)
  let ?n = "\<lparr> ln_right = first_of xs None, ln_value = (if p then snd x else f (snd x)), ln_left = l \<rparr>"
  let ?s = "s\<lparr> st_node := (st_node s)(fst x \<mapsto> ?n) \<rparr>"
  have "chain (st_node ?s) (Some (fst x)) xs None" "ok_store ?s"
    using Cons.prems by (auto simp: ok_store_def)
  then obtain s' where s': "ListMapNodes (first_of xs None) f p ?s = Some (s', map snd xs)" "ok_store s'"
    "same_except (set (addrs xs)) ?s s'" "st_next s' = st_next ?s"
    "chain (st_node s') (Some (fst x)) (if p then xs else map_entries f xs) None"
    using Cons.IH Cons.prems(2) by fastforce
  have x: "st_node s' (fst x) = Some ?n"
    using s'(3) Cons.prems by (auto simp: same_except_def ok_store_def)
  have upd: "(if \<not> p then set_value (Some (fst x)) (f (snd x)) s else Some s) = Some ?s"
    using Cons.prems by (auto simp: node_ops store_idem)
  have same: "same_except (set (addrs (x # xs))) s s'"
    using s'(3) by (auto simp: same_except_def)
  have "ListMapNodes (Some (fst x)) f p s = Some (s', map snd (x # xs))"
    using Cons.prems s'(1) upd
    by (subst ListMapNodes.simps) (cases p; simp add: deref_def)
  with s' x same show ?case by auto
qed (simp add: ListMapNodes.simps)

lemma ListMap_ok:
  assumes "list_at s l xs" "ok_store s"
  shows "\<exists>s'. ListMap (Some l) f s = Some (s', map snd xs) \<and> list_at s' l (map_entries f xs) \<and> ok_store s' \<and>
    same_except (set (addrs xs)) s s' \<and> st_next s' = st_next s"
proof (cases "xs = []")
  case True
  with assms show ?thesis by (simp add: ListMap_def list_at_def)
next
  case False
  with assms ListMapNodes_ok [of s None xs f False] show ?thesis
    by (cases xs) (auto simp: ListMap_def list_at_def)
qed

lemma ListIterate_ok:
  assumes "list_at s l xs" "ok_store s"
  shows "\<exists>s'. ListIterate (Some l) f s = Some (s', map snd xs) \<and> list_at s' l xs \<and> ok_store s' \<and>
    same_except (set (addrs xs)) s s' \<and> st_next s' = st_next s"
proof (cases "xs = []")
  case True
  with assms show ?thesis by (simp add: ListIterate_def list_at_def)
next
  case False
  with assms ListMapNodes_ok [of s None xs f True] show ?thesis
    by (cases xs) (auto simp: ListIterate_def list_at_def)
qed

section \<open>Copying into a list\<close>

lemma list_copy_loop_ok:
  "chain (st_node s) l xs None \<Longrightarrow> ok_store s \<Longrightarrow> list_at s t ys \<Longrightarrow> set (addrs xs) \<inter> set (addrs ys) = {} \<Longrightarrow>
   \<exists>t' s' zs. list_copy_loop (first_of xs None) (Some t) s = Some (Some t', s') \<and>
     list_at s' t' (ys @ zs) \<and> map snd zs = map snd xs \<and> ok_store s' \<and> same_except (set (addrs ys)) s s' \<and>
     (\<forall>a \<in> set (addrs zs). st_next s \<le> a)"
proof (induction xs arbitrary: l s t ys)
  case Nil
  then show ?case by (intro exI [of _ t] exI [of _ s] exI [of _ "[]"]) (simp add: list_copy_loop.simps)
next
  case (Cons x xs)
  then have x: "st_node s (fst x) = Some \<lparr> ln_right = first_of xs None, ln_value = snd x, ln_left = l \<rparr>"
    and rest: "chain (st_node s) (Some (fst x)) xs None" by simp_all
  obtain t1 s1 where s1: "ListPushBack (Some t) (snd x) s = Some (Some (st_next s), Some t1, s1)"
    "list_at s1 t1 (ys @ [(st_next s, snd x)])" "ok_store s1" "same_except (set (addrs ys)) s s1"
    using ListPushBack_ok [OF Cons.prems(3,2)] by blast
  have old: "a < st_next s" if "a \<in> set (addrs (x # xs))" for a
    using chain_dom [OF Cons.prems(1) that] Cons.prems(2) by (auto simp: ok_store_def)
  then have keep: "st_node s1 a = st_node s a" if "a \<in> set (addrs (x # xs))" for a
  proof -
    from that Cons.prems(4) have "a \<notin> set (addrs ys)" by blast
    with s1(4) old [OF that] show ?thesis unfolding same_except_def by blast
  qed
  have c1: "chain (st_node s1) (Some (fst x)) xs None"
    using rest chain_cong [of xs "st_node s1" "st_node s"] keep by simp
  have disj: "set (addrs xs) \<inter> set (addrs (ys @ [(st_next s, snd x)])) = {}"
  proof -
    have "st_next s \<notin> set (addrs xs)" using old [of "st_next s"] by (metis less_irrefl list.set_intros(2) list.simps(9))
    with Cons.prems(4) show ?thesis by simp
  qed
  obtain t' s' zs where IH: "list_copy_loop (first_of xs None) (Some t1) s1 = Some (Some t', s')"
    "list_at s' t' ((ys @ [(st_next s, snd x)]) @ zs)" "map snd zs = map snd xs" "ok_store s'"
    "same_except (set (addrs (ys @ [(st_next s, snd x)]))) s1 s'" "\<forall>a \<in> set (addrs zs). st_next s1 \<le> a"
    using Cons.IH [OF c1 s1(3,2) disj] by (elim exE conjE) (rule that)
  have "st_node s1 (fst x) = st_node s (fst x)" by (rule keep) simp
  then have run: "list_copy_loop (first_of (x # xs) None) (Some t) s = Some (Some t', s')"
    using x s1(1) IH(1) by (subst list_copy_loop.simps) (simp add: deref_def ListNext_def)
  have "same_except (set (addrs ys)) s s'"
    by (rule same_except_trans [OF s1(4) IH(5)]) auto
  moreover have "st_next s \<le> st_next s1" using s1(4) by (simp add: same_except_def)
  moreover have "\<forall>a \<in> set (addrs ((st_next s, snd x) # zs)). st_next s \<le> a"
    using IH(6) calculation(2) by (simp del: set_map) (meson le_trans)
  moreover have "list_at s' t' (ys @ (st_next s, snd x) # zs)" using IH(2) by simp
  moreover have "map snd ((st_next s, snd x) # zs) = map snd (x # xs)" using IH(3) by simp
  ultimately show ?case using run IH(4) by (intro exI conjI)
qed

lemma ListCopyInto_ok:
  assumes "list_at s l xs" "list_at s t ys" "ok_store s" "set (addrs xs) \<inter> set (addrs ys) = {}"
  shows "\<exists>t' s' zs. ListCopyInto (Some l) (Some t) s = Some (Some t', s') \<and>
     list_at s' t' (ys @ zs) \<and> map snd zs = map snd xs \<and> ok_store s' \<and> same_except (set (addrs ys)) s s' \<and>
     (\<forall>a \<in> set (addrs zs). st_next s \<le> a)"
  using list_copy_loop_ok [of s None xs t ys] assms
  by (simp add: ListCopyInto_def ListBegin_def list_at_def)

text \<open>Copying through a chunk. \<open>blank\<close> nodes have a value and no links.\<close>

definition blanks :: "'a store \<Rightarrow> 'a entry list \<Rightarrow> bool" where
  "blanks s zs \<longleftrightarrow> (\<forall>z \<in> set zs. st_node s (fst z) =
     Some \<lparr> ln_right = None, ln_value = snd z, ln_left = None \<rparr>)"

lemma blanks_upd [simp]:
  "a \<notin> set (addrs zs) \<Longrightarrow> blanks (s\<lparr> st_node := (st_node s)(a := y) \<rparr>) zs = blanks s zs"
  unfolding blanks_def by (intro ball_cong) force+

lemma make_chunk_ok:
  "ok_store s \<Longrightarrow> \<exists>zs s'. make_chunk n s = (map (\<lambda>z. Some (fst z)) zs, s') \<and> length zs = n \<and> distinct (addrs zs) \<and>
     (\<forall>z \<in> set zs. st_next s \<le> fst z \<and> snd z = None) \<and> blanks s' zs \<and> ok_store s' \<and> same_except {} s s'"
proof (induction n arbitrary: s)
  case 0
  then show ?case by (simp add: blanks_def)
next
  case (Suc n)
  obtain p s1 where p: "ListMakeNode None None None s = (p, s1)" by (cases "ListMakeNode None None None s")
  then have p': "p = Some (st_next s)" "st_next s1 = Suc (st_next s)" "same_except {} s s1"
    "st_node s1 (st_next s) = Some \<lparr> ln_right = None, ln_value = None, ln_left = None \<rparr>" "ok_store s1"
    using Suc.prems by (auto simp: ListMakeNode_def same_except_def ok_store_def less_Suc_eq)
  obtain zs s' where IH: "make_chunk n s1 = (map (\<lambda>z. Some (fst z)) zs, s')" "length zs = n" "distinct (addrs zs)"
    "\<forall>z \<in> set zs. st_next s1 \<le> fst z \<and> snd z = None" "blanks s' zs" "ok_store s'" "same_except {} s1 s'"
    using Suc.IH [OF p'(5)] by blast
  have "st_node s' (st_next s) = st_node s1 (st_next s)" "same_except {} s s'"
    using IH(7) p'(2,3) by (auto simp: same_except_def)
  with p p' IH show ?case
    by (intro exI [of _ "(st_next s, None) # zs"] exI [of _ s']) (auto simp: blanks_def)
qed

lemma clear_chunk_ok:
  "blanks s zs \<Longrightarrow> \<forall>z \<in> set zs. snd z = None \<Longrightarrow> clear_chunk (map (\<lambda>z. Some (fst z)) zs) s = Some s"
  by (induction zs) (auto simp: blanks_def node_ops store_idem)

lemma fill_chunk_ok:
  "chain (st_node s) l xs None \<Longrightarrow> blanks s zs \<Longrightarrow> length zs = length xs \<Longrightarrow> distinct (addrs zs) \<Longrightarrow>
   set (addrs xs) \<inter> set (addrs zs) = {} \<Longrightarrow> ok_store s \<Longrightarrow>
   \<exists>s'. fill_chunk (map (\<lambda>z. Some (fst z)) zs) (first_of xs None) s = Some s' \<and>
     blanks s' (zip (addrs zs) (map snd xs)) \<and> ok_store s' \<and> same_except (set (addrs zs)) s s' \<and>
     st_next s' = st_next s"
proof (induction zs arbitrary: l s xs)
  case Nil
  then show ?case by (simp add: blanks_def)
next
  case (Cons z zs)
  then obtain x ys where xs: "xs = x # ys" by (cases xs) auto
  let ?n = "\<lparr> ln_right = None, ln_value = snd x, ln_left = None \<rparr>"
  let ?s = "s\<lparr> st_node := (st_node s)(fst z \<mapsto> ?n) \<rparr>"
  have set: "set_value (Some (fst z)) (snd x) s = Some ?s"
    using Cons.prems(2) by (simp add: blanks_def node_ops)
  have z: "fst z \<notin> set (addrs ys)" "fst z \<notin> set (addrs zs)" "fst x \<noteq> fst z"
    using Cons.prems(4,5) xs by auto
  have here: "chain (st_node ?s) (Some (fst x)) ys None" "blanks ?s zs" "ok_store ?s"
    using Cons.prems(1,2,6) xs z by (simp_all add: ok_store_def) (simp_all add: blanks_def)
  have "length zs = length ys" "distinct (addrs zs)" "set (addrs ys) \<inter> set (addrs zs) = {}"
    using Cons.prems(3-5) xs by auto
  from Cons.IH [OF here(1,2) this here(3)] obtain s' where s': "fill_chunk (map (\<lambda>z. Some (fst z)) zs) (first_of ys None) ?s = Some s'"
    "blanks s' (zip (addrs zs) (map snd ys))" "ok_store s'" "same_except (set (addrs zs)) ?s s'"
    "st_next s' = st_next s" by auto
  have "fst z < st_next s" using Cons.prems(2,6) by (auto simp: blanks_def ok_store_def)
  then have "st_node s' (fst z) = Some ?n" using s'(4) z(2) by (auto simp: same_except_def)
  moreover have "same_except (set (addrs (z # zs))) s s'"
    using s'(4) by (auto simp: same_except_def)
  moreover have "fill_chunk (map (\<lambda>z. Some (fst z)) (z # zs)) (first_of xs None) s = Some s'"
    using Cons.prems(1) set s'(1) xs z(3) by (simp add: deref_def)
  ultimately show ?case using s' xs by (auto simp: blanks_def)
qed

lemma link_chunk_ok:
  "blanks s zs \<Longrightarrow> distinct (addrs zs) \<Longrightarrow> ok_store s \<Longrightarrow>
   \<exists>s'. link_chunk (map_option Some b) (map (\<lambda>z. Some (fst z)) zs) s = Some s' \<and> chain (st_node s') b zs None \<and>
     ok_store s' \<and> same_except (set (addrs zs)) s s' \<and> st_next s' = st_next s"
proof (induction zs arbitrary: b s)
  case Nil
  then show ?case by simp
next
  case (Cons z zs)
  let ?n = "\<lparr> ln_right = first_of zs None, ln_value = snd z, ln_left = b \<rparr>"
  let ?s = "s\<lparr> st_node := (st_node s)(fst z \<mapsto> ?n) \<rparr>"
  have z: "st_node s (fst z) = Some \<lparr> ln_right = None, ln_value = snd z, ln_left = None \<rparr>"
    using Cons.prems(1) by (simp add: blanks_def)
  have "blanks ?s zs" "ok_store ?s"
    using Cons.prems z by (simp_all add: ok_store_def) (simp add: blanks_def)
  then obtain s' where s': "link_chunk (Some (Some (fst z))) (map (\<lambda>z. Some (fst z)) zs) ?s = Some s'"
    "chain (st_node s') (Some (fst z)) zs None" "ok_store s'" "same_except (set (addrs zs)) ?s s'"
    "st_next s' = st_next s"
    using Cons.IH [of ?s "Some (fst z)"] Cons.prems(2) by auto
  have "link_chunk (map_option Some b) (map (\<lambda>z. Some (fst z)) (z # zs)) s = Some s'"
    using z s'(1) by (cases b; cases zs) (auto simp: node_ops store_idem)
  moreover have "fst z < st_next s" using z Cons.prems(3) by (auto simp: ok_store_def)
  then have "st_node s' (fst z) = Some ?n" using s'(4) Cons.prems(2) by (auto simp: same_except_def)
  moreover have "same_except (set (addrs (z # zs))) s s'" using s'(4) by (auto simp: same_except_def)
  ultimately show ?case using s' by auto
qed

lemma ListDetachElement_ok:
  assumes l: "list_at s l (xs @ x # ys)" and s: "ok_store s"
  shows "\<exists>l' s'. ListDetachElement (Some l) (Some (fst x)) s = Some (Some l', s') \<and>
    list_at s' l' (xs @ ys) \<and> ok_store s' \<and> same_except (set (addrs (xs @ x # ys))) s s'"
proof (cases xs rule: rev_cases; cases ys)
  assume "xs = []" "ys = []"
  with l s show ?thesis
    by (auto simp: ListDetachElement_def node_ops list_at_def ok_store_def same_except_def)
next
  fix y ys' assume "xs = []" "ys = y # ys'"
  with l s show ?thesis
    by (auto simp: ListDetachElement_def node_ops list_at_def ok_store_def same_except_def)
next
  fix xs' w assume "xs = xs' @ [w]" "ys = []"
  with l s show ?thesis
    by (auto simp: ListDetachElement_def node_ops list_at_def chain_append ok_store_def same_except_def)
next
  fix xs' w y ys' assume "xs = xs' @ [w]" "ys = y # ys'"
  with l s show ?thesis
    by (auto simp: ListDetachElement_def node_ops list_at_def chain_append ok_store_def same_except_def)
qed

lemma ListInsertListAt_ok:
  assumes l: "list_at s l (xs @ x # ys)" and m: "list_at s m zs" and s: "ok_store s"
    and disj: "set (addrs (xs @ x # ys)) \<inter> set (addrs zs) = {}"
  shows "\<exists>l' s'. ListInsertListAt (Some l) (Some (fst x)) (Some m) s = Some (Some l', Some ListNew, s') \<and>
    list_at s' l' (xs @ zs @ x # ys) \<and> ok_store s' \<and>
    same_except (set (addrs (xs @ x # ys)) \<union> set (addrs zs)) s s' \<and> st_next s' = st_next s"
proof (cases "zs = []")
  case True
  with m have "m = ListNew" by (simp add: list_at_def ListNew_def)
  with True l s show ?thesis by (simp add: ListInsertListAt_def ListNew_def)
next
  case False
  then obtain b zs' where zs: "zs = zs' @ [b]" by (cases zs rule: rev_cases) auto
  obtain a where a: "first_of zs' (Some (fst b)) = Some a" "lr_begin m = Some a"
    using m by (cases zs') (simp_all add: list_at_def zs)
  show ?thesis
  proof (cases xs rule: rev_cases)
    case Nil
    from l m disj have f: "st_node s (fst x) = Some \<lparr> ln_right = first_of ys None, ln_value = snd x, ln_left = None \<rparr>"
      "st_node s (fst b) = Some \<lparr> ln_right = None, ln_value = snd b, ln_left = last_of None zs' \<rparr>"
      "lr_end m = Some (fst b)" "fst b \<noteq> fst x" "fst b \<notin> set (addrs zs')" "fst x \<notin> set (addrs zs')"
      "fst b \<notin> set (addrs ys)" "fst x \<notin> set (addrs ys)" "lr_end l = last_of (Some (fst x)) ys"
      "chain (st_node s) None zs' (Some (fst b))" "chain (st_node s) (Some (fst x)) ys None"
      "distinct (addrs (zs' @ b # x # ys))"
      by (auto simp: list_at_def chain_append Nil zs)
    with s a show ?thesis
      by (simp add: ListInsertListAt_def node_ops list_at_def chain_append Nil zs ListNew_def ok_store_def
          same_except_def)
  next
    case (snoc xs' w)
    from l have f: "st_node s (fst x) = Some \<lparr> ln_right = first_of ys None, ln_value = snd x, ln_left = Some (fst w) \<rparr>"
      "st_node s (fst w) = Some \<lparr> ln_right = Some (fst x), ln_value = snd w, ln_left = last_of None xs' \<rparr>"
      "chain (st_node s) None xs' (Some (fst w))" "chain (st_node s) (Some (fst x)) ys None"
      "lr_begin l = first_of xs' (Some (fst w))" "lr_end l = last_of (Some (fst x)) ys"
      by (simp_all add: list_at_def chain_append snoc)
    from m have e: "lr_end m = Some (fst b)" by (simp add: list_at_def zs)
    have "distinct (addrs (xs @ x # ys) @ addrs zs)"
      using l m disj by (simp add: list_at_def) blast
    then have d: "distinct (addrs (xs' @ w # zs' @ b # x # ys))"
      unfolding snoc zs by simp blast
    show ?thesis
    proof (cases zs')
      case Nil
      with m have "st_node s (fst b) = Some \<lparr> ln_right = None, ln_value = snd b, ln_left = None \<rparr>"
        by (simp add: list_at_def zs)
      with a f e d s Nil show ?thesis
        by (simp add: ListInsertListAt_def node_ops list_at_def chain_append snoc zs ListNew_def ok_store_def
            same_except_def)
    next
      case (Cons c zs'')
      with m have "st_node s (fst c) = Some \<lparr> ln_right = first_of zs'' (Some (fst b)), ln_value = snd c, ln_left = None \<rparr>"
        "st_node s (fst b) = Some \<lparr> ln_right = None, ln_value = snd b, ln_left = last_of (Some (fst c)) zs'' \<rparr>"
        "chain (st_node s) (Some (fst c)) zs'' (Some (fst b))"
        by (simp_all add: list_at_def zs chain_append)
      with a f e d s Cons show ?thesis
        by (simp add: ListInsertListAt_def node_ops list_at_def chain_append snoc zs ListNew_def ok_store_def
            same_except_def)
    qed
  qed
qed

lemma ListSplit_ok:
  assumes l: "list_at s l (xs @ x # ys)" and s: "ok_store s"
  shows "\<exists>m l' s'. ListSplit (Some l) (Some (fst x)) s = Some (m, Some l', s') \<and>
    list_at s' l' (xs @ [x]) \<and> list_at s' m ys \<and> ok_store s' \<and>
    same_except (set (addrs (xs @ x # ys))) s s' \<and> st_next s' = st_next s"
proof (cases ys)
  case Nil
  with l s show ?thesis
    by (auto simp: ListSplit_def node_ops list_at_def chain_append ok_store_def same_except_def ListNew_def)
next
  case (Cons y ys')
  with l s show ?thesis
    by (auto simp: ListSplit_def node_ops list_at_def chain_append ok_store_def same_except_def ListNew_def)
qed


lemma ListInsertElementAt_ok:
  assumes l: "list_at s l (xs @ x # ys)" and s: "ok_store s"
  shows "\<exists>l' s'. ListInsertElementAt (Some l) (Some (fst x)) v s = Some (Some l', s') \<and>
    list_at s' l' (xs @ (st_next s, v) # x # ys) \<and> ok_store s' \<and>
    same_except (set (addrs (xs @ x # ys))) s s'"
proof -
  obtain w s1 where s1: "ListPushBack (Some ListNew) v s = Some (Some (st_next s), Some w, s1)"
    "list_at s1 w [(st_next s, v)]" "ok_store s1" "same_except {} s s1"
    using ListPushBack_ok [OF list_at_New s, of v] by auto
  have l1: "list_at s1 l (xs @ x # ys)" by (rule list_at_frame [OF l s s1(4)]) simp
  have "set (addrs (xs @ x # ys)) \<inter> set (addrs [(st_next s, v)]) = {}"
    using list_at_fresh [OF l s] by simp
  from ListInsertListAt_ok [OF l1 s1(2,3) this] obtain l' s' where
    s': "ListInsertListAt (Some l) (Some (fst x)) (Some w) s1 = Some (Some l', Some ListNew, s')"
    "list_at s' l' (xs @ [(st_next s, v)] @ x # ys)" "ok_store s'"
    "same_except (set (addrs (xs @ x # ys)) \<union> set (addrs [(st_next s, v)])) s1 s'" by blast
  have "same_except (set (addrs (xs @ x # ys))) s s'"
    by (rule same_except_trans [OF _ s'(4)]) (use s1(4) in \<open>auto simp: same_except_def\<close>)
  moreover have "ListInsertElementAt (Some l) (Some (fst x)) v s = Some (Some l', s')"
    using s1(1) s'(1) ListDestroy_ok [OF list_at_New, of s'] by (simp add: ListInsertElementAt_def)
  ultimately show ?thesis using s'(2,3) by auto
qed

lemma ListCopy_ok:
  assumes l: "list_at s l xs" and s: "ok_store s"
  shows "\<exists>m s' zs. ListCopy (Some l) s = Some (m, s') \<and> list_at s' m zs \<and> map snd zs = map snd xs \<and>
    ok_store s' \<and> same_except {} s s' \<and> (\<forall>a \<in> set (addrs zs). st_next s \<le> a)"
proof -
  note count = ListSize_ok [OF l]
  consider "xs = []" | "xs \<noteq> []" "length xs < 5" | "5 \<le> length xs" by linarith
  then show ?thesis
  proof cases
    case 1
    with count show ?thesis
      by (intro exI [of _ ListNew] exI [of _ s] exI [of _ "[]"]) (simp add: ListCopy_def s)
  next
    case 2
    obtain t' s' zs where "ListCopyInto (Some l) (Some ListNew) s = Some (Some t', s')"
      "list_at s' t' ([] @ zs)" "map snd zs = map snd xs" "ok_store s'" "same_except (set (addrs [])) s s'"
      "\<forall>a \<in> set (addrs zs). st_next s \<le> a"
      using ListCopyInto_ok [OF l list_at_New s] by auto
    with 2 count show ?thesis
      by (intro exI [of _ t'] exI [of _ s'] exI [of _ zs]) (simp add: ListCopy_def)
  next
    case 3
    obtain zs s1 where c: "make_chunk (length xs) s = (map (\<lambda>z. Some (fst z)) zs, s1)" "length zs = length xs"
      "distinct (addrs zs)" "\<forall>z \<in> set zs. st_next s \<le> fst z \<and> snd z = None" "blanks s1 zs" "ok_store s1"
      "same_except {} s s1" using make_chunk_ok [OF s] by blast
    have l1: "list_at s1 l xs" by (rule list_at_frame [OF l s c(7)]) simp
    have old: "a < st_next s" if "a \<in> set (addrs xs)" for a
      using chain_dom [of "st_node s" None xs None a] that l s by (auto simp: list_at_def ok_store_def)
    have new: "st_next s \<le> a" if "a \<in> set (addrs zs)" for a using that c(4) by auto
    have disj: "set (addrs xs) \<inter> set (addrs zs) = {}" using old new by (meson disjoint_iff not_le)
    have clear: "clear_chunk (map (\<lambda>z. Some (fst z)) zs) s1 = Some s1"
      using clear_chunk_ok [OF c(5)] c(4) by blast
    have chain: "chain (st_node s1) None xs None" using l1 by (simp add: list_at_def)
    obtain s2 where f: "fill_chunk (map (\<lambda>z. Some (fst z)) zs) (first_of xs None) s1 = Some s2"
      "blanks s2 (zip (addrs zs) (map snd xs))" "ok_store s2" "same_except (set (addrs zs)) s1 s2"
      using fill_chunk_ok [OF chain c(5,2,3) disj c(6)] by blast
    let ?zs = "zip (addrs zs) (map snd xs)"
    have a: "addrs ?zs = addrs zs" and v: "map snd ?zs = map snd xs" using c(2) by simp_all
    then have ptrs: "map (\<lambda>z. Some (fst z)) ?zs = map (\<lambda>z. Some (fst z)) zs"
      by (metis (no_types, lifting) map_eq_conv map_map comp_def)
    obtain s3 where k: "link_chunk None (map (\<lambda>z. Some (fst z)) zs) s2 = Some s3" "chain (st_node s3) None ?zs None"
      "ok_store s3" "same_except (set (addrs zs)) s2 s3"
      using link_chunk_ok [OF f(2) _ f(3), of None] c(3) a ptrs by auto
    have ne: "zs \<noteq> []" "?zs \<noteq> []" using 3 c(2) by auto
    let ?m = "\<lparr> lr_begin = Some (fst (hd zs)), lr_end = Some (fst (last zs)) \<rparr>"
    have ends: "st_node s2 (fst (hd ?zs)) = Some \<lparr> ln_right = None, ln_value = snd (hd ?zs), ln_left = None \<rparr>"
      "st_node s2 (fst (last ?zs)) = Some \<lparr> ln_right = None, ln_value = snd (last ?zs), ln_left = None \<rparr>"
      using f(2) ne(2) by (simp_all add: blanks_def)
    have hds: "fst (hd ?zs) = fst (hd zs)" "fst (last ?zs) = fst (last zs)"
      using a ne by (metis hd_map, metis last_map)
    have first: "first_of ?zs None = Some (fst (hd ?zs))" using ne(2) by (cases ?zs) auto
    have "set_left (Some (fst (hd zs))) None s2 = Some s2" "set_right (Some (fst (last zs))) None s2 = Some s2"
      using ends hds by (simp_all add: node_ops store_idem)
    then have run: "ListCopy (Some l) s = Some (?m, s3)"
      using count c(1) clear f(1) k(1) 3 l ne by (simp add: ListCopy_def list_at_def hd_map last_map)
    have "list_at s3 ?m ?zs"
      using k(2) a c(3) ne hds first by (simp add: list_at_def last_of_def)
    moreover have "same_except {} s s2"
      by (rule same_except_trans [OF c(7) f(4)]) (use new in \<open>meson not_le\<close>)
    then have "same_except {} s s3"
      by (rule same_except_trans [OF _ k(4)]) (use new in \<open>meson not_le\<close>)
    moreover have "\<forall>b \<in> set (addrs ?zs). st_next s \<le> b" unfolding a using new by blast
    ultimately show ?thesis using run v k(3) by (intro exI conjI)
  qed
qed

section \<open>Sequences of operations\<close>

text \<open>
  A client's calls as data; an element is named by its position, and the client walks there with
  ListNext. \<open>dl_step\<close> runs a call, \<open>ls_step\<close> says what it promises on the sequence of values.
\<close>

datatype 'a list_op = LPushFront "'a option" | LPushBack "'a option" | LPopFront | LPopBack | LFirst | LLast
  | LSize | LValueAt int | LMap "'a option \<Rightarrow> 'a option" | LVisit "'a option \<Rightarrow> 'a option" | LClear
  | LDetach nat | LInsert nat "'a option"

datatype 'a list_out = Value "'a option" | Count int | Values "'a option list" | Done

fun nth_node :: "'a store \<Rightarrow> addr option \<Rightarrow> nat \<Rightarrow> addr option option" where
  "nth_node s p 0 = Some p"
| "nth_node s p (Suc k) = do { p \<leftarrow> ListNext s p; nth_node s p k }"

fun dl_step :: "'a list_op \<Rightarrow> ListRoot \<Rightarrow> 'a store \<Rightarrow> ('a list_out \<times> ListRoot option \<times> 'a store) option" where
  "dl_step (LPushFront v) l s = do { (_, l, s) \<leftarrow> ListPushFront (Some l) v s; Some (Done, l, s) }"
| "dl_step (LPushBack v) l s = do { (_, l, s) \<leftarrow> ListPushBack (Some l) v s; Some (Done, l, s) }"
| "dl_step LPopFront l s = do { (v, l, s) \<leftarrow> ListPopFront (Some l) s; Some (Value v, l, s) }"
| "dl_step LPopBack l s = do { (v, l, s) \<leftarrow> ListPopBack (Some l) s; Some (Value v, l, s) }"
| "dl_step LFirst l s = do { v \<leftarrow> ListFirst (Some l) s; Some (Value v, Some l, s) }"
| "dl_step LLast l s = do { v \<leftarrow> ListLast (Some l) s; Some (Value v, Some l, s) }"
| "dl_step LSize l s = do { n \<leftarrow> ListSize (Some l) s; Some (Count n, Some l, s) }"
| "dl_step (LValueAt p) l s = do { v \<leftarrow> ListGetValueAt (Some l) p s; Some (Value v, Some l, s) }"
| "dl_step (LMap f) l s = do { (s, vs) \<leftarrow> ListMap (Some l) f s; Some (Values vs, Some l, s) }"
| "dl_step (LVisit f) l s = do { (s, vs) \<leftarrow> ListIterate (Some l) f s; Some (Values vs, Some l, s) }"
| "dl_step LClear l s = do { (l, s) \<leftarrow> ListClear (Some l) s; Some (Done, l, s) }"
| "dl_step (LDetach k) l s = do {
     p \<leftarrow> nth_node s (lr_begin l) k; (l, s) \<leftarrow> ListDetachElement (Some l) p s; Some (Done, l, s) }"
| "dl_step (LInsert k v) l s = do {
     p \<leftarrow> nth_node s (lr_begin l) k; (l, s) \<leftarrow> ListInsertElementAt (Some l) p v s; Some (Done, l, s) }"

fun ls_step :: "'a list_op \<Rightarrow> 'a option list \<Rightarrow> 'a list_out \<times> 'a option list" where
  "ls_step (LPushFront v) vs = (Done, v # vs)"
| "ls_step (LPushBack v) vs = (Done, vs @ [v])"
| "ls_step LPopFront vs = (if vs = [] then (Value None, []) else (Value (hd vs), tl vs))"
| "ls_step LPopBack vs = (if vs = [] then (Value None, []) else (Value (last vs), butlast vs))"
| "ls_step LFirst vs = (Value (if vs = [] then None else hd vs), vs)"
| "ls_step LLast vs = (Value (if vs = [] then None else last vs), vs)"
| "ls_step LSize vs = (Count (int (length vs)), vs)"
| "ls_step (LValueAt p) vs = (Value (if 0 \<le> p \<and> p < int (length vs) then vs ! nat p else None), vs)"
| "ls_step (LMap f) vs = (Values vs, map f vs)"
| "ls_step (LVisit f) vs = (Values vs, vs)"
| "ls_step LClear vs = (Done, [])"
| "ls_step (LDetach k) vs = (Done, take k vs @ drop (Suc k) vs)"
| "ls_step (LInsert k v) vs = (Done, if k < length vs then take k vs @ v # drop k vs else vs)"

fun dl_run :: "'a list_op list \<Rightarrow> ListRoot \<Rightarrow> 'a store \<Rightarrow> ('a list_out list \<times> ListRoot \<times> 'a store) option" where
  "dl_run [] l s = Some ([], l, s)"
| "dl_run (c # cs) l s = do {
     (out, l, s) \<leftarrow> dl_step c l s; l \<leftarrow> l; (outs, l, s) \<leftarrow> dl_run cs l s; Some (out # outs, l, s) }"

fun ls_run :: "'a list_op list \<Rightarrow> 'a option list \<Rightarrow> 'a list_out list \<times> 'a option list" where
  "ls_run [] vs = ([], vs)"
| "ls_run (c # cs) vs = (let (out, vs) = ls_step c vs; (outs, vs) = ls_run cs vs in (out # outs, vs))"

lemma nth_node_ok:
  "chain (st_node s) l xs None \<Longrightarrow>
   nth_node s (first_of xs None) k = Some (if k < length xs then Some (fst (xs ! k)) else None)"
proof (induction k arbitrary: xs l)
  case 0
  then show ?case by (cases xs) simp_all
next
  case (Suc k)
  show ?case
  proof (cases xs)
    case Nil
    have "nth_node s None k = Some None" using Suc.IH [of l "[]"] by simp
    with Nil show ?thesis by (simp add: ListNext_def)
  next
    case (Cons x ys)
    with Suc.IH [of "Some (fst x)" ys] Suc.prems show ?thesis by (simp add: ListNext_def deref_def)
  qed
qed

text \<open>One call: the outcome, the new entries, and nothing else changed.\<close>

definition step_ok ::
  "'a list_op \<Rightarrow> ListRoot \<Rightarrow> 'a store \<Rightarrow> 'a entry list \<Rightarrow> ListRoot \<Rightarrow> 'a store \<Rightarrow> 'a entry list \<Rightarrow> bool" where
  "step_ok c l s xs l' s' xs' \<longleftrightarrow> dl_step c l s = Some (fst (ls_step c (map snd xs)), Some l', s') \<and>
     map snd xs' = snd (ls_step c (map snd xs)) \<and> list_at s' l' xs' \<and> ok_store s' \<and>
     same_except (set (addrs xs)) s s' \<and> (\<forall>a \<in> set (addrs xs'). a \<in> set (addrs xs) \<or> st_next s \<le> a)"

lemma at_position: "k < length xs \<Longrightarrow> xs = take k xs @ (xs ! k) # drop (Suc k) xs"
  by (simp add: id_take_nth_drop)

lemma dl_step_detach:
  assumes l: "list_at s l xs" and s: "ok_store s"
  shows "\<exists>l' s' xs'. step_ok (LDetach k) l s xs l' s' xs'"
proof -
  have p: "nth_node s (lr_begin l) k = Some (if k < length xs then Some (fst (xs ! k)) else None)"
    using nth_node_ok [of s None xs k] l by (simp add: list_at_def)
  show ?thesis
  proof (cases "k < length xs")
    case True
    let ?ys = "take k xs" and ?zs = "drop (Suc k) xs"
    have "list_at s l (?ys @ (xs ! k) # ?zs)" using l at_position [OF True] by simp
    from ListDetachElement_ok [OF this s] obtain l' s' where
      s': "ListDetachElement (Some l) (Some (fst (xs ! k))) s = Some (Some l', s')" "list_at s' l' (?ys @ ?zs)"
      "ok_store s'" "same_except (set (addrs (?ys @ (xs ! k) # ?zs))) s s'" by blast
    have "same_except (set (addrs xs)) s s'" using s'(4) at_position [OF True] by simp
    moreover have "set (addrs (?ys @ ?zs)) \<subseteq> set (addrs xs)"
      by (auto dest: in_set_takeD in_set_dropD)
    ultimately have "step_ok (LDetach k) l s xs l' s' (?ys @ ?zs)"
      using s' p True by (auto simp: step_ok_def take_map drop_map)
    then show ?thesis by blast
  next
    case False
    then have "step_ok (LDetach k) l s xs l s xs"
      using l s p by (simp add: step_ok_def ListDetachElement_def)
    then show ?thesis by blast
  qed
qed

lemma dl_step_insert:
  assumes l: "list_at s l xs" and s: "ok_store s"
  shows "\<exists>l' s' xs'. step_ok (LInsert k v) l s xs l' s' xs'"
proof -
  have p: "nth_node s (lr_begin l) k = Some (if k < length xs then Some (fst (xs ! k)) else None)"
    using nth_node_ok [of s None xs k] l by (simp add: list_at_def)
  show ?thesis
  proof (cases "k < length xs")
    case True
    let ?ys = "take k xs" and ?zs = "drop (Suc k) xs"
    let ?xs = "?ys @ (st_next s, v) # (xs ! k) # ?zs"
    have e: "xs = ?ys @ (xs ! k) # ?zs" by (rule at_position [OF True])
    have "list_at s l (?ys @ (xs ! k) # ?zs)" using l e by simp
    from ListInsertElementAt_ok [OF this s, of v] obtain l' s' where
      s': "ListInsertElementAt (Some l) (Some (fst (xs ! k))) v s = Some (Some l', s')" "list_at s' l' ?xs"
      "ok_store s'" "same_except (set (addrs (?ys @ (xs ! k) # ?zs))) s s'" by blast
    have "same_except (set (addrs xs)) s s'" using s'(4) e by simp
    moreover have "set (addrs ?xs) \<subseteq> insert (st_next s) (set (addrs xs))"
      using True by (auto dest: in_set_takeD in_set_dropD)
    moreover have "map snd ?xs = take k (map snd xs) @ v # drop k (map snd xs)"
      using True by (simp add: take_map drop_map Cons_nth_drop_Suc [symmetric])
    ultimately have "step_ok (LInsert k v) l s xs l' s' ?xs"
      using s' p True by (auto simp: step_ok_def simp del: map_append)
    then show ?thesis by blast
  next
    case False
    obtain w s1 where s1: "ListPushBack (Some ListNew) v s = Some (Some (st_next s), Some w, s1)"
      "list_at s1 w [(st_next s, v)]" "ok_store s1" "same_except {} s s1"
      using ListPushBack_ok [OF list_at_New s, of v] by auto
    let ?s = "remove_nodes [st_next s] s1"
    have keep: "same_except {} s ?s"
      using s1(4) by (auto simp: same_except_def remove_nodes_def)
    have "list_at ?s l xs" by (rule list_at_frame [OF l s keep]) simp
    moreover have "ok_store ?s" using remove_nodes_ok [OF s1(3)] by blast
    moreover have "same_except (set (addrs xs)) s ?s" using keep by (simp add: same_except_def)
    ultimately have "step_ok (LInsert k v) l s xs l ?s xs"
      using p False s1 ListDestroy_ok [OF s1(2)]
      by (simp add: step_ok_def ListInsertElementAt_def ListInsertListAt_def)
    then show ?thesis by blast
  qed
qed

lemma dl_step_pops:
  assumes l: "list_at s l xs" and s: "ok_store s"
  shows "\<exists>l' s' xs'. step_ok LPopFront l s xs l' s' xs'" "\<exists>l' s' xs'. step_ok LPopBack l s xs l' s' xs'"
proof -
  show "\<exists>l' s' xs'. step_ok LPopFront l s xs l' s' xs'"
  proof (cases xs)
    case Nil
    with l s ListPop_empty [of s l] show ?thesis
      by (intro exI [of _ l] exI [of _ s] exI [of _ "[]"]) (simp add: step_ok_def)
  next
    case (Cons x ys)
    with ListPopFront_ok [of s l x ys] l s obtain l' s' where
      "ListPopFront (Some l) s = Some (snd x, Some l', s')" "list_at s' l' ys" "ok_store s'"
      "same_except (set (addrs (x # ys))) s s'" by blast
    with Cons show ?thesis by (intro exI [of _ l'] exI [of _ s'] exI [of _ ys]) (simp add: step_ok_def)
  qed
  show "\<exists>l' s' xs'. step_ok LPopBack l s xs l' s' xs'"
  proof (cases xs rule: rev_cases)
    case Nil
    with l s ListPop_empty [of s l] show ?thesis
      by (intro exI [of _ l] exI [of _ s] exI [of _ "[]"]) (simp add: step_ok_def)
  next
    case (snoc ys x)
    with ListPopBack_ok [of s l ys x] l s obtain l' s' where
      "ListPopBack (Some l) s = Some (snd x, Some l', s')" "list_at s' l' ys" "ok_store s'"
      "same_except (set (addrs (ys @ [x]))) s s'" by blast
    with snoc show ?thesis by (intro exI [of _ l'] exI [of _ s'] exI [of _ ys]) (simp add: step_ok_def)
  qed
qed

lemma dl_step_reads:
  assumes l: "list_at s l xs" and s: "ok_store s"
  shows "step_ok LFirst l s xs l s xs" "step_ok LLast l s xs l s xs" "step_ok LSize l s xs l s xs"
    "step_ok (LValueAt p) l s xs l s xs"
  using l s ListFirst_ok [OF l] ListLast_ok [OF l] ListSize_ok [OF l] ListGetValueAt_ok [OF l, of p]
  by (simp_all add: step_ok_def hd_map last_map nat_less_iff)

lemma dl_step_ok:
  assumes l: "list_at s l xs" and s: "ok_store s"
  shows "\<exists>l' s' xs'. step_ok c l s xs l' s' xs'"
proof (cases c)
  case (LPushFront v)
  with ListPushFront_ok [OF l s, of v] obtain l' s' where
    "ListPushFront (Some l) v s = Some (Some (st_next s), Some l', s')" "list_at s' l' ((st_next s, v) # xs)"
    "ok_store s'" "same_except (set (addrs xs)) s s'" by blast
  with LPushFront show ?thesis
    by (intro exI [of _ l'] exI [of _ s'] exI [of _ "(st_next s, v) # xs"]) (auto simp: step_ok_def)
next
  case (LPushBack v)
  with ListPushBack_ok [OF l s, of v] obtain l' s' where
    "ListPushBack (Some l) v s = Some (Some (st_next s), Some l', s')" "list_at s' l' (xs @ [(st_next s, v)])"
    "ok_store s'" "same_except (set (addrs xs)) s s'" by blast
  with LPushBack show ?thesis
    by (intro exI [of _ l'] exI [of _ s'] exI [of _ "xs @ [(st_next s, v)]"]) (auto simp: step_ok_def)
next
  case (LMap f)
  with ListMap_ok [OF l s, of f] obtain s' where "ListMap (Some l) f s = Some (s', map snd xs)"
    "list_at s' l (map_entries f xs)" "ok_store s'" "same_except (set (addrs xs)) s s'" by blast
  with LMap show ?thesis
    by (intro exI [of _ l] exI [of _ s'] exI [of _ "map_entries f xs"]) (simp add: step_ok_def del: set_map)
next
  case (LVisit f)
  with ListIterate_ok [OF l s, of f] obtain s' where "ListIterate (Some l) f s = Some (s', map snd xs)"
    "list_at s' l xs" "ok_store s'" "same_except (set (addrs xs)) s s'" by blast
  with LVisit show ?thesis
    by (intro exI [of _ l] exI [of _ s'] exI [of _ xs]) (simp add: step_ok_def del: set_map)
next
  case LClear
  with ListClear_ok [OF l] remove_nodes_ok [OF s, of "addrs xs"] show ?thesis
    by (intro exI [of _ ListNew] exI [of _ "remove_nodes (addrs xs) s"] exI [of _ "[]"]) (simp add: step_ok_def)
next
  case (LDetach k)
  with dl_step_detach [OF l s] show ?thesis by blast
next
  case (LInsert k v)
  with dl_step_insert [OF l s] show ?thesis by blast
qed (use dl_step_pops [OF l s] dl_step_reads [OF l s] in blast)+

lemma dl_run_ok:
  "list_at s l xs \<Longrightarrow> ok_store s \<Longrightarrow> list_at s m ys \<Longrightarrow> set (addrs xs) \<inter> set (addrs ys) = {} \<Longrightarrow>
   \<exists>l' s' xs'. dl_run cs l s = Some (fst (ls_run cs (map snd xs)), l', s') \<and>
     map snd xs' = snd (ls_run cs (map snd xs)) \<and> list_at s' l' xs' \<and> ok_store s' \<and> list_at s' m ys"
proof (induction cs arbitrary: l s xs)
  case Nil
  then show ?case by auto
next
  case (Cons c cs)
  obtain l1 s1 xs1 where s1: "dl_step c l s = Some (fst (ls_step c (map snd xs)), Some l1, s1)"
    "map snd xs1 = snd (ls_step c (map snd xs))" "list_at s1 l1 xs1" "ok_store s1"
    "same_except (set (addrs xs)) s s1" "\<forall>a \<in> set (addrs xs1). a \<in> set (addrs xs) \<or> st_next s \<le> a"
    using dl_step_ok [OF Cons.prems(1,2), of c] by (auto simp: step_ok_def simp del: set_map)
  have m: "list_at s1 m ys" by (rule list_at_frame [OF Cons.prems(3,2) s1(5)]) (use Cons.prems(4) in blast)
  have "a < st_next s" if "a \<in> set (addrs ys)" for a
    using chain_dom [of "st_node s" None ys None a] that Cons.prems(2,3) by (auto simp: list_at_def ok_store_def)
  with s1(6) Cons.prems(4) have "set (addrs xs1) \<inter> set (addrs ys) = {}"
    by (meson disjoint_iff not_le)
  from Cons.IH [OF s1(3,4) m this] s1(1,2) show ?case
    by (cases "ls_step c (map snd xs)") (auto split: prod.splits)
qed

section \<open>Properties\<close>

text \<open>
  C27: Whatever sequence of calls a client makes on a new list, in a store where other lists
  live: no call dereferences NULL or a freed node, frees a node twice or runs forever, the values
  handed out and the final contents are those of the sequence the list stands for, the links of the
  final list fit in both directions, and the other list is unchanged.
\<close>

theorem DynList_refines_sequence:
  assumes "ok_store s" "list_at s m ys"
  shows "\<exists>l s' xs. dl_run cs ListNew s = Some (fst (ls_run cs []), l, s') \<and>
    list_at s' l xs \<and> map snd xs = snd (ls_run cs []) \<and> list_at s' m ys \<and>
    list_values_loop s' (lr_begin l) = Some (snd (ls_run cs []))"
proof -
  obtain l s' xs where r: "dl_run cs ListNew s = Some (fst (ls_run cs []), l, s')"
    "map snd xs = snd (ls_run cs [])" "list_at s' l xs" "list_at s' m ys"
    using dl_run_ok [OF list_at_New assms, of cs] by auto
  moreover from r(3) have "list_values_loop s' (lr_begin l) = Some (map snd xs)"
    using list_values_loop_ok [of s' None xs] by (simp add: list_at_def)
  ultimately show ?thesis by auto
qed

theorem DynList_refines_sequence_witness:
  "\<exists>l s' xs. dl_run [LPushBack (Some 2), LPushFront (Some 1), LPushBack (Some 3), LDetach 1, LInsert 1 None, LSize, LLast]
     ListNew (empty_store :: nat store) = Some ([Done, Done, Done, Done, Done, Count 3, Value (Some 3)], l, s') \<and>
   list_at s' l xs \<and> map snd xs = [Some 1, None, Some 3]"
proof -
  have "ok_store (empty_store :: nat store)" by (simp add: ok_store_def empty_store_def)
  from DynList_refines_sequence [OF this list_at_New,
      of "[LPushBack (Some 2), LPushFront (Some 1), LPushBack (Some 3), LDetach 1, LInsert 1 None, LSize, LLast]"]
  show ?thesis
    by (elim exE conjE, intro exI conjI, assumption?) (simp_all del: dl_run.simps)
qed

text \<open>
  ListCopy makes a list of new nodes with the values of the source, through the element-wise
  copy below five elements and through the chunk from five on, and leaves the source as it is.
\<close>

theorem ListCopy_independent:
  assumes "ok_store s" "list_at s l xs"
  shows "\<exists>m s' zs. ListCopy (Some l) s = Some (m, s') \<and> list_at s' m zs \<and> map snd zs = map snd xs \<and>
    list_at s' l xs \<and> set (map fst zs) \<inter> set (map fst xs) = {}"
proof -
  obtain m s' zs where c: "ListCopy (Some l) s = Some (m, s')" "list_at s' m zs" "map snd zs = map snd xs"
    "same_except {} s s'" "\<forall>a \<in> set (addrs zs). st_next s \<le> a"
    using ListCopy_ok [OF assms(2,1)] by blast
  have "list_at s' l xs" by (rule list_at_frame [OF assms(2,1) c(4)]) simp
  moreover have "a < st_next s" if "a \<in> set (addrs xs)" for a
    using chain_dom [of "st_node s" None xs None a] that assms by (auto simp: list_at_def ok_store_def)
  with c(5) have "set (addrs zs) \<inter> set (addrs xs) = {}" by (meson disjoint_iff not_le)
  ultimately show ?thesis using c(1-3) by blast
qed

theorem ListCopy_independent_witness:
  "\<exists>m s' zs. ListCopy (Some \<lparr> lr_begin = Some 4, lr_end = Some 4 \<rparr>)
      \<lparr> st_node = (\<lambda>_. None)(4 \<mapsto> \<lparr> ln_right = None, ln_value = Some True, ln_left = None \<rparr>), st_next = 5 \<rparr> =
    Some (m, s') \<and> list_at s' m zs \<and> map snd zs = [Some True]"
proof -
  let ?s = "\<lparr> st_node = (\<lambda>_. None)(4 \<mapsto> \<lparr> ln_right = None, ln_value = Some True, ln_left = None \<rparr>), st_next = 5 \<rparr>"
  have "ok_store ?s" by (auto simp: ok_store_def)
  moreover have "list_at ?s \<lparr> lr_begin = Some 4, lr_end = Some 4 \<rparr> [(4, Some True)]" by (simp add: list_at_def)
  ultimately show ?thesis using ListCopy_independent [of ?s _ "[(4, Some True)]"] by fastforce
qed

text \<open>
  C28: ListSplit cuts a list behind an element into two lists linked both ways, and ListInsertListAt
  splices a list in front of an element; splitting and splicing move the nodes and copy nothing.
\<close>

theorem List_split_and_splice:
  assumes "ok_store s" "list_at s l (xs @ x # y # ys)"
  shows "\<exists>m l1 s1. ListSplit (Some l) (Some (fst x)) s = Some (m, Some l1, s1) \<and>
    list_at s1 l1 (xs @ [x]) \<and> list_at s1 m (y # ys) \<and>
    (\<exists>m2 s2. ListInsertListAt (Some m) (Some (fst y)) (Some l1) s1 = Some (Some m2, Some ListNew, s2) \<and>
       list_at s2 m2 (xs @ x # y # ys))"
proof -
  obtain m l1 s1 where s1: "ListSplit (Some l) (Some (fst x)) s = Some (m, Some l1, s1)"
    "list_at s1 l1 (xs @ [x])" "list_at s1 m (y # ys)" "ok_store s1"
    using ListSplit_ok [OF assms(2,1)] by blast
  have "set (addrs ([] @ y # ys)) \<inter> set (addrs (xs @ [x])) = {}"
    using assms(2) by (auto simp: list_at_def)
  from ListInsertListAt_ok [OF _ s1(2,4) this, of m] s1(3) obtain m2 s2 where
    "ListInsertListAt (Some m) (Some (fst y)) (Some l1) s1 = Some (Some m2, Some ListNew, s2)"
    "list_at s2 m2 (xs @ x # y # ys)" by auto
  with s1 show ?thesis by blast
qed

theorem List_split_and_splice_witness:
  "\<exists>m l1 s1. ListSplit (Some \<lparr> lr_begin = Some 0, lr_end = Some 1 \<rparr>) (Some 0)
      \<lparr> st_node = (\<lambda>_. None)(0 \<mapsto> \<lparr> ln_right = Some 1, ln_value = Some True, ln_left = None \<rparr>,
                                1 \<mapsto> \<lparr> ln_right = None, ln_value = Some False, ln_left = Some 0 \<rparr>), st_next = 2 \<rparr> =
    Some (m, Some l1, s1) \<and> list_at s1 l1 [(0, Some True)] \<and> list_at s1 m [(1, Some False)]"
proof -
  let ?s = "\<lparr> st_node = (\<lambda>_. None)(0 \<mapsto> \<lparr> ln_right = Some 1, ln_value = Some True, ln_left = None \<rparr>,
                                1 \<mapsto> \<lparr> ln_right = None, ln_value = Some False, ln_left = Some 0 \<rparr>), st_next = 2 \<rparr>"
  have "ok_store ?s" by (auto simp: ok_store_def)
  moreover have "list_at ?s \<lparr> lr_begin = Some 0, lr_end = Some 1 \<rparr> ([] @ (0, Some True) # (1, Some False) # [])"
    by (simp add: list_at_def)
  ultimately show ?thesis
    using List_split_and_splice [of ?s _ "[]" "(0, Some True)" "(1, Some False)" "[]"] by fastforce
qed

end
