(* ===== verification/HashMap.thy ===== *)
theory HashMap
  imports ArrayList DynList
begin

text \<open>
  The hash map of hashmap.h: an array list of buckets, each bucket a \<open>HashMapNode\<close> with a doubly
  linked list of \<open>HashMapElement\<close>s.

  The record \<open>HashMap\<close> holds the struct (\<open>hm_nodes\<close>, \<open>hm_cmp\<close>) and the memory the map
  allocates: the list nodes, the elements and the bucket nodes by their addresses. Keys and values
  are pointers of the types \<open>'k\<close> and \<open>'v\<close>; what a key points to enters through the
  comparator and through \<open>bytes\<close>, the bytes behind a key that the hash function reads. The
  operations that free keys and values return the pointers they free, in their order.

  The address of the field \<open>values\<close> of a null bucket is null, since it is the first field.
\<close>

section \<open>The data\<close>

record ('k, 'v) HashMapElement =
  he_key :: "'k option"
  he_value :: "'v option"

record ('k, 'v) HashMap =
  hm_nodes :: "addr ArrayList"
  hm_cmp :: "'k \<Rightarrow> 'k \<Rightarrow> int"
  hm_store :: "addr store"
  hm_elem :: "addr \<Rightarrow> ('k, 'v) HashMapElement option"
  hm_elem_next :: addr
  hm_node :: "addr \<Rightarrow> ListRoot option"
  hm_node_next :: addr

record HashMapIterator =
  hi_target :: bool
  hi_bucket :: int
  hi_index :: int

datatype ('k, 'v) freed = FreedKey 'k | FreedValue 'v

section \<open>Comparators\<close>

text \<open>Pointers are compared as addresses, or through what they point to.\<close>

definition HashMapVoidPtrCmp :: "'k \<Rightarrow> 'k \<Rightarrow> int" where
  "HashMapVoidPtrCmp a b = of_bool (a = b)"

definition HashMapIntCmp :: "('k \<Rightarrow> int) \<Rightarrow> 'k \<Rightarrow> 'k \<Rightarrow> int" where
  "HashMapIntCmp target a b = of_bool (target a = target b)"

definition HashMapStrCmp :: "('k \<Rightarrow> string) \<Rightarrow> 'k \<Rightarrow> 'k \<Rightarrow> int" where
  "HashMapStrCmp target a b = of_bool (target a = target b)"

section \<open>Allocation\<close>

definition HashMapCreateNode :: "('k, 'v) HashMap \<Rightarrow> addr \<times> ('k, 'v) HashMap" where
  "HashMapCreateNode hm = (hm_node_next hm,
     hm\<lparr> hm_node := (hm_node hm)(hm_node_next hm \<mapsto> ListNew), hm_node_next := Suc (hm_node_next hm) \<rparr>)"

definition HashMapCreateElement ::
  "'k option \<Rightarrow> 'v option \<Rightarrow> ('k, 'v) HashMap \<Rightarrow> addr \<times> ('k, 'v) HashMap" where
  "HashMapCreateElement key value hm = (hm_elem_next hm,
     hm\<lparr> hm_elem := (hm_elem hm)(hm_elem_next hm \<mapsto> \<lparr> he_key = key, he_value = value \<rparr>),
         hm_elem_next := Suc (hm_elem_next hm) \<rparr>)"

definition HashMapNew :: "('k \<Rightarrow> 'k \<Rightarrow> int) \<Rightarrow> ('k, 'v) HashMap option" where
  "HashMapNew keyComparator = do {
     nodes \<leftarrow> ArrayListResizeFill ArrayListNew 100;
     Some \<lparr> hm_nodes = nodes, hm_cmp = keyComparator, hm_store = empty_store, hm_elem = (\<lambda>_. None),
            hm_elem_next = 0, hm_node = (\<lambda>_. None), hm_node_next = 0 \<rparr> }"

section \<open>The hash function\<close>

definition HASH_MAP_FACT_P :: int where
  "HASH_MAP_FACT_P = 350"

definition HASH_MAP_FACT_Q :: int where
  "HASH_MAP_FACT_Q = 1000000009"

lemmas hash_map_config [config] = HASH_MAP_FACT_P_def HASH_MAP_FACT_Q_def

text \<open>The bytes are signed; \<open>%\<close> truncates; overflow is undefined.\<close>

fun hash_loop :: "int list \<Rightarrow> int \<Rightarrow> int option" where
  "hash_loop [] hash = Some hash"
| "hash_loop (b # bs) hash = do {
     p \<leftarrow> cint (b * HASH_MAP_FACT_P);
     hash \<leftarrow> cint (hash + p);
     hash_loop bs (hash smod HASH_MAP_FACT_Q) }"

definition HashMapCalcHash :: "int \<Rightarrow> int list \<Rightarrow> int option" where
  "HashMapCalcHash key_size bytes = do {
     hash \<leftarrow> (if key_size > 0
        then (if key_size \<le> int (length bytes) then hash_loop (take (nat key_size) bytes) 0 else None)
        else do { p \<leftarrow> cint (key_size * HASH_MAP_FACT_P); Some (p smod HASH_MAP_FACT_Q) });
     hash \<leftarrow> (if hash < 0 then cint (hash * -1) else Some hash);
     let hash = 1000;
     Some hash }"

section \<open>Looking up\<close>

text \<open>\<open>ArrayListGetValueAt(&hm->nodes, p)\<close>, which may extend the array.\<close>

definition bucket_at :: "('k, 'v) HashMap \<Rightarrow> int \<Rightarrow> (addr option \<times> ('k, 'v) HashMap) option" where
  "bucket_at hm p = do {
     (node, nodes) \<leftarrow> ArrayListGetValueAt (Some (hm_nodes hm)) p;
     nodes \<leftarrow> nodes;
     Some (node, hm\<lparr> hm_nodes := nodes \<rparr>) }"

text \<open>
  The loop that HashMapGet, HashMapRemove and HashMapRemoveDeep share: it stops at the first element
  with a key that the comparator accepts and gives its list node and its address.
\<close>

definition element_matches :: "('k, 'v) HashMap \<Rightarrow> addr option \<Rightarrow> 'k \<Rightarrow> bool option" where
  "element_matches hm e key = (case e of
     None \<Rightarrow> Some False
   | Some a \<Rightarrow> do {
       element \<leftarrow> hm_elem hm a;
       Some (case he_key element of None \<Rightarrow> False | Some k \<Rightarrow> hm_cmp hm k key \<noteq> 0) })"

partial_function (option) find_loop ::
  "('k, 'v) HashMap \<Rightarrow> addr option \<Rightarrow> 'k \<Rightarrow> (addr option \<times> addr) option option" where
  "find_loop hm i key =
     (if i = None then Some None
      else do {
        e \<leftarrow> ListGetValue (hm_store hm) i;
        m \<leftarrow> element_matches hm e key;
        if m then Some (Some (i, the e))
        else do { i \<leftarrow> ListNext (hm_store hm) i; find_loop hm i key } })"

declare find_loop.simps [code]

definition HashMapGet ::
  "('k \<Rightarrow> int list) \<Rightarrow> ('k, 'v) HashMap \<Rightarrow> int \<Rightarrow> 'k option \<Rightarrow> ('v option \<times> ('k, 'v) HashMap) option" where
  "HashMapGet bytes hm key_size keyp = (case keyp of
     None \<Rightarrow> Some (None, hm)
   | Some key \<Rightarrow> do {
       hash \<leftarrow> HashMapCalcHash key_size (bytes key);
       (currentNode, hm) \<leftarrow> bucket_at hm hash;
       case currentNode of None \<Rightarrow> Some (None, hm)
       | Some c \<Rightarrow> do {
           values \<leftarrow> hm_node hm c;
           found \<leftarrow> find_loop hm (ListBegin (Some values)) key;
           case found of None \<Rightarrow> Some (None, hm)
           | Some (i, e) \<Rightarrow> do { element \<leftarrow> hm_elem hm e; Some (he_value element, hm) } } })"

definition HashMapHas ::
  "('k \<Rightarrow> int list) \<Rightarrow> ('k, 'v) HashMap \<Rightarrow> int \<Rightarrow> 'k option \<Rightarrow> (bool \<times> ('k, 'v) HashMap) option" where
  "HashMapHas bytes hm key_size key = do {
     (v, hm) \<leftarrow> HashMapGet bytes hm key_size key;
     Some (v \<noteq> None, hm) }"

section \<open>Removing\<close>

text \<open>\<open>ListDetachElement(&(c->values), i); FREE(element);\<close>\<close>

definition detach_element ::
  "addr \<Rightarrow> ListRoot \<Rightarrow> addr option \<Rightarrow> addr \<Rightarrow> ('k, 'v) HashMap \<Rightarrow> ('k, 'v) HashMap option" where
  "detach_element c values i e hm = do {
     (l, s) \<leftarrow> ListDetachElement (Some values) i (hm_store hm);
     l \<leftarrow> l;
     Some (hm\<lparr> hm_store := s, hm_node := (hm_node hm)(c \<mapsto> l), hm_elem := (hm_elem hm)(e := None) \<rparr>) }"

definition HashMapRemove ::
  "('k \<Rightarrow> int list) \<Rightarrow> ('k, 'v) HashMap \<Rightarrow> int \<Rightarrow> 'k option \<Rightarrow> ('v option \<times> ('k, 'v) HashMap) option" where
  "HashMapRemove bytes hm key_size keyp = (case keyp of
     None \<Rightarrow> Some (None, hm)
   | Some key \<Rightarrow> do {
       hash \<leftarrow> HashMapCalcHash key_size (bytes key);
       (currentNode, hm) \<leftarrow> bucket_at hm hash;
       case currentNode of None \<Rightarrow> Some (None, hm)
       | Some c \<Rightarrow> do {
           values \<leftarrow> hm_node hm c;
           found \<leftarrow> find_loop hm (ListBegin (Some values)) key;
           case found of None \<Rightarrow> Some (None, hm)
           | Some (i, e) \<Rightarrow> do {
               element \<leftarrow> hm_elem hm e;
               hm \<leftarrow> detach_element c values i e hm;
               Some (he_value element, hm) } } })"

definition frees :: "('k, 'v) HashMapElement \<Rightarrow> ('k, 'v) freed list" where
  "frees element = (case he_value element of None \<Rightarrow> [] | Some v \<Rightarrow> [FreedValue v]) @
     (case he_key element of None \<Rightarrow> [] | Some k \<Rightarrow> [FreedKey k])"

definition HashMapRemoveDeep ::
  "('k \<Rightarrow> int list) \<Rightarrow> ('k, 'v) HashMap \<Rightarrow> int \<Rightarrow> 'k option
    \<Rightarrow> (('k, 'v) freed list \<times> ('k, 'v) HashMap) option" where
  "HashMapRemoveDeep bytes hm key_size keyp = (case keyp of
     None \<Rightarrow> Some ([], hm)
   | Some key \<Rightarrow> do {
       hash \<leftarrow> HashMapCalcHash key_size (bytes key);
       (currentNode, hm) \<leftarrow> bucket_at hm hash;
       case currentNode of None \<Rightarrow> Some ([], hm)
       | Some c \<Rightarrow> do {
           values \<leftarrow> hm_node hm c;
           found \<leftarrow> find_loop hm (ListBegin (Some values)) key;
           case found of None \<Rightarrow> Some ([], hm)
           | Some (i, e) \<Rightarrow> do {
               element \<leftarrow> hm_elem hm e;
               hm \<leftarrow> detach_element c values i e hm;
               Some (frees element, hm) } } })"

section \<open>Setting\<close>

text \<open>The common tail of HashMapSet and HashMapSetDeep, after the removal.\<close>

definition insert_element ::
  "('k \<Rightarrow> int list) \<Rightarrow> int \<Rightarrow> 'k \<Rightarrow> 'v option \<Rightarrow> ('k, 'v) HashMap \<Rightarrow> ('k, 'v) HashMap option" where
  "insert_element bytes key_size key value hm = do {
     hash \<leftarrow> HashMapCalcHash key_size (bytes key);
     (currentNode, hm) \<leftarrow> bucket_at hm hash;
     let (c, hm) = (case currentNode of None \<Rightarrow> HashMapCreateNode hm | Some c \<Rightarrow> (c, hm));
     let (element, hm) = HashMapCreateElement (Some key) value hm;
     values \<leftarrow> hm_node hm c;
     (_, values, s) \<leftarrow> ListPushBack (Some values) (Some element) (hm_store hm);
     values \<leftarrow> values;
     let hm = hm\<lparr> hm_store := s, hm_node := (hm_node hm)(c \<mapsto> values) \<rparr>;
     (_, nodes) \<leftarrow> ArrayListSetValueAt (Some (hm_nodes hm)) hash (Some c);
     nodes \<leftarrow> nodes;
     Some (hm\<lparr> hm_nodes := nodes \<rparr>) }"

definition HashMapSet ::
  "('k \<Rightarrow> int list) \<Rightarrow> ('k, 'v) HashMap \<Rightarrow> int \<Rightarrow> 'k option \<Rightarrow> 'v option
    \<Rightarrow> ('v option \<times> ('k, 'v) HashMap) option" where
  "HashMapSet bytes hm key_size keyp value = (case keyp of
     None \<Rightarrow> Some (None, hm)
   | Some key \<Rightarrow> do {
       (oldData, hm) \<leftarrow> HashMapRemove bytes hm key_size (Some key);
       hm \<leftarrow> insert_element bytes key_size key value hm;
       Some (oldData, hm) })"

definition HashMapSetDeep ::
  "('k \<Rightarrow> int list) \<Rightarrow> ('k, 'v) HashMap \<Rightarrow> int \<Rightarrow> 'k option \<Rightarrow> 'v option
    \<Rightarrow> (('k, 'v) freed list \<times> ('k, 'v) HashMap) option" where
  "HashMapSetDeep bytes hm key_size keyp value = (case keyp of
     None \<Rightarrow> Some ([], hm)
   | Some key \<Rightarrow> do {
       (freed, hm) \<leftarrow> HashMapRemoveDeep bytes hm key_size (Some key);
       hm \<leftarrow> insert_element bytes key_size key value hm;
       Some (freed, hm) })"

section \<open>Iterating\<close>

definition bucket_list :: "('k, 'v) HashMap \<Rightarrow> addr option \<Rightarrow> ListRoot option option" where
  "bucket_list hm items = (case items of None \<Rightarrow> Some None | Some c \<Rightarrow> map_option Some (hm_node hm c))"

partial_function (option) next_loop ::
  "('k, 'v) HashMap \<Rightarrow> HashMapIterator \<Rightarrow> (HashMapIterator \<times> ('k, 'v) HashMap) option" where
  "next_loop hm iter =
     (if ArrayListSize (Some (hm_nodes hm)) \<le> hi_bucket iter then Some (iter, hm)
      else do {
        (items, hm) \<leftarrow> bucket_at hm (hi_bucket iter);
        itemsList \<leftarrow> bucket_list hm items;
        element \<leftarrow> ListGetValueAt itemsList (hi_index iter) (hm_store hm);
        if element = None
        then next_loop hm (iter\<lparr> hi_bucket := hi_bucket iter + 1, hi_index := 0 \<rparr>)
        else Some (iter, hm) })"

declare next_loop.simps [code]

definition HashMapNext ::
  "('k, 'v) HashMap \<Rightarrow> HashMapIterator \<Rightarrow> (HashMapIterator \<times> ('k, 'v) HashMap) option" where
  "HashMapNext hm iter =
     (if \<not> hi_target iter then Some (\<lparr> hi_target = False, hi_bucket = 0, hi_index = 0 \<rparr>, hm)
      else next_loop hm (iter\<lparr> hi_index := hi_index iter + 1 \<rparr>))"

definition HashMapBegin :: "('k, 'v) HashMap \<Rightarrow> (HashMapIterator \<times> ('k, 'v) HashMap) option" where
  "HashMapBegin hm = HashMapNext hm \<lparr> hi_target = True, hi_bucket = 0, hi_index = -1 \<rparr>"

definition HashMapIsEnd ::
  "('k, 'v) HashMap \<Rightarrow> HashMapIterator \<Rightarrow> (bool \<times> ('k, 'v) HashMap) option" where
  "HashMapIsEnd hm iter =
     (if \<not> hi_target iter then Some (True, hm)
      else do { (node, hm) \<leftarrow> bucket_at hm (hi_bucket iter); Some (node = None, hm) })"

definition element_at ::
  "('k, 'v) HashMap \<Rightarrow> HashMapIterator \<Rightarrow> (('k, 'v) HashMapElement option \<times> ('k, 'v) HashMap) option" where
  "element_at hm iter =
     (if \<not> hi_target iter then Some (None, hm)
      else do {
        (items, hm) \<leftarrow> bucket_at hm (hi_bucket iter);
        if items = None then Some (None, hm)
        else do {
          itemsList \<leftarrow> bucket_list hm items;
          e \<leftarrow> ListGetValueAt itemsList (hi_index iter) (hm_store hm);
          case e of None \<Rightarrow> Some (None, hm)
          | Some a \<Rightarrow> do { element \<leftarrow> hm_elem hm a; Some (Some element, hm) } } })"

definition HashMapGetValue ::
  "('k, 'v) HashMap \<Rightarrow> HashMapIterator \<Rightarrow> ('v option \<times> ('k, 'v) HashMap) option" where
  "HashMapGetValue hm iter = do {
     (e, hm) \<leftarrow> element_at hm iter;
     Some (case e of None \<Rightarrow> None | Some element \<Rightarrow> he_value element, hm) }"

definition HashMapGetKey ::
  "('k, 'v) HashMap \<Rightarrow> HashMapIterator \<Rightarrow> ('k option \<times> ('k, 'v) HashMap) option" where
  "HashMapGetKey hm iter = do {
     (e, hm) \<leftarrow> element_at hm iter;
     Some (case e of None \<Rightarrow> None | Some element \<Rightarrow> he_key element, hm) }"

text \<open>LOOP_HASHMAP with a body that reads something of every position and leaves the map alone.\<close>

partial_function (option) loop_hashmap ::
  "(('k, 'v) HashMap \<Rightarrow> HashMapIterator \<Rightarrow> ('a \<times> ('k, 'v) HashMap) option)
    \<Rightarrow> ('k, 'v) HashMap \<Rightarrow> HashMapIterator \<Rightarrow> ('a list \<times> ('k, 'v) HashMap) option" where
  "loop_hashmap read hm iter = do {
     (finished, hm) \<leftarrow> HashMapIsEnd hm iter;
     if finished then Some ([], hm)
     else do {
       (v, hm) \<leftarrow> read hm iter;
       (iter, hm) \<leftarrow> HashMapNext hm iter;
       (vs, hm) \<leftarrow> loop_hashmap read hm iter;
       Some (v # vs, hm) } }"

declare loop_hashmap.simps [code]

definition loop_reading ::
  "(('k, 'v) HashMap \<Rightarrow> HashMapIterator \<Rightarrow> ('a \<times> ('k, 'v) HashMap) option)
    \<Rightarrow> ('k, 'v) HashMap \<Rightarrow> ('a list \<times> ('k, 'v) HashMap) option" where
  "loop_reading read hm = do { (iter, hm) \<leftarrow> HashMapBegin hm; loop_hashmap read hm iter }"

definition LOOP_HASHMAP :: "('k, 'v) HashMap \<Rightarrow> ('v option list \<times> ('k, 'v) HashMap) option" where
  "LOOP_HASHMAP hm = loop_reading HashMapGetValue hm"

section \<open>Destroying\<close>

text \<open>
  The inner loop frees the elements of a bucket, with their values and keys when \<open>deep\<close>; the outer
  loop goes over the positions of the array list.
\<close>

partial_function (option) free_elements ::
  "bool \<Rightarrow> ('k, 'v) HashMap \<Rightarrow> addr option \<Rightarrow> (('k, 'v) freed list \<times> ('k, 'v) HashMap) option" where
  "free_elements deep hm j =
     (if j = None then Some ([], hm)
      else do {
        e \<leftarrow> ListGetValue (hm_store hm) j;
        (out, hm) \<leftarrow> (case e of
           None \<Rightarrow> Some ([], hm)
         | Some a \<Rightarrow> do {
             element \<leftarrow> hm_elem hm a;
             Some (if deep then frees element else [], hm\<lparr> hm_elem := (hm_elem hm)(a := None) \<rparr>) });
        j \<leftarrow> ListNext (hm_store hm) j;
        (outs, hm) \<leftarrow> free_elements deep hm j;
        Some (out @ outs, hm) })"

partial_function (option) destroy_buckets ::
  "bool \<Rightarrow> ('k, 'v) HashMap \<Rightarrow> ArrayListIterator \<Rightarrow> (('k, 'v) freed list \<times> ('k, 'v) HashMap) option" where
  "destroy_buckets deep hm i =
     (if ArrayListIsEnd (hm_nodes hm) i then Some ([], hm)
      else do {
        currentNode \<leftarrow> ArrayListGetValue (hm_nodes hm) i;
        values \<leftarrow> bucket_list hm currentNode;
        (out, hm) \<leftarrow> free_elements deep hm (ListBegin values);
        (values, s) \<leftarrow> ListDestroy values (hm_store hm);
        let hm = hm\<lparr> hm_store := s, hm_node := (case currentNode of None \<Rightarrow> hm_node hm
                     | Some c \<Rightarrow> (hm_node hm)(c := None)) \<rparr>;
        (outs, hm) \<leftarrow> destroy_buckets deep hm (ArrayListNext (hm_nodes hm) i);
        Some (out @ outs, hm) })"

declare free_elements.simps [code] destroy_buckets.simps [code]

definition destroy_map :: "bool \<Rightarrow> ('k, 'v) HashMap \<Rightarrow> (('k, 'v) freed list \<times> ('k, 'v) HashMap) option" where
  "destroy_map deep hm = do {
     (out, hm) \<leftarrow> destroy_buckets deep hm (ArrayListBegin (Some (hm_nodes hm)));
     nodes \<leftarrow> ArrayListDestroy (Some (hm_nodes hm));
     Some (out, hm\<lparr> hm_nodes := nodes \<rparr>) }"

definition HashMapDestroy :: "('k, 'v) HashMap \<Rightarrow> ('k, 'v) HashMap option" where
  "HashMapDestroy hm = map_option snd (destroy_map False hm)"

definition HashMapDestroyDeep :: "('k, 'v) HashMap \<Rightarrow> (('k, 'v) freed list \<times> ('k, 'v) HashMap) option" where
  "HashMapDestroyDeep hm = destroy_map True hm"

end
