(* ===== verification/HashMapCorrect.thy ===== *)
theory HashMapCorrect
  imports HashMap ArrayListCorrect DynListCorrect
begin

text \<open>
  The hash map implements an association list in insertion order. Since HashMapCalcHash returns 1000
  for every key, all elements are in one bucket; \<open>hm_rep B n hm kvs\<close> says that the map holds the
  pairs \<open>kvs\<close>, that its array of buckets has \<open>n\<close> positions and that every element it
  allocated is in use. \<open>B\<close> bounds the capacity of the array as in \<open>al_ok\<close>.
\<close>

section \<open>The hash function\<close>

lemma smod_bounds: "0 < m \<Longrightarrow> \<bar>a smod m\<bar> < (m :: int)"
  using smod_int_range [of m a] by auto

definition byte_list :: "int list \<Rightarrow> bool" where
  "byte_list bs \<longleftrightarrow> (\<forall>b \<in> set bs. -128 \<le> b \<and> b < 128)"

lemma hash_loop_ok:
  "byte_list bs \<Longrightarrow> \<bar>h\<bar> < HASH_MAP_FACT_Q \<Longrightarrow> \<exists>r. hash_loop bs h = Some r \<and> \<bar>r\<bar> < HASH_MAP_FACT_Q"
proof (induction bs arbitrary: h)
  case (Cons b bs)
  have "in_int (b * HASH_MAP_FACT_P)" "in_int (h + b * HASH_MAP_FACT_P)"
    using Cons.prems by (auto simp: byte_list_def in_int_def config)
  moreover have "byte_list bs" using Cons.prems by (simp add: byte_list_def)
  ultimately show ?case
    using Cons.IH [of "(h + b * HASH_MAP_FACT_P) smod HASH_MAP_FACT_Q"] smod_bounds [of HASH_MAP_FACT_Q]
    by (simp add: config)
qed simp

definition key_ok :: "int \<Rightarrow> int list \<Rightarrow> bool" where
  "key_ok key_size bs \<longleftrightarrow> -6135667 \<le> key_size \<and> key_size \<le> int (length bs) \<and> byte_list bs"

text \<open>
  A size that is not positive stands for the key itself; the bound is the largest whose product with
  the factor 350 is an \<open>int\<close>.
\<close>

lemma HashMapCalcHash_ok: "key_ok key_size bs \<Longrightarrow> HashMapCalcHash key_size bs = Some 1000"
proof -
  assume k: "key_ok key_size bs"
  then have "byte_list (take (nat key_size) bs)"
    by (auto simp: key_ok_def byte_list_def dest: in_set_takeD)
  from hash_loop_ok [OF this, of 0] obtain r where
    "hash_loop (take (nat key_size) bs) 0 = Some r" "\<bar>r\<bar> < HASH_MAP_FACT_Q" by (auto simp: config)
  moreover have "\<bar>h smod HASH_MAP_FACT_Q\<bar> < HASH_MAP_FACT_Q" for h
    using smod_bounds [of HASH_MAP_FACT_Q h] by (simp add: config)
  from this [of "key_size * HASH_MAP_FACT_P"]
  have "in_int (- (key_size * HASH_MAP_FACT_P smod HASH_MAP_FACT_Q))" by (auto simp: in_int_def config abs_less_iff)
  ultimately show ?thesis
    using k by (cases "0 < key_size") (auto simp: HashMapCalcHash_def key_ok_def config cint_def in_int_def)
qed

section \<open>Representation\<close>

text \<open>An entry: its list node, its element, its key and its value.\<close>

type_synonym ('k, 'v) ent = "addr \<times> addr \<times> 'k \<times> 'v option"

definition node_entry :: "('k, 'v) ent \<Rightarrow> addr \<times> addr option" where
  "node_entry t = (fst t, Some (fst (snd t)))"

abbreviation elem_of :: "('k, 'v) ent \<Rightarrow> addr" where
  "elem_of t \<equiv> fst (snd t)"

abbreviation pair_of :: "('k, 'v) ent \<Rightarrow> 'k \<times> 'v option" where
  "pair_of t \<equiv> snd (snd t)"

definition elems_ok :: "('k, 'v) HashMap \<Rightarrow> ('k, 'v) ent list \<Rightarrow> bool" where
  "elems_ok hm ts \<longleftrightarrow> distinct (map elem_of ts) \<and> {a. hm_elem hm a \<noteq> None} = set (map elem_of ts) \<and>
     (\<forall>t \<in> set ts. hm_elem hm (elem_of t) = Some \<lparr> he_key = Some (fst (pair_of t)), he_value = snd (pair_of t) \<rparr> \<and>
        elem_of t < hm_elem_next hm)"

definition bucket_ok :: "('k, 'v) HashMap \<Rightarrow> addr option \<Rightarrow> ('k, 'v) ent list \<Rightarrow> bool" where
  "bucket_ok hm bucket ts \<longleftrightarrow> (case bucket of None \<Rightarrow> ts = []
     | Some c \<Rightarrow> (\<exists>l. hm_node hm c = Some l \<and> list_at (hm_store hm) l (map node_entry ts)))"

definition slots_ok :: "int \<Rightarrow> nat \<Rightarrow> ('k, 'v) HashMap \<Rightarrow> addr option \<Rightarrow> bool" where
  "slots_ok B n hm bucket \<longleftrightarrow> (\<exists>vs. al_ok B (hm_nodes hm) vs \<and> length vs = n \<and>
     slot_of vs = (\<lambda>p. if p = 1000 then bucket else None))"

definition ents_rep :: "int \<Rightarrow> nat \<Rightarrow> ('k, 'v) HashMap \<Rightarrow> addr option \<Rightarrow> ('k, 'v) ent list \<Rightarrow> bool" where
  "ents_rep B n hm bucket ts \<longleftrightarrow> slots_ok B n hm bucket \<and> ok_store (hm_store hm) \<and> elems_ok hm ts \<and>
     bucket_ok hm bucket ts"

definition hm_rep :: "int \<Rightarrow> nat \<Rightarrow> ('k, 'v) HashMap \<Rightarrow> ('k \<times> 'v option) list \<Rightarrow> bool" where
  "hm_rep B n hm kvs \<longleftrightarrow> (\<exists>bucket ts. ents_rep B n hm bucket ts \<and> kvs = map pair_of ts)"

lemma HashMapNew_ok:
  assumes "130 \<le> B" "B < 2 ^ 25"
  shows "\<exists>hm. HashMapNew cmp = Some hm \<and> hm_cmp hm = cmp \<and> hm_rep B 100 hm []"
proof -
  have "al_ok B (ArrayListNew :: addr ArrayList) []" using assms by (intro al_ok_New) auto
  from ArrayListResizeFill_ok [OF this, of 100] assms obtain l :: "addr ArrayList" where
    "ArrayListResizeFill ArrayListNew 100 = Some l" "al_ok B l (pad 100 [])" by auto
  moreover have "slot_of (pad 100 ([] :: addr option list)) = (\<lambda>p. None)"
    by (simp only: slot_of_pad) (auto simp: slot_of_def fun_eq_iff)
  ultimately show ?thesis
    by (auto simp: HashMapNew_def hm_rep_def ents_rep_def slots_ok_def ok_store_def empty_store_def elems_ok_def
        bucket_ok_def intro!: exI [of _ "None :: addr option"] exI [of _ "pad 100 []"])
qed

section \<open>Buckets\<close>

lemma get_in_range:
  assumes "al_ok B l vs" "0 \<le> p" "p < int (length vs)"
  shows "ArrayListGetValueAt (Some l) p = Some (slot_of vs p, Some l)"
  using assms al_read_rep [of l vs p]
  by (simp add: ArrayListGetValueAt_def al_ok_size slot_of_def) (simp add: al_ok_def)

lemma bucket_at_inside:
  assumes "slots_ok B n hm bucket" "0 \<le> p" "p < int n"
  shows "bucket_at hm p = Some (if p = 1000 then bucket else None, hm)"
proof -
  from assms(1) obtain vs where "al_ok B (hm_nodes hm) vs" "length vs = n"
    "slot_of vs = (\<lambda>p. if p = 1000 then bucket else None)" by (auto simp: slots_ok_def)
  with get_in_range [of B "hm_nodes hm" vs p] assms(2,3) show ?thesis by (simp add: bucket_at_def)
qed

text \<open>Only the array of buckets differs.\<close>

definition with_nodes :: "('k, 'v) HashMap \<Rightarrow> addr ArrayList \<Rightarrow> ('k, 'v) HashMap" where
  "with_nodes hm l = hm\<lparr> hm_nodes := l \<rparr>"

lemma with_nodes_sel [simp]:
  "hm_nodes (with_nodes hm l) = l" "hm_cmp (with_nodes hm l) = hm_cmp hm" "hm_store (with_nodes hm l) = hm_store hm"
  "hm_elem (with_nodes hm l) = hm_elem hm" "hm_elem_next (with_nodes hm l) = hm_elem_next hm"
  "hm_node (with_nodes hm l) = hm_node hm" "hm_node_next (with_nodes hm l) = hm_node_next hm"
  by (simp_all add: with_nodes_def)

lemma bucket_at_ok:
  assumes s: "slots_ok B n hm bucket" and p: "0 \<le> p" "p + 47 \<le> B"
  shows "\<exists>l. bucket_at hm p = Some (if p = 1000 then bucket else None, with_nodes hm l) \<and>
    slots_ok B (if p < int n then n else nat (p + 17)) (with_nodes hm l) bucket"
proof -
  from s obtain vs where vs: "al_ok B (hm_nodes hm) vs" "length vs = n"
    "slot_of vs = (\<lambda>p. if p = 1000 then bucket else None)" by (auto simp: slots_ok_def)
  obtain l where l: "ArrayListGetValueAt (Some (hm_nodes hm)) p = Some (slot_of vs p, Some l)"
    "al_ok B l (reach p vs)" using ArrayListGetValueAt_ok [OF vs(1) _ p(2)] p(1) by auto
  have "length (reach p vs) = (if p < int n then n else nat (p + 17))"
    using p(1) vs(2) by (auto simp: reach_def in_range_def)
  moreover have "slot_of (reach p vs) = (\<lambda>p. if p = 1000 then bucket else None)" by (simp add: vs(3))
  ultimately show ?thesis
    using l vs(3) by (intro exI [of _ l]) (auto simp: bucket_at_def slots_ok_def with_nodes_def)
qed

text \<open>The number of positions after an access to bucket 1000.\<close>

definition reached :: "nat \<Rightarrow> nat" where
  "reached n = (if 1000 < n then n else 1017)"

lemma hash_bucket_ok:
  assumes "ents_rep B n hm bucket ts" "1047 \<le> B"
  shows "\<exists>l. bucket_at hm 1000 = Some (bucket, with_nodes hm l) \<and> ents_rep B (reached n) (with_nodes hm l) bucket ts"
proof -
  from assms(1) have "slots_ok B n hm bucket" by (simp add: ents_rep_def)
  from bucket_at_ok [OF this, of 1000] assms(2) obtain l where
    "bucket_at hm 1000 = Some (bucket, with_nodes hm l)" "slots_ok B (reached n) (with_nodes hm l) bucket"
    by (auto simp: reached_def split: if_splits)
  with assms(1) show ?thesis
    by (intro exI [of _ l]) (auto simp: ents_rep_def elems_ok_def bucket_ok_def split: option.splits)
qed

section \<open>The first match\<close>

definition accepts_key :: "('k \<Rightarrow> 'k \<Rightarrow> int) \<Rightarrow> 'k \<Rightarrow> 'k \<times> 'v option \<Rightarrow> bool" where
  "accepts_key cmp key kv \<longleftrightarrow> cmp (fst kv) key \<noteq> 0"

lemma element_matches_ok:
  "hm_elem hm (elem_of t) = Some \<lparr> he_key = Some (fst (pair_of t)), he_value = snd (pair_of t) \<rparr> \<Longrightarrow>
   element_matches hm (Some (elem_of t)) key = Some (accepts_key (hm_cmp hm) key (pair_of t))"
  by (simp add: element_matches_def accepts_key_def)

lemma find_loop_ok:
  "chain (st_node (hm_store hm)) l (map node_entry ts) None \<Longrightarrow>
   \<forall>t \<in> set ts. hm_elem hm (elem_of t) = Some \<lparr> he_key = Some (fst (pair_of t)), he_value = snd (pair_of t) \<rparr> \<Longrightarrow>
   find_loop hm (first_of (map node_entry ts) None) key = Some (map_option (\<lambda>t. (Some (fst t), elem_of t))
     (find (\<lambda>t. accepts_key (hm_cmp hm) key (pair_of t)) ts))"
proof (induction ts arbitrary: l)
  case Nil
  then show ?case by (simp add: find_loop.simps)
next
  case (Cons t ts)
  have ne: "node_entry t = (fst t, Some (elem_of t))" by (simp add: node_entry_def)
  have n: "st_node (hm_store hm) (fst t) = Some \<lparr> ln_right = first_of (map node_entry ts) None,
      ln_value = Some (elem_of t), ln_left = l \<rparr>"
    using Cons.prems(1) by (simp add: ne)
  have "find_loop hm (first_of (map node_entry ts) None) key = Some (map_option (\<lambda>t. (Some (fst t), elem_of t))
     (find (\<lambda>t. accepts_key (hm_cmp hm) key (pair_of t)) ts))"
    by (rule Cons.IH [of "Some (fst t)"]) (use Cons.prems in \<open>simp_all add: ne\<close>)
  with n Cons.prems(2) element_matches_ok [of hm t key] show ?case
    by (subst find_loop.simps) (simp add: ne ListGetValue_def ListNext_def deref_def)
qed

section \<open>The operations\<close>

text \<open>The abstract map: an association list searched from the front.\<close>

fun remove_first :: "('a \<Rightarrow> bool) \<Rightarrow> 'a list \<Rightarrow> 'a list" where
  "remove_first P [] = []"
| "remove_first P (x # xs) = (if P x then xs else x # remove_first P xs)"

definition lookup :: "('k \<Rightarrow> 'k \<Rightarrow> int) \<Rightarrow> 'k \<Rightarrow> ('k \<times> 'v option) list \<Rightarrow> 'v option" where
  "lookup cmp key kvs = (case find (accepts_key cmp key) kvs of None \<Rightarrow> None | Some (_, v) \<Rightarrow> v)"

definition delete :: "('k \<Rightarrow> 'k \<Rightarrow> int) \<Rightarrow> 'k \<Rightarrow> ('k \<times> 'v option) list \<Rightarrow> ('k \<times> 'v option) list" where
  "delete cmp key kvs = remove_first (accepts_key cmp key) kvs"

definition insert_pair ::
  "('k \<Rightarrow> 'k \<Rightarrow> int) \<Rightarrow> 'k \<Rightarrow> 'v option \<Rightarrow> ('k \<times> 'v option) list \<Rightarrow> ('k \<times> 'v option) list" where
  "insert_pair cmp key v kvs = delete cmp key kvs @ [(key, v)]"

definition deleted_frees :: "('k \<Rightarrow> 'k \<Rightarrow> int) \<Rightarrow> 'k \<Rightarrow> ('k \<times> 'v option) list \<Rightarrow> ('k, 'v) freed list" where
  "deleted_frees cmp key kvs = (case find (accepts_key cmp key) kvs of None \<Rightarrow> []
     | Some (k, v) \<Rightarrow> frees \<lparr> he_key = Some k, he_value = v \<rparr>)"

lemma find_split:
  "find P xs = Some x \<Longrightarrow> \<exists>ys zs. xs = ys @ x # zs \<and> P x \<and> (\<forall>y \<in> set ys. \<not> P y)"
proof (induction xs)
  case (Cons y xs)
  show ?case
  proof (cases "P y")
    case True
    with Cons.prems show ?thesis by (intro exI [of _ "[]"] exI [of _ xs]) auto
  next
    case False
    with Cons obtain ys zs where "xs = ys @ x # zs" "P x" "\<forall>z \<in> set ys. \<not> P z" by auto
    with False show ?thesis by (intro exI [of _ "y # ys"] exI [of _ zs]) auto
  qed
qed simp

lemma remove_first_split: "(\<forall>y \<in> set ys. \<not> P y) \<Longrightarrow> P x \<Longrightarrow> remove_first P (ys @ x # zs) = ys @ zs"
  by (induction ys) auto

lemma remove_first_none: "find P xs = None \<Longrightarrow> remove_first P xs = xs"
  by (induction xs) (auto split: if_splits)

lemma find_map: "find P (map f xs) = map_option f (find (\<lambda>x. P (f x)) xs)"
  by (induction xs) auto

lemma find_entry:
  assumes "ents_rep B n hm (Some c) ts"
  shows "\<exists>l. hm_node hm c = Some l \<and> list_at (hm_store hm) l (map node_entry ts) \<and>
    find_loop hm (ListBegin (Some l)) key = Some (map_option (\<lambda>t. (Some (fst t), elem_of t))
      (find (\<lambda>t. accepts_key (hm_cmp hm) key (pair_of t)) ts))"
proof -
  from assms obtain l where l: "hm_node hm c = Some l" "list_at (hm_store hm) l (map node_entry ts)"
    by (auto simp: ents_rep_def bucket_ok_def)
  have "find_loop hm (first_of (map node_entry ts) None) key = Some (map_option (\<lambda>t. (Some (fst t), elem_of t))
      (find (\<lambda>t. accepts_key (hm_cmp hm) key (pair_of t)) ts))"
    by (rule find_loop_ok [of _ None]) (use assms l(2) in \<open>simp_all add: list_at_def ents_rep_def elems_ok_def\<close>)
  with l show ?thesis by (intro exI [of _ l]) (simp add: ListBegin_def list_at_def)
qed

lemma HashMapGet_ok:
  assumes "hm_rep B n hm kvs" "1047 \<le> B" "key_ok key_size (bytes key)"
  shows "\<exists>hm'. HashMapGet bytes hm key_size (Some key) = Some (lookup (hm_cmp hm) key kvs, hm') \<and>
    hm_rep B (reached n) hm' kvs \<and> hm_cmp hm' = hm_cmp hm"
proof -
  from assms(1) obtain bucket ts where e: "ents_rep B n hm bucket ts" "kvs = map pair_of ts"
    by (auto simp: hm_rep_def)
  from hash_bucket_ok [OF e(1) assms(2)] obtain nodes where
    b: "bucket_at hm 1000 = Some (bucket, with_nodes hm nodes)" "ents_rep B (reached n) (with_nodes hm nodes) bucket ts"
    by blast
  let ?hm = "with_nodes hm nodes"
  have rep: "hm_rep B (reached n) ?hm kvs" using b(2) e(2) by (auto simp: hm_rep_def)
  have "HashMapGet bytes hm key_size (Some key) = Some (lookup (hm_cmp hm) key kvs, ?hm)"
  proof (cases bucket)
    case None
    with e b(1) HashMapCalcHash_ok [OF assms(3)] show ?thesis
      by (simp add: HashMapGet_def lookup_def ents_rep_def bucket_ok_def)
  next
    case (Some c)
    from find_entry [of B "reached n" ?hm c ts key] b(2) Some obtain l where
      l: "hm_node hm c = Some l" "find_loop ?hm (ListBegin (Some l)) key =
        Some (map_option (\<lambda>t. (Some (fst t), elem_of t)) (find (\<lambda>t. accepts_key (hm_cmp hm) key (pair_of t)) ts))"
      by auto
    show ?thesis
    proof (cases "find (\<lambda>t. accepts_key (hm_cmp hm) key (pair_of t)) ts")
      case None
      with l b(1) Some e(2) HashMapCalcHash_ok [OF assms(3)] show ?thesis
        by (simp add: HashMapGet_def lookup_def find_map)
    next
      case (Some t)
      from find_split [OF this] have "t \<in> set ts" by auto
      then have "hm_elem hm (elem_of t) = Some \<lparr> he_key = Some (fst (pair_of t)), he_value = snd (pair_of t) \<rparr>"
        using e(1) by (simp add: ents_rep_def elems_ok_def)
      with l b(1) \<open>bucket = Some c\<close> Some e(2) HashMapCalcHash_ok [OF assms(3)] show ?thesis
        by (simp add: HashMapGet_def lookup_def find_map split_beta)
    qed
  qed
  with rep show ?thesis by (intro exI [of _ ?hm]) simp
qed

lemma detach_element_ok:
  assumes e: "ents_rep B n hm (Some c) (ts @ t # us)" and l: "hm_node hm c = Some l"
    "list_at (hm_store hm) l (map node_entry (ts @ t # us))"
  shows "\<exists>hm'. detach_element c l (Some (fst t)) (elem_of t) hm = Some hm' \<and>
    ents_rep B n hm' (Some c) (ts @ us) \<and> hm_cmp hm' = hm_cmp hm"
proof -
  have s: "ok_store (hm_store hm)" using e by (simp add: ents_rep_def)
  have "list_at (hm_store hm) l (map node_entry ts @ node_entry t # map node_entry us)" using l(2) by simp
  from ListDetachElement_ok [OF this s] obtain l' s' where
    d: "ListDetachElement (Some l) (Some (fst t)) (hm_store hm) = Some (Some l', s')"
    "list_at s' l' (map node_entry (ts @ us))" "ok_store s'" by (auto simp: node_entry_def [of t])
  let ?hm = "hm\<lparr> hm_store := s', hm_node := (hm_node hm)(c \<mapsto> l'), hm_elem := (hm_elem hm)(elem_of t := None) \<rparr>"
  have "elems_ok hm (ts @ t # us)" using e by (simp add: ents_rep_def)
  then have "elem_of t \<notin> set (map elem_of (ts @ us))" "elems_ok ?hm (ts @ us)"
    by (auto simp: elems_ok_def image_iff)
  with d e have "ents_rep B n ?hm (Some c) (ts @ us)"
    by (auto simp: ents_rep_def bucket_ok_def slots_ok_def)
  with d(1) show ?thesis by (intro exI [of _ ?hm]) (simp add: detach_element_def)
qed

text \<open>HashMapRemove and HashMapRemoveDeep differ in what they return.\<close>

lemma removal_ok:
  assumes "hm_rep B n hm kvs" "1047 \<le> B" "key_ok key_size (bytes key)"
  shows "\<exists>hm'. HashMapRemove bytes hm key_size (Some key) = Some (lookup (hm_cmp hm) key kvs, hm') \<and>
    HashMapRemoveDeep bytes hm key_size (Some key) = Some (deleted_frees (hm_cmp hm) key kvs, hm') \<and>
    hm_rep B (reached n) hm' (delete (hm_cmp hm) key kvs) \<and> hm_cmp hm' = hm_cmp hm"
proof -
  from assms(1) obtain bucket ts where e: "ents_rep B n hm bucket ts" "kvs = map pair_of ts"
    by (auto simp: hm_rep_def)
  from hash_bucket_ok [OF e(1) assms(2)] obtain nodes where
    b: "bucket_at hm 1000 = Some (bucket, with_nodes hm nodes)" "ents_rep B (reached n) (with_nodes hm nodes) bucket ts"
    by blast
  let ?hm = "with_nodes hm nodes" and ?P = "\<lambda>t. accepts_key (hm_cmp hm) key (pair_of t)"
  note hash = HashMapCalcHash_ok [OF assms(3)]
  have idle: ?thesis if "find ?P ts = None"
    "HashMapRemove bytes hm key_size (Some key) = Some (None, ?hm)"
    "HashMapRemoveDeep bytes hm key_size (Some key) = Some ([], ?hm)"
    using that e(2) b(2)
    by (intro exI [of _ ?hm]) (auto simp: hm_rep_def delete_def remove_first_none find_map lookup_def deleted_frees_def)
  show ?thesis
  proof (cases bucket)
    case None
    with e(1) have "ts = []" by (simp add: ents_rep_def bucket_ok_def)
    with None b(1) hash show ?thesis
      by (intro idle) (simp_all add: HashMapRemove_def HashMapRemoveDeep_def)
  next
    case (Some c)
    from find_entry [of B "reached n" ?hm c ts key] b(2) Some obtain l where
      l: "hm_node hm c = Some l" "list_at (hm_store hm) l (map node_entry ts)" "find_loop ?hm (ListBegin (Some l)) key =
        Some (map_option (\<lambda>t. (Some (fst t), elem_of t)) (find ?P ts))"
      by auto
    show ?thesis
    proof (cases "find ?P ts")
      case None
      with l b(1) Some hash show ?thesis
        by (intro idle) (simp_all add: HashMapRemove_def HashMapRemoveDeep_def)
    next
      case (Some t)
      from find_split [OF this] obtain us ws where ts: "ts = us @ t # ws" "?P t" "\<forall>u \<in> set us. \<not> ?P u" by blast
      have el: "hm_elem hm (elem_of t) = Some \<lparr> he_key = Some (fst (pair_of t)), he_value = snd (pair_of t) \<rparr>"
        using e(1) ts(1) by (simp add: ents_rep_def elems_ok_def)
      obtain hm' where hm': "detach_element c l (Some (fst t)) (elem_of t) ?hm = Some hm'"
        "ents_rep B (reached n) hm' (Some c) (us @ ws)" "hm_cmp hm' = hm_cmp hm"
        using detach_element_ok [of B "reached n" ?hm c us t ws l] b(2) l(1,2) ts(1) \<open>bucket = Some c\<close> by auto
      have "delete (hm_cmp hm) key kvs = map pair_of (us @ ws)"
        using remove_first_split [of "map pair_of us" "accepts_key (hm_cmp hm) key" "pair_of t" "map pair_of ws"] ts e(2)
        by (simp add: delete_def)
      then have "hm_rep B (reached n) hm' (delete (hm_cmp hm) key kvs)" using hm'(2) unfolding hm_rep_def by blast
      moreover have "HashMapRemove bytes hm key_size (Some key) = Some (lookup (hm_cmp hm) key kvs, hm')"
        "HashMapRemoveDeep bytes hm key_size (Some key) = Some (deleted_frees (hm_cmp hm) key kvs, hm')"
        using l b(1) \<open>bucket = Some c\<close> Some e(2) el hm'(1) hash
        by (simp_all add: HashMapRemove_def HashMapRemoveDeep_def lookup_def deleted_frees_def find_map split_beta)
      ultimately show ?thesis using hm'(3) by blast
    qed
  qed
qed

lemma elems_ok_insert:
  assumes el: "elems_ok hm ts"
    and hm': "hm_elem hm' = (hm_elem hm)(hm_elem_next hm \<mapsto> \<lparr> he_key = Some key, he_value = v \<rparr>)"
      "hm_elem_next hm' = Suc (hm_elem_next hm)"
  shows "elems_ok hm' (ts @ [(a, hm_elem_next hm, key, v)])"
proof -
  let ?e = "hm_elem_next hm"
  from el have below: "\<forall>t \<in> set ts. elem_of t < ?e" by (simp add: elems_ok_def)
  then have fresh: "?e \<notin> set (map elem_of ts)" by auto
  have "hm_elem hm' (elem_of t) = Some \<lparr> he_key = Some (fst (pair_of t)), he_value = snd (pair_of t) \<rparr> \<and>
      elem_of t < hm_elem_next hm'" if "t \<in> set ts" for t
  proof -
    have "elem_of t \<noteq> ?e" using below that by auto
    with el that below show ?thesis by (simp add: elems_ok_def hm' less_Suc_eq)
  qed
  moreover have "{a. hm_elem hm' a \<noteq> None} = insert ?e (set (map elem_of ts))"
    using el by (auto simp: elems_ok_def hm')
  ultimately show ?thesis using el fresh by (simp add: elems_ok_def hm')
qed

lemma insert_element_ok:
  assumes r: "hm_rep B n hm kvs" "1047 \<le> B" "key_ok key_size (bytes key)"
  shows "\<exists>hm'. insert_element bytes key_size key v hm = Some hm' \<and>
    hm_rep B (reached n) hm' (kvs @ [(key, v)]) \<and> hm_cmp hm' = hm_cmp hm"
proof -
  from r(1) obtain bucket ts where e: "ents_rep B n hm bucket ts" "kvs = map pair_of ts"
    by (auto simp: hm_rep_def)
  from hash_bucket_ok [OF e(1) r(2)] obtain nodes where
    b: "bucket_at hm 1000 = Some (bucket, with_nodes hm nodes)" "ents_rep B (reached n) (with_nodes hm nodes) bucket ts"
    by blast
  let ?hm = "with_nodes hm nodes" and ?e = "hm_elem_next hm"
  note hash = HashMapCalcHash_ok [OF r(3)]
  define c where "c = (case bucket of None \<Rightarrow> hm_node_next hm | Some c \<Rightarrow> c)"
  define hm1 where "hm1 = snd (case bucket of None \<Rightarrow> HashMapCreateNode ?hm | Some c \<Rightarrow> (c, ?hm))"
  have c1: "(case bucket of None \<Rightarrow> HashMapCreateNode ?hm | Some c \<Rightarrow> (c, ?hm)) = (c, hm1)"
    by (simp add: c_def hm1_def HashMapCreateNode_def split: option.split)
  have hm1: "hm_store hm1 = hm_store hm" "hm_elem hm1 = hm_elem hm" "hm_elem_next hm1 = ?e"
    "hm_nodes hm1 = nodes" "hm_cmp hm1 = hm_cmp hm"
    by (simp_all add: hm1_def HashMapCreateNode_def split: option.split)
  obtain l where l: "hm_node hm1 c = Some l" "list_at (hm_store hm) l (map node_entry ts)"
    using b(2) by (cases bucket) (auto simp: ents_rep_def bucket_ok_def hm1_def c_def HashMapCreateNode_def)
  have s: "ok_store (hm_store hm)" using e(1) by (simp add: ents_rep_def)
  obtain l' s' where p: "ListPushBack (Some l) (Some ?e) (hm_store hm) = Some (Some (st_next (hm_store hm)), Some l', s')"
    "list_at s' l' (map node_entry ts @ [(st_next (hm_store hm), Some ?e)])" "ok_store s'"
    using ListPushBack_ok [OF l(2) s, of "Some ?e"] by blast
  obtain vs where vs: "al_ok B nodes vs" "length vs = reached n" "slot_of vs = (\<lambda>p. if p = 1000 then bucket else None)"
    using b(2) by (auto simp: ents_rep_def slots_ok_def)
  have long: "1000 < int (length vs)" using vs(2) by (simp add: reached_def)
  then have "reach 1000 vs = vs" by (simp add: reach_def in_range_def)
  with ArrayListSetValueAt_ok [OF vs(1), of 1000 "Some c"] r(2) obtain nodes' where
    n': "ArrayListSetValueAt (Some nodes) 1000 (Some c) = Some (slot_of vs 1000, Some nodes')"
    "al_ok B nodes' (vs[1000 := Some c])" by auto
  let ?t = "(st_next (hm_store hm), ?e, key, v)"
  let ?hm' = "hm1\<lparr> hm_elem := (hm_elem hm)(?e \<mapsto> \<lparr> he_key = Some key, he_value = v \<rparr>), hm_elem_next := Suc ?e,
    hm_store := s', hm_node := (hm_node hm1)(c \<mapsto> l'), hm_nodes := nodes' \<rparr>"
  have run: "insert_element bytes key_size key v hm = Some ?hm'"
    using hash b(1) c1 hm1 l(1) p(1) n'(1)
    by (simp add: insert_element_def HashMapCreateElement_def)
  have "slot_of (vs[1000 := Some c]) = (\<lambda>p. if p = 1000 then Some c else None)"
    using slot_of_update [of 1000 vs "Some c"] long vs(3) by auto
  then have "slots_ok B (reached n) ?hm' (Some c)"
    unfolding slots_ok_def using n'(2) vs(2) by (intro exI [of _ "vs[1000 := Some c]"]) simp
  moreover have el: "elems_ok hm ts" using e(1) by (simp add: ents_rep_def)
  have "elems_ok ?hm' (ts @ [?t])"
    by (rule elems_ok_insert [OF el]) (simp_all add: hm1)
  moreover have "bucket_ok ?hm' (Some c) (ts @ [?t])"
    using p(2) by (simp add: bucket_ok_def node_entry_def [of "(st_next (hm_store hm), ?e, key, v)"])
  ultimately have "ents_rep B (reached n) ?hm' (Some c) (ts @ [?t])"
    using p(3) by (simp add: ents_rep_def)
  then have "hm_rep B (reached n) ?hm' (kvs @ [(key, v)])"
    unfolding hm_rep_def e(2) by (intro exI conjI) (assumption, simp)
  with run hm1(5) show ?thesis by auto
qed

lemma reached_reached [simp]: "reached (reached n) = reached n"
  by (simp add: reached_def)

lemma HashMapSet_ok:
  assumes "hm_rep B n hm kvs" "1047 \<le> B" "key_ok key_size (bytes key)"
  shows "\<exists>hm'. HashMapSet bytes hm key_size (Some key) v = Some (lookup (hm_cmp hm) key kvs, hm') \<and>
    HashMapSetDeep bytes hm key_size (Some key) v = Some (deleted_frees (hm_cmp hm) key kvs, hm') \<and>
    hm_rep B (reached n) hm' (insert_pair (hm_cmp hm) key v kvs) \<and> hm_cmp hm' = hm_cmp hm"
proof -
  obtain hm1 where r: "HashMapRemove bytes hm key_size (Some key) = Some (lookup (hm_cmp hm) key kvs, hm1)"
    "HashMapRemoveDeep bytes hm key_size (Some key) = Some (deleted_frees (hm_cmp hm) key kvs, hm1)"
    "hm_rep B (reached n) hm1 (delete (hm_cmp hm) key kvs)" "hm_cmp hm1 = hm_cmp hm"
    using removal_ok [where bytes = bytes and key = key, OF assms] by blast
  obtain hm2 where "insert_element bytes key_size key v hm1 = Some hm2"
    "hm_rep B (reached n) hm2 (delete (hm_cmp hm) key kvs @ [(key, v)])" "hm_cmp hm2 = hm_cmp hm1"
    using insert_element_ok [where bytes = bytes and key = key, OF r(3) assms(2,3), of v] by auto
  with r show ?thesis by (simp add: HashMapSet_def HashMapSetDeep_def insert_pair_def)
qed

section \<open>Iteration\<close>

abbreviation at_iter :: "int \<Rightarrow> int \<Rightarrow> HashMapIterator" where
  "at_iter b i \<equiv> \<lparr> hi_target = True, hi_bucket = b, hi_index = i \<rparr>"

lemma slots_size: "slots_ok B n hm bucket \<Longrightarrow> ArrayListSize (Some (hm_nodes hm)) = int n"
  by (auto simp: slots_ok_def ArrayListSize_def al_ok_size)

lemma slots_bucket: "slots_ok B n hm bucket \<Longrightarrow> n \<le> 1000 \<Longrightarrow> bucket = None"
proof -
  assume "slots_ok B n hm bucket" "n \<le> 1000"
  then obtain vs where "length vs = n" "slot_of vs = (\<lambda>p. if p = 1000 then bucket else None)"
    by (auto simp: slots_ok_def)
  with \<open>n \<le> 1000\<close> show ?thesis by (auto simp: slot_of_def fun_eq_iff dest!: spec [of _ 1000])
qed

lemma next_loop_skip:
  assumes s: "slots_ok B n hm bucket" and b: "0 \<le> b" "b < int n" "b \<noteq> 1000"
  shows "next_loop hm (at_iter b i) = next_loop hm (at_iter (b + 1) 0)"
  using bucket_at_inside [OF s b(1,2)] b slots_size [OF s]
  by (subst next_loop.simps) (simp add: bucket_list_def ListGetValueAt_def)

lemma next_loop_skips:
  assumes s: "slots_ok B n hm bucket"
  shows "0 \<le> b \<Longrightarrow> b < e \<Longrightarrow> e \<le> int n \<Longrightarrow> e \<le> 1000 \<or> 1000 < b \<Longrightarrow>
    next_loop hm (at_iter b i) = next_loop hm (at_iter e 0)"
proof (induction "nat (e - b)" arbitrary: b i)
  case (Suc k)
  have "next_loop hm (at_iter b i) = next_loop hm (at_iter (b + 1) 0)"
    by (rule next_loop_skip [OF s]) (use Suc.prems in auto)
  also have "\<dots> = next_loop hm (at_iter e 0)"
  proof (cases "b + 1 = e")
    case False
    with Suc show ?thesis by (intro Suc.hyps(1)) auto
  qed simp
  finally show ?case .
qed simp

lemma next_loop_stop: "slots_ok B n hm bucket \<Longrightarrow> next_loop hm (at_iter (int n) i) = Some (at_iter (int n) i, hm)"
  by (subst next_loop.simps) (simp add: slots_size)

lemma ents_value:
  assumes "ents_rep B n hm (Some c) ts" "0 \<le> p"
  shows "\<exists>l. bucket_list hm (Some c) = Some (Some l) \<and>
    ListGetValueAt (Some l) p (hm_store hm) = Some (if p < int (length ts) then Some (elem_of (ts ! nat p)) else None)"
proof -
  from assms obtain l where l: "hm_node hm c = Some l" "list_at (hm_store hm) l (map node_entry ts)"
    by (auto simp: ents_rep_def bucket_ok_def)
  have "snd (map node_entry ts ! nat p) = Some (elem_of (ts ! nat p))" if "p < int (length ts)"
    using that assms(2) by (simp add: node_entry_def nat_less_iff)
  with ListGetValueAt_ok [OF l(2), of p] l(1) assms(2) show ?thesis
    by (auto simp: bucket_list_def)
qed

text \<open>The iterator in front of element \<open>p\<close>, and the one behind the last.\<close>

definition in_front :: "nat \<Rightarrow> int \<Rightarrow> int \<Rightarrow> HashMapIterator \<Rightarrow> bool" where
  "in_front n len p it \<longleftrightarrow> hi_target it \<and>
     (if p < len then it = at_iter 1000 p else hi_bucket it = int n)"

lemma next_loop_at_1000:
  assumes e: "ents_rep B n hm bucket ts" and n: "1000 < n" and p: "0 \<le> p"
  shows "\<exists>it. next_loop hm (at_iter 1000 p) = Some (it, hm) \<and> in_front n (int (length ts)) p it"
proof -
  have s: "slots_ok B n hm bucket" using e by (simp add: ents_rep_def)
  have "next_loop hm (at_iter 1001 0) = Some (at_iter (int n) 0, hm)"
    using next_loop_skips [OF s, of 1001 "int n" 0] next_loop_stop [OF s, of 0] n
    by (cases "1001 = n") auto
  moreover have "next_loop hm (at_iter 1000 p) =
      (if p < int (length ts) then Some (at_iter 1000 p, hm) else next_loop hm (at_iter 1001 0))"
  proof (cases bucket)
    case None
    then have "ts = []" using e by (simp add: ents_rep_def bucket_ok_def)
    with None bucket_at_inside [OF s, of 1000] n p slots_size [OF s] show ?thesis
      by (subst next_loop.simps) (simp add: bucket_list_def ListGetValueAt_def)
  next
    case (Some c)
    with ents_value [of B n hm c ts p] e p obtain l where "bucket_list hm (Some c) = Some (Some l)"
      "ListGetValueAt (Some l) p (hm_store hm) = Some (if p < int (length ts) then Some (elem_of (ts ! nat p)) else None)"
      by blast
    with Some bucket_at_inside [OF s, of 1000] n slots_size [OF s] show ?thesis
      by (subst next_loop.simps) simp
  qed
  ultimately show ?thesis by (auto simp: in_front_def)
qed

lemma HashMapBegin_ok:
  assumes e: "ents_rep B n hm bucket ts"
  shows "\<exists>it. HashMapBegin hm = Some (it, hm) \<and> in_front n (int (length ts)) 0 it"
proof -
  have s: "slots_ok B n hm bucket" using e by (simp add: ents_rep_def)
  have b: "HashMapBegin hm = next_loop hm (at_iter 0 0)" by (simp add: HashMapBegin_def HashMapNext_def)
  show ?thesis
  proof (cases "1000 < n")
    case True
    with next_loop_skips [OF s, of 0 1000 0] have "HashMapBegin hm = next_loop hm (at_iter 1000 0)" by (simp add: b)
    with next_loop_at_1000 [OF e True, of 0] show ?thesis by simp
  next
    case False
    then have "ts = []" using slots_bucket [OF s] e by (simp add: ents_rep_def bucket_ok_def)
    moreover have "next_loop hm (at_iter 0 0) = Some (at_iter (int n) 0, hm)"
      using next_loop_skips [OF s, of 0 "int n" 0] next_loop_stop [OF s, of 0] False by (cases "n = 0") auto
    ultimately show ?thesis by (auto simp: b in_front_def)
  qed
qed

lemma element_at_ok:
  assumes "ents_rep B n hm bucket ts" "p < length ts"
  shows "element_at hm (at_iter 1000 (int p)) =
    Some (Some \<lparr> he_key = Some (fst (pair_of (ts ! p))), he_value = snd (pair_of (ts ! p)) \<rparr>, hm)"
proof -
  have s: "slots_ok B n hm bucket" using assms(1) by (simp add: ents_rep_def)
  from assms obtain c where c: "bucket = Some c" by (cases bucket) (auto simp: ents_rep_def bucket_ok_def)
  with slots_bucket [OF s] have n: "1000 < n" by (cases "n \<le> 1000") auto
  have b: "bucket_at hm 1000 = Some (Some c, hm)" using bucket_at_inside [OF s, of 1000] n c by simp
  obtain l where l: "bucket_list hm (Some c) = Some (Some l)"
    "ListGetValueAt (Some l) (int p) (hm_store hm) = Some (Some (elem_of (ts ! p)))"
    using ents_value [of B n hm c ts "int p"] assms c by auto
  have "hm_elem hm (elem_of (ts ! p)) = Some \<lparr> he_key = Some (fst (pair_of (ts ! p))), he_value = snd (pair_of (ts ! p)) \<rparr>"
    using assms by (simp add: ents_rep_def elems_ok_def)
  with b l show ?thesis by (simp add: element_at_def)
qed

lemma loop_hashmap_ok:
  assumes read: "\<And>p. p < length ts \<Longrightarrow> read hm (at_iter 1000 (int p)) = Some (f (pair_of (ts ! p)), hm)"
  shows "ents_rep B n hm bucket ts \<Longrightarrow> int n + 47 \<le> B \<Longrightarrow> p \<le> length ts \<Longrightarrow> in_front n (int (length ts)) (int p) it \<Longrightarrow>
   \<exists>hm'. loop_hashmap read hm it = Some (map (f \<circ> pair_of) (drop p ts), hm') \<and> ents_rep B (n + 17) hm' bucket ts \<and>
     hm_cmp hm' = hm_cmp hm"
proof (induction "length ts - p" arbitrary: p it)
  case 0
  then have s: "slots_ok B n hm bucket" and it: "hi_target it" "hi_bucket it = int n" and p: "drop p ts = []"
    by (auto simp: ents_rep_def in_front_def)
  obtain nodes where n: "bucket_at hm (int n) = Some (if int n = 1000 then bucket else None, with_nodes hm nodes)"
    "slots_ok B (nat (int n + 17)) (with_nodes hm nodes) bucket"
    using bucket_at_ok [OF s, of "int n"] 0(3) by auto
  have "(if int n = 1000 then bucket else None) = None" using slots_bucket [OF s] by auto
  then have "loop_hashmap read hm it = Some ([], with_nodes hm nodes)"
    using n(1) it by (subst loop_hashmap.simps) (simp add: HashMapIsEnd_def)
  moreover have "ents_rep B (n + 17) (with_nodes hm nodes) bucket ts"
    using 0(2) n(2) by (auto simp: ents_rep_def elems_ok_def bucket_ok_def nat_add_distrib split: option.splits)
  ultimately show ?case using p by auto
next
  case (Suc k)
  then have p: "p < length ts" and it: "it = at_iter 1000 (int p)" by (auto simp: in_front_def)
  have s: "slots_ok B n hm bucket" using Suc.prems(1) by (simp add: ents_rep_def)
  from p Suc.prems(1) obtain c where c: "bucket = Some c" by (cases bucket) (auto simp: ents_rep_def bucket_ok_def)
  with slots_bucket [OF s] have n: "1000 < n" by (cases "n \<le> 1000") auto
  have b: "bucket_at hm 1000 = Some (Some c, hm)" using bucket_at_inside [OF s, of 1000] n c by simp
  have v: "read hm it = Some (f (pair_of (ts ! p)), hm)" using read [OF p] by (simp add: it)
  obtain it' where it': "next_loop hm (at_iter 1000 (int (Suc p))) = Some (it', hm)"
    "in_front n (int (length ts)) (int (Suc p)) it'"
    using next_loop_at_1000 [OF Suc.prems(1) n, of "int (Suc p)"] by auto
  have "k = length ts - Suc p" "Suc p \<le> length ts" using Suc.hyps(2) p by auto
  from Suc.hyps(1) [OF this(1) Suc.prems(1,2) this(2) it'(2)] obtain hm' where
    "loop_hashmap read hm it' = Some (map (f \<circ> pair_of) (drop (Suc p) ts), hm')" "ents_rep B (n + 17) hm' bucket ts"
    "hm_cmp hm' = hm_cmp hm" by blast
  moreover have "HashMapNext hm it = Some (it', hm)" using it'(1) by (simp add: HashMapNext_def it add.commute)
  moreover have "HashMapIsEnd hm it = Some (False, hm)" using b by (simp add: HashMapIsEnd_def it)
  moreover have "drop p ts = ts ! p # drop (Suc p) ts" using p by (simp add: Cons_nth_drop_Suc)
  ultimately show ?case
    using v by (intro exI [of _ hm'], subst loop_hashmap.simps) simp
qed

lemma loop_reading_ok:
  assumes "hm_rep B n hm kvs" "int n + 47 \<le> B"
    and read: "\<And>it k v. element_at hm it = Some (Some \<lparr> he_key = Some k, he_value = v \<rparr>, hm) \<Longrightarrow> read hm it = Some (f (k, v), hm)"
  shows "\<exists>hm'. loop_reading read hm = Some (map f kvs, hm') \<and> hm_rep B (n + 17) hm' kvs \<and> hm_cmp hm' = hm_cmp hm"
proof -
  from assms(1) obtain bucket ts where e: "ents_rep B n hm bucket ts" "kvs = map pair_of ts"
    by (auto simp: hm_rep_def)
  obtain it where it: "HashMapBegin hm = Some (it, hm)" "in_front n (int (length ts)) 0 it"
    using HashMapBegin_ok [OF e(1)] by blast
  have r: "read hm (at_iter 1000 (int p)) = Some (f (pair_of (ts ! p)), hm)" if "p < length ts" for p
    using read [OF element_at_ok [OF e(1) that]] by simp
  from loop_hashmap_ok [of ts read hm f, OF r e(1) assms(2), of 0 it] it e(2) show ?thesis
    by (auto simp: loop_reading_def hm_rep_def)
qed

lemma LOOP_HASHMAP_ok:
  assumes "hm_rep B n hm kvs" "int n + 47 \<le> B"
  shows "\<exists>hm'. LOOP_HASHMAP hm = Some (map snd kvs, hm') \<and> hm_rep B (n + 17) hm' kvs \<and> hm_cmp hm' = hm_cmp hm"
  unfolding LOOP_HASHMAP_def
  by (rule loop_reading_ok [OF assms]) (simp add: HashMapGetValue_def)

section \<open>Destroying\<close>

definition without_elems :: "addr set \<Rightarrow> ('k, 'v) HashMap \<Rightarrow> ('k, 'v) HashMap" where
  "without_elems A hm = hm\<lparr> hm_elem := (\<lambda>a. if a \<in> A then None else hm_elem hm a) \<rparr>"

lemma without_elems_simps [simp]:
  "hm_store (without_elems A hm) = hm_store hm" "hm_node (without_elems A hm) = hm_node hm"
  "hm_nodes (without_elems A hm) = hm_nodes hm" "without_elems {} hm = hm"
  "without_elems A (without_elems B hm) = without_elems (A \<union> B) hm"
  "hm_elem (without_elems A hm) a = (if a \<in> A then None else hm_elem hm a)"
  by (auto simp: without_elems_def fun_eq_iff intro!: arg_cong [of _ _ "\<lambda>f. hm_elem_update f hm"])

definition all_frees :: "('k \<times> 'v option) list \<Rightarrow> ('k, 'v) freed list" where
  "all_frees kvs = concat (map (\<lambda>(k, v). frees \<lparr> he_key = Some k, he_value = v \<rparr>) kvs)"

lemma free_elements_ok:
  "chain (st_node (hm_store hm)) l (map node_entry ts) None \<Longrightarrow> distinct (map elem_of ts) \<Longrightarrow>
   \<forall>t \<in> set ts. hm_elem hm (elem_of t) = Some \<lparr> he_key = Some (fst (pair_of t)), he_value = snd (pair_of t) \<rparr> \<Longrightarrow>
   free_elements deep hm (first_of (map node_entry ts) None) =
     Some (if deep then all_frees (map pair_of ts) else [], without_elems (set (map elem_of ts)) hm)"
proof (induction ts arbitrary: l hm)
  case Nil
  then show ?case by (simp add: free_elements.simps all_frees_def)
next
  case (Cons t ts)
  have ne: "node_entry t = (fst t, Some (elem_of t))" by (simp add: node_entry_def)
  let ?hm = "without_elems {elem_of t} hm"
  have "elem_of t \<notin> elem_of ` set ts" using Cons.prems(2) by simp
  then have other: "\<forall>u \<in> set ts. elem_of u \<noteq> elem_of t" by (metis imageI)
  have upd: "hm\<lparr> hm_elem := (hm_elem hm)(elem_of t := None) \<rparr> = ?hm"
    by (auto simp: without_elems_def fun_upd_def)
  have "free_elements deep ?hm (first_of (map node_entry ts) None) =
     Some (if deep then all_frees (map pair_of ts) else [], without_elems (set (map elem_of ts)) ?hm)"
    by (rule Cons.IH [of _ "Some (fst t)"]) (use Cons.prems other in \<open>simp_all add: ne\<close>)
  with Cons.prems show ?case
    by (subst free_elements.simps)
       (simp add: ne ListGetValue_def ListNext_def deref_def upd all_frees_def split_beta)
qed

lemma destroy_skip:
  assumes "al_ok B (hm_nodes hm) vs" "i < length vs" "vs ! i = None"
  shows "destroy_buckets deep hm \<lparr> it_target = True, it_position = int i \<rparr> =
    destroy_buckets deep hm \<lparr> it_target = True, it_position = int (Suc i) \<rparr>"
proof -
  have rep: "al_rep (hm_nodes hm) vs" using assms(1) by (simp add: al_ok_def)
  have "ArrayListGetValue (hm_nodes hm) \<lparr> it_target = True, it_position = int i \<rparr> = Some None"
    using al_read_rep [OF rep, of "int i"] assms(2,3) by (simp add: ArrayListGetValue_def)
  with assms(2) show ?thesis
    by (subst destroy_buckets.simps)
       (simp add: ArrayListIsEnd_at [OF rep] ArrayListNext_def bucket_list_def ListBegin_def ListDestroy_def
         free_elements.simps bind_eq_Some_conv split_beta add.commute cong: option.case_cong)
qed

lemma destroy_skips:
  assumes "al_ok B (hm_nodes hm) vs"
  shows "i \<le> e \<Longrightarrow> e \<le> length vs \<Longrightarrow> \<forall>j. i \<le> j \<longrightarrow> j < e \<longrightarrow> vs ! j = None \<Longrightarrow>
    destroy_buckets deep hm \<lparr> it_target = True, it_position = int i \<rparr> =
    destroy_buckets deep hm \<lparr> it_target = True, it_position = int e \<rparr>"
proof (induction "e - i" arbitrary: i)
  case (Suc k)
  have "destroy_buckets deep hm \<lparr> it_target = True, it_position = int i \<rparr> =
      destroy_buckets deep hm \<lparr> it_target = True, it_position = int (Suc i) \<rparr>"
    by (rule destroy_skip [OF assms]) (use Suc in auto)
  also have "\<dots> = destroy_buckets deep hm \<lparr> it_target = True, it_position = int e \<rparr>"
    by (rule Suc.hyps(1)) (use Suc in auto)
  finally show ?case .
qed simp

lemma destroy_stop:
  "al_ok B (hm_nodes hm) vs \<Longrightarrow>
   destroy_buckets deep hm \<lparr> it_target = True, it_position = int (length vs) \<rparr> = Some ([], hm)"
  by (subst destroy_buckets.simps) (simp add: ArrayListIsEnd_at [of _ vs] al_ok_def)

lemma destroy_map_ok:
  assumes r: "hm_rep B n hm kvs" and n: "0 < n"
  shows "\<exists>hm'. destroy_map deep hm = Some (if deep then all_frees kvs else [], hm') \<and>
    (\<forall>a. hm_elem hm' a = None) \<and> al_size (hm_nodes hm') = 0 \<and> al_alloc_size (hm_nodes hm') = 0"
proof -
  from r obtain bucket ts where e: "ents_rep B n hm bucket ts" "kvs = map pair_of ts" by (auto simp: hm_rep_def)
  then obtain vs where vs: "al_ok B (hm_nodes hm) vs" "length vs = n"
    "slot_of vs = (\<lambda>p. if p = 1000 then bucket else None)" by (auto simp: ents_rep_def slots_ok_def)
  have slot: "vs ! j = (if j = 1000 then bucket else None)" if "j < n" for j
    using fun_cong [OF vs(3), of "int j"] that vs(2) by (simp add: slot_of_def split: if_splits)
  let ?at = "\<lambda>i. \<lparr> it_target = True, it_position = int i \<rparr>"
  have start: "ArrayListBegin (Some (hm_nodes hm)) = ?at 0"
    using n vs by (simp add: ArrayListBegin_def al_ok_size)
  have finish: ?thesis if "destroy_buckets deep hm (?at 0) = Some (if deep then all_frees kvs else [], hm1)"
    "\<forall>a. hm_elem hm1 a = None" "hm_nodes hm1 = hm_nodes hm" for hm1
  proof -
    have "0 < al_alloc_size (hm_nodes hm)" using vs n by (cases vs) (auto simp: al_ok_def al_rep_def)
    with that start show ?thesis by (simp add: destroy_map_def ArrayListDestroy_def)
  qed
  show ?thesis
  proof (cases bucket)
    case None
    then have "ts = []" using e(1) by (simp add: ents_rep_def bucket_ok_def)
    then have "\<forall>a. hm_elem hm a = None" using e(1) by (auto simp: ents_rep_def elems_ok_def)
    moreover have "destroy_buckets deep hm (?at 0) = Some ([], hm)"
      using destroy_skips [OF vs(1), of 0 n] destroy_stop [OF vs(1)] slot vs(2) None by simp
    ultimately show ?thesis
      by (intro finish [of hm]) (simp_all add: e(2) \<open>ts = []\<close> all_frees_def)
  next
    case (Some c)
    then have n: "1000 < n" using slots_bucket [of B n hm bucket] e(1) by (fastforce simp: ents_rep_def)
    obtain l where l: "hm_node hm c = Some l" "list_at (hm_store hm) l (map node_entry ts)"
      using e(1) Some by (auto simp: ents_rep_def bucket_ok_def)
    have el: "elems_ok hm ts" using e(1) by (simp add: ents_rep_def)
    let ?E = "set (map elem_of ts)"
    have free: "free_elements deep hm (ListBegin (Some l)) =
        Some (if deep then all_frees kvs else [], without_elems ?E hm)"
      using free_elements_ok [of hm None ts deep] l(2) el e(2) by (simp add: list_at_def ListBegin_def elems_ok_def)
    let ?s = "remove_nodes (addrs (map node_entry ts)) (hm_store hm)"
    let ?hm = "(without_elems ?E hm)\<lparr> hm_store := ?s, hm_node := (hm_node hm)(c := None) \<rparr>"
    have rep: "al_rep (hm_nodes hm) vs" using vs(1) by (simp add: al_ok_def)
    have "destroy_buckets deep ?hm (?at 1001) = Some ([], ?hm)"
      using destroy_skips [of B ?hm vs 1001 n deep] destroy_stop [of B ?hm vs deep] vs(1,2) slot n by simp
    moreover have "ArrayListGetValue (hm_nodes hm) (?at 1000) = Some (Some c)"
      using al_read_rep [OF rep, of 1000] slot [of 1000] n vs(2) Some by (simp add: ArrayListGetValue_def)
    ultimately have "destroy_buckets deep hm (?at 1000) = Some (if deep then all_frees kvs else [], ?hm)"
      using free l ListDestroy_ok [OF l(2)] n vs(2)
      by (subst destroy_buckets.simps)
         (simp add: ArrayListIsEnd_def ArrayListNext_def al_rep_size [OF rep] bucket_list_def)
    then have "destroy_buckets deep hm (?at 0) = Some (if deep then all_frees kvs else [], ?hm)"
      using destroy_skips [OF vs(1), of 0 1000 deep] slot vs(2) n by simp
    moreover have "\<forall>a. hm_elem ?hm a = None" using el by (auto simp: elems_ok_def)
    ultimately show ?thesis by (intro finish [of ?hm]) simp_all
  qed
qed

section \<open>Session tables\<close>

text \<open>
  What validator.c uses a hash map for: a table from process ids to sessions, through the macros
  HashMapGetV, HashMapSetV, HashMapRemoveV and LOOP_HASHMAP. The locale is the contract: the table
  is an association list in insertion order with distinct keys; \<open>rep N s kvs\<close> allows for \<open>N\<close>
  positions in the array of buckets, which every loop over the table extends.
\<close>

locale session_table =
  fixes get :: "'s \<Rightarrow> int \<Rightarrow> ('v option \<times> 's) option"
    and put :: "'s \<Rightarrow> int \<Rightarrow> 'v \<Rightarrow> 's option"
    and del :: "'s \<Rightarrow> int \<Rightarrow> 's option"
    and vals :: "'s \<Rightarrow> ('v list \<times> 's) option"
    and rep :: "nat \<Rightarrow> 's \<Rightarrow> (int \<times> 'v) list \<Rightarrow> bool"
  assumes get_law: "rep N s kvs \<Longrightarrow> \<exists>s'. get s k = Some (map_of kvs k, s') \<and> rep N s' kvs"
    and put_law: "rep N s kvs \<Longrightarrow>
      \<exists>s'. put s k v = Some s' \<and> rep N s' (filter (\<lambda>kv. fst kv \<noteq> k) kvs @ [(k, v)])"
    and del_law: "rep N s kvs \<Longrightarrow> \<exists>s'. del s k = Some s' \<and> rep N s' (filter (\<lambda>kv. fst kv \<noteq> k) kvs)"
    and vals_law: "rep N s kvs \<Longrightarrow> N + 47 \<le> 2 ^ 24 \<Longrightarrow>
      \<exists>s'. vals s = Some (map snd kvs, s') \<and> rep (N + 17) s' kvs"
    and keys_law: "rep N s kvs \<Longrightarrow> distinct (map fst kvs)"

datatype 'v table_op = TGet int | TPut int 'v | TDel int | TVals

fun table_step ::
  "('s \<Rightarrow> int \<Rightarrow> ('v option \<times> 's) option) \<Rightarrow> ('s \<Rightarrow> int \<Rightarrow> 'v \<Rightarrow> 's option) \<Rightarrow> ('s \<Rightarrow> int \<Rightarrow> 's option)
    \<Rightarrow> ('s \<Rightarrow> ('v list \<times> 's) option) \<Rightarrow> 'v table_op \<Rightarrow> 's \<Rightarrow> ('v list \<times> 's) option" where
  "table_step get put del vals (TGet k) s = do {
     (v, s) \<leftarrow> get s k; Some (case v of None \<Rightarrow> [] | Some v \<Rightarrow> [v], s) }"
| "table_step get put del vals (TPut k v) s = do { s \<leftarrow> put s k v; Some ([], s) }"
| "table_step get put del vals (TDel k) s = do { s \<leftarrow> del s k; Some ([], s) }"
| "table_step get put del vals TVals s = vals s"

fun table_run ::
  "('v table_op \<Rightarrow> 's \<Rightarrow> ('v list \<times> 's) option) \<Rightarrow> 'v table_op list \<Rightarrow> 's \<Rightarrow> ('v list list \<times> 's) option" where
  "table_run step [] s = Some ([], s)"
| "table_run step (c # cs) s = do { (out, s) \<leftarrow> step c s; (outs, s) \<leftarrow> table_run step cs s; Some (out # outs, s) }"

fun assoc_step :: "'v table_op \<Rightarrow> (int \<times> 'v) list \<Rightarrow> 'v list \<times> (int \<times> 'v) list" where
  "assoc_step (TGet k) kvs = (case map_of kvs k of None \<Rightarrow> [] | Some v \<Rightarrow> [v], kvs)"
| "assoc_step (TPut k v) kvs = ([], filter (\<lambda>kv. fst kv \<noteq> k) kvs @ [(k, v)])"
| "assoc_step (TDel k) kvs = ([], filter (\<lambda>kv. fst kv \<noteq> k) kvs)"
| "assoc_step TVals kvs = (map snd kvs, kvs)"

fun assoc_run :: "'v table_op list \<Rightarrow> (int \<times> 'v) list \<Rightarrow> 'v list list \<times> (int \<times> 'v) list" where
  "assoc_run [] kvs = ([], kvs)"
| "assoc_run (c # cs) kvs =
     (let (out, kvs) = assoc_step c kvs; (outs, kvs) = assoc_run cs kvs in (out # outs, kvs))"

definition loops :: "'v table_op list \<Rightarrow> nat" where
  "loops cs = length (filter (\<lambda>c. c = TVals) cs)"

lemma loops_Cons: "loops (c # cs) = (if c = TVals then Suc (loops cs) else loops cs)"
  by (simp add: loops_def)

context session_table
begin

lemma run_ok:
  "rep N s kvs \<Longrightarrow> N + 17 * loops cs + 30 \<le> 2 ^ 24 \<Longrightarrow>
   \<exists>s'. table_run (table_step get put del vals) cs s = Some (fst (assoc_run cs kvs), s') \<and>
     rep (N + 17 * loops cs) s' (snd (assoc_run cs kvs))"
proof (induction cs arbitrary: N s kvs)
  case Nil
  then show ?case by (simp add: loops_def)
next
  case (Cons c cs)
  let ?N = "N + (if c = TVals then 17 else 0)"
  have "\<exists>s1. table_step get put del vals c s = Some (fst (assoc_step c kvs), s1) \<and> rep ?N s1 (snd (assoc_step c kvs))"
  proof (cases c)
    case (TGet k)
    with get_law [OF Cons.prems(1), of k] show ?thesis by auto
  next
    case (TPut k v)
    with put_law [OF Cons.prems(1), of k v] show ?thesis by auto
  next
    case (TDel k)
    with del_law [OF Cons.prems(1), of k] show ?thesis by auto
  next
    case TVals
    with vals_law [OF Cons.prems(1)] Cons.prems(2) show ?thesis by (auto simp: loops_Cons)
  qed
  then obtain s1 where s1: "table_step get put del vals c s = Some (fst (assoc_step c kvs), s1)"
    "rep ?N s1 (snd (assoc_step c kvs))" by blast
  have N: "?N + 17 * loops cs = N + 17 * loops (c # cs)" by (simp add: loops_Cons)
  with Cons.IH [OF s1(2)] Cons.prems(2) s1(1) show ?case by (auto split: prod.splits)
qed

lemma get_after_put:
  assumes "rep N s kvs"
  shows "\<exists>s' s''. put s k v = Some s' \<and> get s' k' = Some (if k' = k then Some v else map_of kvs k', s'')"
proof -
  obtain s' where s': "put s k v = Some s'" "rep N s' (filter (\<lambda>kv. fst kv \<noteq> k) kvs @ [(k, v)])"
    using put_law [OF assms] by blast
  have "map_of (filter (\<lambda>kv. fst kv \<noteq> k) kvs @ [(k, v)]) k' = (if k' = k then Some v else map_of kvs k')"
    by (induction kvs) auto
  with get_law [OF s'(2), of k'] s'(1) show ?thesis by auto
qed

end

text \<open>The tables of validator.c: keys are process ids, hashed and compared as ints.\<close>

definition int_bytes :: "int \<Rightarrow> int list" where
  "int_bytes x = map (\<lambda>i. signed_take_bit 7 (drop_bit (8 * i) x)) [0..<4]"

lemma key_ok_pid: "key_ok 4 (int_bytes pid)"
  using signed_take_bit_int_greater_eq_minus_exp [of 7] signed_take_bit_int_less_exp [of 7]
  by (auto simp: key_ok_def byte_list_def int_bytes_def)

definition pid_get :: "(int, 'v) HashMap \<Rightarrow> int \<Rightarrow> ('v option \<times> (int, 'v) HashMap) option" where
  "pid_get hm pid = HashMapGet int_bytes hm 4 (Some pid)"

definition pid_put :: "(int, 'v) HashMap \<Rightarrow> int \<Rightarrow> 'v \<Rightarrow> (int, 'v) HashMap option" where
  "pid_put hm pid v = map_option snd (HashMapSetDeep int_bytes hm 4 (Some pid) (Some v))"

definition pid_del :: "(int, 'v) HashMap \<Rightarrow> int \<Rightarrow> (int, 'v) HashMap option" where
  "pid_del hm pid = map_option snd (HashMapRemoveDeep int_bytes hm 4 (Some pid))"

definition pid_vals :: "(int, 'v) HashMap \<Rightarrow> ('v list \<times> (int, 'v) HashMap) option" where
  "pid_vals hm = do { (vs, hm) \<leftarrow> LOOP_HASHMAP hm; Some (map the vs, hm) }"

definition pid_cmp :: "int \<Rightarrow> int \<Rightarrow> int" where
  "pid_cmp = HashMapIntCmp id"

definition pid_rep :: "nat \<Rightarrow> (int, 'v) HashMap \<Rightarrow> (int \<times> 'v) list \<Rightarrow> bool" where
  "pid_rep N hm kvs \<longleftrightarrow> (\<exists>n \<le> N. hm_rep (2 ^ 24) n hm (map (\<lambda>(k, v). (k, Some v)) kvs)) \<and>
     1017 \<le> N \<and> hm_cmp hm = pid_cmp \<and> distinct (map fst kvs)"

lemma accepts_key_pid: "accepts_key pid_cmp k kv \<longleftrightarrow> fst kv = k"
  by (simp add: accepts_key_def HashMapIntCmp_def pid_cmp_def)

lemma lookup_pid: "lookup pid_cmp k (map (\<lambda>(k, v). (k, Some v)) kvs) = map_of kvs k"
  by (induction kvs) (auto simp: lookup_def accepts_key_pid)

lemma delete_pid:
  "distinct (map fst kvs) \<Longrightarrow> delete pid_cmp k (map (\<lambda>(k, v). (k, Some v)) kvs) =
   map (\<lambda>(k, v). (k, Some v)) (filter (\<lambda>kv. fst kv \<noteq> k) kvs)"
proof (induction kvs)
  case (Cons kv kvs)
  obtain a b where kv: "kv = (a, b)" by force
  have "filter (\<lambda>kv. fst kv \<noteq> k) kvs = kvs" if "a = k"
    using Cons.prems that kv by (intro filter_True) force
  with Cons kv show ?case by (simp add: delete_def accepts_key_pid)
qed (simp add: delete_def)

lemma reached_le: "n \<le> N \<Longrightarrow> 1017 \<le> N \<Longrightarrow> reached n \<le> N"
  by (simp add: reached_def)

interpretation pids: session_table pid_get pid_put pid_del pid_vals pid_rep
proof unfold_locales
  fix N k and hm :: "(int, 'v) HashMap" and kvs
  assume r: "pid_rep N hm kvs"
  then obtain n where n: "n \<le> N" "1017 \<le> N" "hm_rep (2 ^ 24) n hm (map (\<lambda>(k, v). (k, Some v)) kvs)"
    "hm_cmp hm = pid_cmp" "distinct (map fst kvs)" by (auto simp: pid_rep_def)
  note le = reached_le [OF n(1,2)]
  from n(5) show "distinct (map fst kvs)" .
  from HashMapGet_ok [where bytes = int_bytes and key = k, OF n(3) _ key_ok_pid] n le
  show "\<exists>hm'. pid_get hm k = Some (map_of kvs k, hm') \<and> pid_rep N hm' kvs"
    by (auto simp: pid_get_def pid_rep_def lookup_pid)
  have f: "distinct (map fst (filter (\<lambda>kv. fst kv \<noteq> k) kvs))" using n(5) by (simp add: distinct_map_filter)
  from removal_ok [where bytes = int_bytes and key = k, OF n(3) _ key_ok_pid] n le f
  show "\<exists>hm'. pid_del hm k = Some hm' \<and> pid_rep N hm' (filter (\<lambda>kv. fst kv \<noteq> k) kvs)"
    by (auto simp: pid_del_def pid_rep_def delete_pid)
  show "\<exists>hm'. pid_put hm k v = Some hm' \<and> pid_rep N hm' (filter (\<lambda>kv. fst kv \<noteq> k) kvs @ [(k, v)])" for v
    using HashMapSet_ok [where bytes = int_bytes and key = k, OF n(3) _ key_ok_pid, of "Some v"] n le f
    by (auto simp: pid_put_def pid_rep_def insert_pair_def delete_pid)
next
  fix N and hm :: "(int, 'v) HashMap" and kvs
  assume r: "pid_rep N hm kvs" and N: "N + 47 \<le> 2 ^ 24"
  then obtain n where n: "n \<le> N" "1017 \<le> N" "hm_rep (2 ^ 24) n hm (map (\<lambda>(k, v). (k, Some v)) kvs)"
    "hm_cmp hm = pid_cmp" "distinct (map fst kvs)" by (auto simp: pid_rep_def)
  have "map the (map snd (map (\<lambda>(k, v). (k, Some v)) kvs)) = map snd kvs" by (simp add: split_beta)
  moreover have "int n + 47 \<le> 2 ^ 24" using n(1) N by simp
  from LOOP_HASHMAP_ok [OF n(3) this] obtain hm' where
    "LOOP_HASHMAP hm = Some (map snd (map (\<lambda>(k, v). (k, Some v)) kvs), hm')"
    "hm_rep (2 ^ 24) (n + 17) hm' (map (\<lambda>(k, v). (k, Some v)) kvs)" "hm_cmp hm' = hm_cmp hm" by blast
  moreover from this(2,3) n have "pid_rep (N + 17) hm' kvs"
    unfolding pid_rep_def by (intro conjI exI [of _ "n + 17"]) simp_all
  ultimately show "\<exists>hm'. pid_vals hm = Some (map snd kvs, hm') \<and> pid_rep (N + 17) hm' kvs"
    by (simp add: pid_vals_def split_beta comp_def)
qed

section \<open>The properties\<close>

lemma pid_rep_New: "\<exists>hm :: (int, 'v) HashMap. HashMapNew pid_cmp = Some hm \<and> pid_rep 1017 hm []"
proof -
  have "130 \<le> (2 ^ 24 :: int)" "(2 ^ 24 :: int) < 2 ^ 25" by simp_all
  from HashMapNew_ok [OF this, of pid_cmp] obtain hm :: "(int, 'v) HashMap" where
    "HashMapNew pid_cmp = Some hm" "hm_cmp hm = pid_cmp" "hm_rep (2 ^ 24) 100 hm []" by blast
  then show ?thesis unfolding pid_rep_def by (intro exI [of _ hm] conjI exI [of _ 100]) simp_all
qed

text \<open>
  C29: the session tables of validator.c. On a new map keyed by process ids, any sequence of
  HashMapGetV, HashMapSetV (HashMapSetDeep), HashMapRemoveV (HashMapRemoveDeep) and complete
  LOOP_HASHMAP traversals runs without undefined behaviour, every loop ends, and each call gives
  exactly what an association list with distinct keys gives: the last value put under the key, no
  value once the key is removed, and all values in the order they were put. The bound is on the
  number of complete traversals, each of which extends the array of buckets.
\<close>
theorem HashMap_session_table:
  fixes cs :: "'v table_op list"
  assumes "17 * loops cs + 1047 \<le> 2 ^ 24"
  shows "\<exists>hm hm'. HashMapNew pid_cmp = Some hm \<and>
    table_run (table_step pid_get pid_put pid_del pid_vals) cs hm = Some (fst (assoc_run cs []), hm')"
proof -
  obtain hm :: "(int, 'v) HashMap" where hm: "HashMapNew pid_cmp = Some hm" "pid_rep 1017 hm []"
    using pid_rep_New by blast
  from pids.run_ok [OF hm(2), of cs] assms hm(1) show ?thesis by (auto simp: add.commute)
qed

theorem HashMap_session_table_witness:
  "\<exists>hm hm'. HashMapNew pid_cmp = Some hm \<and>
    table_run (table_step pid_get pid_put pid_del pid_vals)
      [TPut 7 (1 :: nat), TPut (-3) 2, TPut 7 5, TVals, TGet 7, TDel 7, TGet 7, TVals] hm =
    Some ([[], [], [], [2, 5], [5], [], [], [2]], hm')"
  using HashMap_session_table [of "[TPut 7 (1 :: nat), TPut (-3) 2, TPut 7 5, TVals, TGet 7, TDel 7, TGet 7, TVals]"]
  by (simp add: loops_def)

text \<open>\<open>k\<close> complete traversals, with the values each one sees.\<close>

fun traversals :: "nat \<Rightarrow> ('k, 'v) HashMap \<Rightarrow> ('v option list list \<times> ('k, 'v) HashMap) option" where
  "traversals 0 hm = Some ([], hm)"
| "traversals (Suc k) hm = do {
     (vs, hm) \<leftarrow> LOOP_HASHMAP hm; (vss, hm) \<leftarrow> traversals k hm; Some (vs # vss, hm) }"

text \<open>
  Every complete LOOP_HASHMAP visits the values of all entries in insertion order, but, by asking
  ArrayListGetValueAt for the position behind the last, leaves the array of buckets 17 positions
  longer than before: \<open>k\<close> traversals of a map with \<open>n\<close> positions leave \<open>n + 17 * k\<close>.
\<close>
theorem HashMap_traversal_grows:
  assumes "hm_rep B n hm kvs" and "int n + 17 * int k + 30 \<le> B"
  shows "\<exists>hm'. traversals k hm = Some (replicate k (map snd kvs), hm') \<and>
    ArrayListSize (Some (hm_nodes hm')) = int (n + 17 * k)"
proof -
  have "\<exists>hm'. traversals k hm = Some (replicate k (map snd kvs), hm') \<and> hm_rep B (n + 17 * k) hm' kvs"
    using assms
  proof (induction k arbitrary: hm n)
    case (Suc k)
    then obtain hm1 where hm1: "LOOP_HASHMAP hm = Some (map snd kvs, hm1)" "hm_rep B (n + 17) hm1 kvs"
      using LOOP_HASHMAP_ok [OF Suc.prems(1)] by auto
    have "n + 17 + 17 * k = n + 17 * Suc k" by simp
    with Suc.IH [OF hm1(2)] Suc.prems(2) hm1(1) show ?case by auto
  qed simp
  then show ?thesis using slots_size by (fastforce simp: hm_rep_def ents_rep_def)
qed

theorem HashMap_traversal_grows_witness:
  "\<exists>(hm :: (int, nat) HashMap) hm'. HashMapNew pid_cmp = Some hm \<and>
    traversals 10 hm = Some (replicate 10 [], hm') \<and> ArrayListSize (Some (hm_nodes hm')) = 270"
proof -
  from HashMapNew_ok [of "2 ^ 24" pid_cmp] obtain hm :: "(int, nat) HashMap" where
    "HashMapNew pid_cmp = Some hm" "hm_rep (2 ^ 24) 100 hm []" by auto
  moreover from HashMap_traversal_grows [OF this(2), of 10] obtain hm' where
    "traversals 10 hm = Some (replicate 10 [], hm')" "ArrayListSize (Some (hm_nodes hm')) = 270" by auto
  ultimately show ?thesis by blast
qed

text \<open>
  C30: HashMapDestroyDeep of a map that holds the pairs \<open>kvs\<close> frees the value and the key of every pair
  exactly once, in order, frees every element the map allocated and leaves its array of buckets empty;
  HashMapDestroy does the same without freeing keys and values.
\<close>
theorem HashMapDestroyDeep_frees_all:
  assumes "hm_rep B n hm kvs" and "0 < n"
  shows "(\<exists>hm'. HashMapDestroyDeep hm =
      Some (concat (map (\<lambda>(k, v). (case v of None \<Rightarrow> [] | Some v \<Rightarrow> [FreedValue v]) @ [FreedKey k]) kvs), hm') \<and>
      (\<forall>a. hm_elem hm' a = None) \<and> al_alloc_size (hm_nodes hm') = 0) \<and>
    (\<exists>hm'. HashMapDestroy hm = Some hm' \<and> (\<forall>a. hm_elem hm' a = None) \<and> al_alloc_size (hm_nodes hm') = 0)"
  using destroy_map_ok [OF assms, of True] destroy_map_ok [OF assms, of False]
  by (auto simp: HashMapDestroyDeep_def HashMapDestroy_def all_frees_def frees_def)

theorem HashMapDestroyDeep_frees_all_witness:
  "\<exists>hm hm1 hm2. HashMapNew pid_cmp = Some hm \<and> pid_put hm 7 (1 :: nat) = Some hm1 \<and>
     HashMapDestroyDeep hm1 = Some ([FreedValue 1, FreedKey 7], hm2) \<and> (\<forall>a. hm_elem hm2 a = None)"
proof -
  obtain hm :: "(int, nat) HashMap" where hm: "HashMapNew pid_cmp = Some hm" "pid_rep 1017 hm []"
    using pid_rep_New by blast
  from pids.put_law [OF hm(2), of 7 1] obtain hm1 where
    hm1: "pid_put hm 7 1 = Some hm1" "pid_rep 1017 hm1 [(7, 1)]" by auto
  then obtain n where n: "hm_rep (2 ^ 24) n hm1 [(7, Some 1)]" by (auto simp: pid_rep_def)
  then have "0 < n" using slots_bucket by (cases n) (fastforce simp: hm_rep_def ents_rep_def bucket_ok_def)+
  with HashMapDestroyDeep_frees_all [OF n] hm(1) hm1(1) show ?thesis by auto
qed

text \<open>
  Whatever the key (any number of bytes, signed as a \<open>char\<close> is), HashMapCalcHash runs without
  signed overflow and returns 1000: the line that overrides the computed hash puts every entry into
  one bucket.
\<close>
theorem HashMapCalcHash_constant:
  assumes "\<forall>b \<in> set bytes. -128 \<le> b \<and> b < 128" and "0 \<le> key_size" and "key_size \<le> int (length bytes)"
  shows "HashMapCalcHash key_size bytes = Some 1000"
  by (rule HashMapCalcHash_ok) (use assms in \<open>simp add: key_ok_def byte_list_def\<close>)

theorem HashMapCalcHash_constant_witness:
  "HashMapCalcHash 4 [127, -128, 5, 0] = Some 1000"
  by (rule HashMapCalcHash_constant) simp_all

end
