(* ===== verification/MsgPipe.thy ===== *)
theory MsgPipe
  imports CText
begin

text \<open>
  The pipes of msg_pipe.h over a model of the descriptors of the process: which descriptors are
  open, as the reading or the writing end of which pipe, and the bytes in each pipe.

  A call of syserr ends the process with code -1, so a function that can reach one has a result
  \<open>stop + 'a\<close>. The garbage collector hooks GC_NEW and GC_DEL are the subject of GC.thy.
  The fields of a \<open>MsgPipe\<close> that msgPipeOpen leaves unwritten when the identifier is not good
  are never read, since every operation looks at \<open>good\<close> first.
\<close>

section \<open>Descriptors\<close>

datatype pipe_end = ReadEnd nat | WriteEnd nat

text \<open>
  \<open>k_capacity\<close> is how many bytes a pipe holds: a writer of more waits for the reader, so one read
  finds at most that many. Written bytes that still wait for room are kept behind those in the pipe.
\<close>

record descriptors =
  k_open :: "(int \<times> pipe_end) list"
  k_data :: "nat \<Rightarrow> string"
  k_capacity :: nat
  k_next_pipe :: nat
  k_next_fd :: int

text \<open>\<open>pipe(fds)\<close>, which fails when the process or the system is out of descriptors.\<close>

definition sys_pipe :: "bool \<Rightarrow> descriptors \<Rightarrow> (int \<times> int \<times> descriptors) option" where
  "sys_pipe available k =
     (if available then
        (let r = k_next_fd k; w = r + 1; p = k_next_pipe k in
         Some (r, w, k\<lparr> k_open := (r, ReadEnd p) # (w, WriteEnd p) # k_open k,
                        k_data := (k_data k)(p := []), k_next_pipe := Suc p, k_next_fd := r + 2 \<rparr>))
      else None)"

text \<open>\<open>close(fd)\<close>, which fails for a descriptor that is not open.\<close>

definition sys_close :: "int \<Rightarrow> descriptors \<Rightarrow> descriptors option" where
  "sys_close fd k = (if map_of (k_open k) fd = None then None
      else Some (k\<lparr> k_open := filter (\<lambda>e. fst e \<noteq> fd) (k_open k) \<rparr>))"

text \<open>
  \<open>read(fd, buff, n)\<close> delivers what is there, at most \<open>n\<close> bytes; on an empty pipe with a writer
  it waits, which is the inner \<open>None\<close>, and without a writer it delivers nothing.
\<close>

definition has_writer :: "descriptors \<Rightarrow> nat \<Rightarrow> bool" where
  "has_writer k p = list_ex (\<lambda>(fd, e). e = WriteEnd p) (k_open k)"

definition sys_read :: "int \<Rightarrow> nat \<Rightarrow> descriptors \<Rightarrow> (string \<times> descriptors) option option" where
  "sys_read fd n k = (case map_of (k_open k) fd of
     Some (ReadEnd p) \<Rightarrow>
       (if k_data k p = [] \<and> has_writer k p then Some None
        else (let m = min n (k_capacity k) in
              Some (Some (take m (k_data k p), k\<lparr> k_data := (k_data k)(p := drop m (k_data k p)) \<rparr>))))
   | _ \<Rightarrow> None)"

definition sys_write :: "int \<Rightarrow> string \<Rightarrow> descriptors \<Rightarrow> descriptors option" where
  "sys_write fd s k = (case map_of (k_open k) fd of
     Some (WriteEnd p) \<Rightarrow> Some (k\<lparr> k_data := (k_data k)(p := k_data k p @ s) \<rparr>)
   | _ \<Rightarrow> None)"

section \<open>Identifiers\<close>

record MsgPipeID =
  id_read :: int
  id_write :: int
  id_good :: bool
  id_buff_size :: int

definition msgPipeCreate :: "bool \<Rightarrow> int \<Rightarrow> descriptors \<Rightarrow> stop + (MsgPipeID \<times> descriptors)" where
  "msgPipeCreate available msg_size k = (case sys_pipe available k of
     None \<Rightarrow> Inl (Exited (-1))
   | Some (r, w, k) \<Rightarrow>
       Inr (\<lparr> id_read = r, id_write = w, id_good = True, id_buff_size = msg_size + 7 \<rparr>, k))"

definition msgPipeIDToStr :: "MsgPipeID \<Rightarrow> int \<times> string" where
  "msgPipeIDToStr msgpid =
     (if \<not> id_good msgpid then (-1, [])
      else (1, sprintf ''p%d@%d[%d]'' [AInt (id_read msgpid), AInt (id_write msgpid), AInt (id_buff_size msgpid)]))"

definition msgPipeIsGoodID :: "MsgPipeID \<Rightarrow> bool" where
  "msgPipeIsGoodID msgpid = id_good msgpid"

text \<open>A text that does not match ends the process, so the assignment of 0 to \<open>good\<close> is not reached.\<close>

definition msgPipeIDFromStr :: "string option \<Rightarrow> stop + MsgPipeID" where
  "msgPipeIDFromStr in_p = (case in_p of
     None \<Rightarrow> Inl (Exited (-1))
   | Some s \<Rightarrow>
       (let (r, as) = sscanf ''p%d@%d[%d]'' s in
        if r = 0 then Inl (Exited (-1))
        else Inr \<lparr> id_read = the (got_int as 0 (Some (-1))), id_write = the (got_int as 1 (Some (-1))),
                   id_good = True, id_buff_size = the (got_int as 2 (Some (-1))) \<rparr>))"

section \<open>Pipes\<close>

record MsgPipe =
  mp_read :: int
  mp_write :: int
  mp_good :: bool
  mp_buff :: "string option"
  mp_buff_size :: int
  mp_opened_read :: bool
  mp_opened_write :: bool

text \<open>The buffer comes zeroed from MALLOCATE_ARRAY, which ends the process for a negative size.\<close>

definition msgPipeOpen :: "MsgPipeID \<Rightarrow> stop + MsgPipe" where
  "msgPipeOpen msgp_src =
     (if id_good msgp_src then
        (if id_buff_size msgp_src < 0 then Inl (Exited (-1))
         else Inr \<lparr> mp_read = id_read msgp_src, mp_write = id_write msgp_src, mp_good = True,
                mp_buff = Some [], mp_buff_size = id_buff_size msgp_src,
                mp_opened_read = True, mp_opened_write = True \<rparr>)
      else Inr \<lparr> mp_read = 0, mp_write = 0, mp_good = False, mp_buff = None, mp_buff_size = 0,
                 mp_opened_read = False, mp_opened_write = False \<rparr>)"

definition msgPipeCloseRead :: "MsgPipe \<Rightarrow> descriptors \<Rightarrow> stop + (int \<times> MsgPipe \<times> descriptors)" where
  "msgPipeCloseRead msgp k =
     (if \<not> mp_good msgp \<or> \<not> mp_opened_read msgp then Inr (-1, msgp, k)
      else case sys_close (mp_read msgp) k of
        None \<Rightarrow> Inl (Exited (-1))
      | Some k \<Rightarrow> Inr (1, msgp\<lparr> mp_opened_read := False \<rparr>, k))"

definition msgPipeCloseWrite :: "MsgPipe \<Rightarrow> descriptors \<Rightarrow> stop + (int \<times> MsgPipe \<times> descriptors)" where
  "msgPipeCloseWrite msgp k =
     (if \<not> mp_good msgp \<or> \<not> mp_opened_write msgp then Inr (-1, msgp, k)
      else case sys_close (mp_write msgp) k of
        None \<Rightarrow> Inl (Exited (-1))
      | Some k \<Rightarrow> Inr (1, msgp\<lparr> mp_opened_write := False \<rparr>, k))"

definition msgPipeAbandon :: "MsgPipe \<Rightarrow> int \<times> MsgPipe" where
  "msgPipeAbandon msgp =
     (if \<not> mp_good msgp then (-1, msgp)
      else (1, msgp\<lparr> mp_buff := None, mp_buff_size := 0, mp_good := False \<rparr>))"

definition msgPipeClose :: "MsgPipe \<Rightarrow> descriptors \<Rightarrow> stop + (int \<times> MsgPipe \<times> descriptors)" where
  "msgPipeClose msgp k =
     (if \<not> mp_good msgp then Inr (-1, msgp, k)
      else case msgPipeCloseRead msgp k of
        Inl e \<Rightarrow> Inl e
      | Inr (_, msgp, k) \<Rightarrow>
          (case msgPipeCloseWrite msgp k of
             Inl e \<Rightarrow> Inl e
           | Inr (_, msgp, k) \<Rightarrow> (let (r, msgp) = msgPipeAbandon msgp in Inr (r, msgp, k))))"

definition MsgPipeDestructor :: "MsgPipe \<Rightarrow> descriptors \<Rightarrow> stop + (MsgPipe \<times> descriptors)" where
  "MsgPipeDestructor ptr k = and_then (msgPipeClose ptr k) (\<lambda>(_, ptr, k). Inr (ptr, k))"

section \<open>Reading and writing\<close>

text \<open>
  \<open>Inr None\<close> is a call that waits for data. A read of no bytes, at the end of the data, is treated
  as an error and ends the process.
\<close>

definition msgPipeRead ::
  "MsgPipe \<Rightarrow> descriptors \<Rightarrow> stop + (string option \<times> MsgPipe \<times> descriptors) option" where
  "msgPipeRead msgp k =
     (if \<not> mp_good msgp \<or> \<not> mp_opened_read msgp then Inr (Some (None, msgp, k))
      else if mp_buff_size msgp < 1 then Inl Undefined
      else case sys_read (mp_read msgp) (nat (mp_buff_size msgp - 1)) k of
        None \<Rightarrow> Inl (Exited (-1))
      | Some None \<Rightarrow> Inr None
      | Some (Some (s, k)) \<Rightarrow>
          if s = [] then Inl (Exited (-1))
          else Inr (Some (Some s, msgp\<lparr> mp_buff := Some s \<rparr>, k)))"

definition msgPipeReadf ::
  "string \<Rightarrow> MsgPipe \<Rightarrow> descriptors \<Rightarrow> stop + (int \<times> arg list \<times> MsgPipe \<times> descriptors) option" where
  "msgPipeReadf format msgp k =
     (if \<not> mp_good msgp \<or> \<not> mp_opened_read msgp then Inr (Some (-1, [], msgp, k))
      else case msgPipeRead msgp k of
        Inl e \<Rightarrow> Inl e
      | Inr None \<Rightarrow> Inr None
      | Inr (Some (None, msgp, k)) \<Rightarrow> Inr (Some (-1, [], msgp, k))
      | Inr (Some (Some rcvMessage, msgp, k)) \<Rightarrow>
          (let (resultCode, as) = sscanf format rcvMessage in Inr (Some (resultCode, as, msgp, k))))"

definition msgPipeWrite :: "MsgPipe \<Rightarrow> string \<Rightarrow> descriptors \<Rightarrow> stop + (int \<times> descriptors)" where
  "msgPipeWrite msgp message k =
     (if \<not> mp_good msgp \<or> \<not> mp_opened_write msgp then Inr (-1, k)
      else case sys_write (mp_write msgp) message k of
        None \<Rightarrow> Inl (Exited (-1))
      | Some k \<Rightarrow> Inr (1, k))"

text \<open>\<open>vsprintf\<close> writes the terminator too, into an array of \<open>buff_size + 7\<close> bytes.\<close>

definition msgPipeWritef ::
  "MsgPipe \<Rightarrow> string \<Rightarrow> arg list \<Rightarrow> descriptors \<Rightarrow> stop + (int \<times> descriptors)" where
  "msgPipeWritef msgp format args k =
     (if \<not> mp_good msgp \<or> \<not> mp_opened_write msgp then Inr (-1, k)
      else if int (length (sprintf format args)) + 1 \<le> mp_buff_size msgp + 7
      then msgPipeWrite msgp (sprintf format args) k else Inl Undefined)"

section \<open>Identifiers on a command line\<close>

lemma pipe_format:
  "parse_format ''p%d@%d[%d]'' = [Lit CHR ''p'', ConvInt, Lit CHR ''@'', ConvInt, Lit CHR ''['', ConvInt, Lit CHR '']'']"
  by code_simp

lemma read_written_id:
  assumes "id_good i" "in_int (id_read i)" "in_int (id_write i)" "in_int (id_buff_size i)"
  shows "msgPipeIDFromStr (Some (snd (msgPipeIDToStr i))) = Inr i"
proof -
  let ?ds = "parse_format ''p%d@%d[%d]''"
  let ?as = "[AInt (id_read i), AInt (id_write i), AInt (id_buff_size i)]"
  have "scannable ?ds ?as []" using assms(2-4) by (simp add: pipe_format)
  from sscan_sprint [OF this, of "[]"]
  have "sscanf ''p%d@%d[%d]'' (sprintf ''p%d@%d[%d]'' ?as) = (3, ?as)"
    by (simp add: sscanf_def sprintf_def)
  with assms(1) show ?thesis
    by (cases i) (simp add: msgPipeIDToStr_def msgPipeIDFromStr_def got_int_def)
qed

text \<open>
  The identifier of a pipe survives the trip through the command line of a worker: what
  msgPipeIDFromStr reads from the text of msgPipeIDToStr is the identifier itself.
\<close>

theorem msgPipeID_roundtrip:
  assumes "id_good i" "in_int (id_read i)" "in_int (id_write i)" "in_int (id_buff_size i)"
  shows "msgPipeIDFromStr (Some (snd (msgPipeIDToStr i))) = Inr i"
  using assms by (rule read_written_id)

theorem msgPipeID_roundtrip_witness:
  "msgPipeIDFromStr (Some (snd (msgPipeIDToStr
     \<lparr> id_read = 5, id_write = 6, id_good = True, id_buff_size = 3000014 \<rparr>))) =
   Inr \<lparr> id_read = 5, id_write = 6, id_good = True, id_buff_size = 3000014 \<rparr>"
  by (rule msgPipeID_roundtrip) (simp_all add: in_int_def)

section \<open>Closing\<close>

datatype close_op = CloseRead | CloseWrite | Abandon | Close

fun close_step :: "close_op \<Rightarrow> MsgPipe \<Rightarrow> descriptors \<Rightarrow> stop + (int \<times> MsgPipe \<times> descriptors)" where
  "close_step CloseRead m k = msgPipeCloseRead m k"
| "close_step CloseWrite m k = msgPipeCloseWrite m k"
| "close_step Abandon m k = (let (r, m) = msgPipeAbandon m in Inr (r, m, k))"
| "close_step Close m k = msgPipeClose m k"

fun close_run :: "close_op list \<Rightarrow> MsgPipe \<Rightarrow> descriptors \<Rightarrow> stop + (int list \<times> MsgPipe \<times> descriptors)" where
  "close_run [] m k = Inr ([], m, k)"
| "close_run (c # cs) m k = (case close_step c m k of
     Inl e \<Rightarrow> Inl e
   | Inr (r, m, k) \<Rightarrow>
       (case close_run cs m k of Inl e \<Rightarrow> Inl e | Inr (rs, m, k) \<Rightarrow> Inr (r # rs, m, k)))"

text \<open>
  \<open>pipe_inv k0 m k\<close>: since the pipe \<open>m\<close> was opened over the descriptors \<open>k0\<close>, exactly the ends
  that \<open>m\<close> does not call open have been closed.
\<close>

definition closed_ends :: "MsgPipe \<Rightarrow> int set" where
  "closed_ends m = (if mp_opened_read m then {} else {mp_read m}) \<union> (if mp_opened_write m then {} else {mp_write m})"

definition pipe_inv :: "descriptors \<Rightarrow> MsgPipe \<Rightarrow> descriptors \<Rightarrow> bool" where
  "pipe_inv k0 m k \<longleftrightarrow> mp_read m \<noteq> mp_write m \<and>
     map_of (k_open k0) (mp_read m) \<noteq> None \<and> map_of (k_open k0) (mp_write m) \<noteq> None \<and>
     k = k0\<lparr> k_open := filter (\<lambda>e. fst e \<notin> closed_ends m) (k_open k0) \<rparr>"

lemma pipe_inv_close:
  assumes "pipe_inv k0 m k"
  shows "mp_opened_read m \<Longrightarrow> \<exists>k'. sys_close (mp_read m) k = Some k' \<and> pipe_inv k0 (m\<lparr> mp_opened_read := False \<rparr>) k'"
    and "mp_opened_write m \<Longrightarrow> \<exists>k'. sys_close (mp_write m) k = Some k' \<and> pipe_inv k0 (m\<lparr> mp_opened_write := False \<rparr>) k'"
proof -
  have ne: "mp_read m \<noteq> mp_write m" using assms by (simp add: pipe_inv_def)
  have open_end: "map_of (k_open k) fd = map_of (k_open k0) fd" if "fd \<notin> closed_ends m" for fd
    using assms that map_of_filter_key [of "\<lambda>fd. fd \<notin> closed_ends m" "k_open k0" fd] by (simp add: pipe_inv_def)
  show "\<exists>k'. sys_close (mp_read m) k = Some k' \<and> pipe_inv k0 (m\<lparr> mp_opened_read := False \<rparr>) k'" if "mp_opened_read m"
  proof -
    have "mp_read m \<notin> closed_ends m" using that ne by (simp add: closed_ends_def)
    with open_end [of "mp_read m"] assms show ?thesis
      by (auto simp: sys_close_def pipe_inv_def closed_ends_def intro!: arg_cong [of _ _ "\<lambda>P. k0\<lparr> k_open := filter P (k_open k0) \<rparr>"])
  qed
  show "\<exists>k'. sys_close (mp_write m) k = Some k' \<and> pipe_inv k0 (m\<lparr> mp_opened_write := False \<rparr>) k'" if "mp_opened_write m"
  proof -
    have "mp_write m \<notin> closed_ends m" using that ne by (simp add: closed_ends_def)
    with open_end [of "mp_write m"] assms show ?thesis
      by (auto simp: sys_close_def pipe_inv_def closed_ends_def intro!: arg_cong [of _ _ "\<lambda>P. k0\<lparr> k_open := filter P (k_open k0) \<rparr>"])
  qed
qed

lemma closed_ends_simps [simp]:
  "closed_ends (m\<lparr> mp_buff := b \<rparr>) = closed_ends m" "closed_ends (m\<lparr> mp_buff_size := n \<rparr>) = closed_ends m"
  "closed_ends (m\<lparr> mp_good := g \<rparr>) = closed_ends m"
  by (simp_all add: closed_ends_def)

lemma pipe_inv_simps [simp]:
  "pipe_inv k0 (m\<lparr> mp_buff := b \<rparr>) k = pipe_inv k0 m k" "pipe_inv k0 (m\<lparr> mp_buff_size := n \<rparr>) k = pipe_inv k0 m k"
  "pipe_inv k0 (m\<lparr> mp_good := g \<rparr>) k = pipe_inv k0 m k"
  by (simp_all add: pipe_inv_def)

definition same_ends :: "MsgPipe \<Rightarrow> MsgPipe \<Rightarrow> bool" where
  "same_ends m m' \<longleftrightarrow> mp_read m' = mp_read m \<and> mp_write m' = mp_write m"

lemma msgPipeCloseRead_ok:
  assumes "pipe_inv k0 m k" "mp_good m"
  shows "\<exists>r m' k'. msgPipeCloseRead m k = Inr (r, m', k') \<and> pipe_inv k0 m' k' \<and> same_ends m m' \<and> mp_good m' \<and>
    \<not> mp_opened_read m' \<and> mp_opened_write m' = mp_opened_write m"
  using pipe_inv_close(1) [OF assms(1)] assms
  by (cases "mp_opened_read m") (auto simp: msgPipeCloseRead_def same_ends_def)

lemma msgPipeCloseWrite_ok:
  assumes "pipe_inv k0 m k" "mp_good m"
  shows "\<exists>r m' k'. msgPipeCloseWrite m k = Inr (r, m', k') \<and> pipe_inv k0 m' k' \<and> same_ends m m' \<and> mp_good m' \<and>
    \<not> mp_opened_write m' \<and> mp_opened_read m' = mp_opened_read m"
  using pipe_inv_close(2) [OF assms(1)] assms
  by (cases "mp_opened_write m") (auto simp: msgPipeCloseWrite_def same_ends_def)

lemma msgPipeClose_ok:
  assumes "pipe_inv k0 m k" "mp_good m"
  shows "\<exists>m' k'. msgPipeClose m k = Inr (1, m', k') \<and> pipe_inv k0 m' k' \<and> same_ends m m' \<and> \<not> mp_good m' \<and>
    \<not> mp_opened_read m' \<and> \<not> mp_opened_write m'"
proof -
  obtain r m1 k1 where 1: "msgPipeCloseRead m k = Inr (r, m1, k1)" "pipe_inv k0 m1 k1" "same_ends m m1" "mp_good m1"
    "\<not> mp_opened_read m1" using msgPipeCloseRead_ok [OF assms] by blast
  obtain r' m2 k2 where "msgPipeCloseWrite m1 k1 = Inr (r', m2, k2)" "pipe_inv k0 m2 k2" "same_ends m1 m2" "mp_good m2"
    "\<not> mp_opened_write m2" "mp_opened_read m2 = mp_opened_read m1" using msgPipeCloseWrite_ok [OF 1(2,4)] by blast
  with 1 assms(2) show ?thesis by (simp add: msgPipeClose_def msgPipeAbandon_def same_ends_def)
qed

lemma close_step_bad: "\<not> mp_good m \<Longrightarrow> close_step c m k = Inr (-1, m, k)"
  by (cases c) (simp_all add: msgPipeCloseRead_def msgPipeCloseWrite_def msgPipeAbandon_def msgPipeClose_def)

lemma close_run_bad: "\<not> mp_good m \<Longrightarrow> close_run cs m k = Inr (replicate (length cs) (-1), m, k)"
  by (induction cs) (simp_all add: close_step_bad)

lemma close_step_good:
  assumes "pipe_inv k0 m k" "mp_good m" "c \<noteq> Abandon"
  shows "\<exists>r m' k'. close_step c m k = Inr (r, m', k') \<and> pipe_inv k0 m' k' \<and> same_ends m m' \<and>
    (mp_good m' \<or> \<not> mp_opened_read m' \<and> \<not> mp_opened_write m')"
proof (cases c)
  case CloseRead
  with msgPipeCloseRead_ok [OF assms(1,2)] show ?thesis by auto
next
  case CloseWrite
  with msgPipeCloseWrite_ok [OF assms(1,2)] show ?thesis by auto
next
  case Close
  with msgPipeClose_ok [OF assms(1,2)] show ?thesis by auto
qed (use assms in simp)

lemma close_run_closes:
  "pipe_inv k0 m k \<Longrightarrow> mp_good m \<or> \<not> mp_opened_read m \<and> \<not> mp_opened_write m \<Longrightarrow> Abandon \<notin> set cs \<Longrightarrow>
   \<exists>rs m' k'. close_run (cs @ Close # ds) m k = Inr (rs, m', k') \<and> length rs = length cs + Suc (length ds) \<and>
     drop (Suc (length cs)) rs = replicate (length ds) (-1) \<and> pipe_inv k0 m' k' \<and> same_ends m m' \<and>
     \<not> mp_opened_read m' \<and> \<not> mp_opened_write m'"
proof (induction cs arbitrary: m k)
  case Nil
  show ?case
  proof (cases "mp_good m")
    case True
    with msgPipeClose_ok [OF Nil.prems(1)] show ?thesis by (auto simp: close_run_bad)
  next
    case False
    with Nil.prems show ?thesis by (auto simp: close_step_bad [where c = Close, simplified] close_run_bad same_ends_def)
  qed
next
  case (Cons c cs)
  show ?case
  proof (cases "mp_good m")
    case True
    obtain r m1 k1 where 1: "close_step c m k = Inr (r, m1, k1)" "pipe_inv k0 m1 k1" "same_ends m m1"
      "mp_good m1 \<or> \<not> mp_opened_read m1 \<and> \<not> mp_opened_write m1"
      using close_step_good [OF Cons.prems(1) True, of c] Cons.prems(3) by auto
    with Cons.IH [OF 1(2) 1(4)] Cons.prems(3) show ?thesis by (auto simp: same_ends_def)
  next
    case False
    with Cons.prems Cons.IH [of m k] show ?thesis by (auto simp: close_step_bad)
  qed
qed



section \<open>Transfer\<close>



end
