(* ===== verification/MsgQueue.thy ===== *)
theory MsgQueue
  imports CText
begin

text \<open>
  The message queues of msg_queue.h over a model of POSIX message queues: names, queues with their
  limits and contents, and descriptors. All messages are sent with the same priority, so a queue
  delivers them in the order they were sent.

  A call of syserr ends the process with code -1; a call that waits for room or for a message is
  \<open>None\<close> inside the result. Messages are texts, and their length counts the terminator, which is
  sent with them.
\<close>

definition MAX_MSG_QUEUE_NAME_SIZE :: nat where
  "MAX_MSG_QUEUE_NAME_SIZE = 50"

text \<open>The limits with which the three programs open their queues (automaton_config.h).\<close>

definition MSG_QUEUE_SIZE :: int where
  "MSG_QUEUE_SIZE = 10"

definition MSG_SIZE :: int where
  "MSG_SIZE = 1020"

lemmas msg_queue_config [config] = MAX_MSG_QUEUE_NAME_SIZE_def MSG_QUEUE_SIZE_def MSG_SIZE_def

section \<open>The queues of the system\<close>

record mq =
  mq_maxmsg :: nat
  mq_msgsize :: nat
  mq_msgs :: "string list"

record mq_system =
  sys_names :: "(string \<times> nat) list"
  sys_queue :: "nat \<Rightarrow> mq"
  sys_desc :: "(int \<times> nat \<times> bool) list"
  sys_next_queue :: nat
  sys_next_desc :: int

fun mq_name_ok :: "string \<Rightarrow> bool" where
  "mq_name_ok [] = False"
| "mq_name_ok (c # cs) = (c = CHR ''/'' \<and> cs \<noteq> [] \<and> CHR ''/'' \<notin> set cs)"

text \<open>\<open>mq_open\<close> with O_RDWR and O_CREAT; an existing queue keeps its limits.\<close>

definition sys_mq_open :: "bool \<Rightarrow> string \<Rightarrow> bool \<Rightarrow> nat \<Rightarrow> nat \<Rightarrow> mq_system \<Rightarrow> (int \<times> mq_system) option" where
  "sys_mq_open available name nonblocking maxmsg msgsize s =
     (if \<not> available \<or> \<not> mq_name_ok name then None
      else let d = sys_next_desc s in
        case map_of (sys_names s) name of
          Some i \<Rightarrow> Some (d, s\<lparr> sys_desc := (d, i, nonblocking) # sys_desc s, sys_next_desc := d + 1 \<rparr>)
        | None \<Rightarrow>
            (let i = sys_next_queue s in
             Some (d, s\<lparr> sys_names := (name, i) # sys_names s,
                        sys_queue := (sys_queue s)(i := \<lparr> mq_maxmsg = maxmsg, mq_msgsize = msgsize, mq_msgs = [] \<rparr>),
                        sys_desc := (d, i, nonblocking) # sys_desc s,
                        sys_next_queue := Suc i, sys_next_desc := d + 1 \<rparr>)))"

datatype 'a answer = Ok 'a | Again | Waits | Fails

definition sys_mq_send :: "int \<Rightarrow> string \<Rightarrow> mq_system \<Rightarrow> mq_system answer" where
  "sys_mq_send d msg s = (case map_of (sys_desc s) d of
     None \<Rightarrow> Fails
   | Some (i, nonblocking) \<Rightarrow>
       (let q = sys_queue s i in
        if mq_msgsize q < length msg + 1 then Fails
        else if mq_maxmsg q \<le> length (mq_msgs q) then (if nonblocking then Again else Waits)
        else Ok (s\<lparr> sys_queue := (sys_queue s)(i := q\<lparr> mq_msgs := mq_msgs q @ [msg] \<rparr>) \<rparr>)))"

definition sys_mq_receive :: "int \<Rightarrow> int \<Rightarrow> mq_system \<Rightarrow> (string \<times> mq_system) answer" where
  "sys_mq_receive d len s = (case map_of (sys_desc s) d of
     None \<Rightarrow> Fails
   | Some (i, nonblocking) \<Rightarrow>
       (let q = sys_queue s i in
        if len < int (mq_msgsize q) then Fails
        else case mq_msgs q of
          [] \<Rightarrow> (if nonblocking then Again else Waits)
        | m # ms \<Rightarrow> Ok (m, s\<lparr> sys_queue := (sys_queue s)(i := q\<lparr> mq_msgs := ms \<rparr>) \<rparr>)))"

definition sys_mq_close :: "int \<Rightarrow> mq_system \<Rightarrow> mq_system option" where
  "sys_mq_close d s = (if map_of (sys_desc s) d = None then None
     else Some (s\<lparr> sys_desc := filter (\<lambda>e. fst e \<noteq> d) (sys_desc s) \<rparr>))"

text \<open>Removing a name leaves the queue to the descriptors that are open on it.\<close>

definition sys_mq_unlink :: "string \<Rightarrow> mq_system \<Rightarrow> mq_system option" where
  "sys_mq_unlink name s = (if map_of (sys_names s) name = None then None
     else Some (s\<lparr> sys_names := filter (\<lambda>e. fst e \<noteq> name) (sys_names s) \<rparr>))"

section \<open>Opening\<close>

record MsgQueue =
  q_maxmsg :: nat
  q_msgsize :: nat
  q_desc :: int
  q_name :: "string option"
  q_buff_size :: int
  q_is_blocking :: bool

text \<open>
  The name is copied into an array of MAX_MSG_QUEUE_NAME_SIZE bytes after a check that lets a name
  of exactly that length pass, whose terminator is written behind the array. Limits that are not
  positive leave the attributes unwritten. After mq_getattr the limits are those of the queue.
\<close>

definition msgQueueOpenEx ::
  "bool \<Rightarrow> string option \<Rightarrow> int \<Rightarrow> int \<Rightarrow> bool \<Rightarrow> mq_system \<Rightarrow> stop + (MsgQueue \<times> mq_system)" where
  "msgQueueOpenEx available name_p msg_size max_msg is_blocking s = (case name_p of
     None \<Rightarrow> Inl (Exited (-1))
   | Some name \<Rightarrow>
       if length name > MAX_MSG_QUEUE_NAME_SIZE then Inl (Exited (-1))
       else if length name + 1 > MAX_MSG_QUEUE_NAME_SIZE then Inl Undefined
       else if \<not> (max_msg > 0 \<and> msg_size > 0) then Inl Undefined
       else case sys_mq_open available name (\<not> is_blocking) (nat max_msg) (nat msg_size) s of
         None \<Rightarrow> Inl (Exited (-1))
       | Some (d, s) \<Rightarrow>
           (let q = sys_queue s (fst (the (map_of (sys_desc s) d))) in
            Inr (\<lparr> q_maxmsg = mq_maxmsg q, q_msgsize = mq_msgsize q, q_desc = d, q_name = Some name,
                   q_buff_size = int (mq_msgsize q) + 1, q_is_blocking = is_blocking \<rparr>, s)))"

definition msgQueueOpen ::
  "bool \<Rightarrow> string option \<Rightarrow> int \<Rightarrow> int \<Rightarrow> mq_system \<Rightarrow> stop + (MsgQueue \<times> mq_system)" where
  "msgQueueOpen available name msg_size max_msg s = msgQueueOpenEx available name msg_size max_msg True s"

definition msgQueueOpenNonBlocking ::
  "bool \<Rightarrow> string option \<Rightarrow> int \<Rightarrow> int \<Rightarrow> mq_system \<Rightarrow> stop + (MsgQueue \<times> mq_system)" where
  "msgQueueOpenNonBlocking available name msg_size max_msg s = msgQueueOpenEx available name msg_size max_msg False s"

section \<open>Reading and writing\<close>

text \<open>
  EAGAIN on a queue that was opened non-blocking is no error: a read returns NULL, a write returns 1
  and the message is lost.
\<close>

definition msgQueueRead :: "MsgQueue \<Rightarrow> mq_system \<Rightarrow> stop + (string option \<times> mq_system) option" where
  "msgQueueRead q s =
     (if q_name q = None then Inr (Some (None, s))
      else case sys_mq_receive (q_desc q) (q_buff_size q) s of
        Ok (m, s) \<Rightarrow> if int (length m) < q_buff_size q then Inr (Some (Some m, s)) else Inl Undefined
      | Waits \<Rightarrow> Inr None
      | Again \<Rightarrow> if \<not> q_is_blocking q then Inr (Some (None, s)) else Inl (Exited (-1))
      | Fails \<Rightarrow> Inl (Exited (-1)))"

definition msgQueueReadf :: "string \<Rightarrow> MsgQueue \<Rightarrow> mq_system \<Rightarrow> stop + (int \<times> arg list \<times> mq_system) option" where
  "msgQueueReadf format q s =
     (if q_name q = None then Inr (Some (-1, [], s))
      else case msgQueueRead q s of
        Inl e \<Rightarrow> Inl e
      | Inr None \<Rightarrow> Inr None
      | Inr (Some (None, s)) \<Rightarrow> Inr (Some (-1, [], s))
      | Inr (Some (Some rcvMessage, s)) \<Rightarrow>
          (let (resultCode, as) = sscanf format rcvMessage in Inr (Some (resultCode, as, s))))"

text \<open>\<open>None\<close> for the message is the null pointer, whose length is undefined.\<close>

definition msgQueueWrite :: "MsgQueue \<Rightarrow> string option \<Rightarrow> mq_system \<Rightarrow> stop + (int \<times> mq_system) option" where
  "msgQueueWrite q message s =
     (if q_name q = None then Inr (Some (-1, s))
      else case message of
        None \<Rightarrow> Inl Undefined
      | Some m \<Rightarrow>
          (case sys_mq_send (q_desc q) m s of
             Ok s \<Rightarrow> Inr (Some (0, s))
           | Waits \<Rightarrow> Inr None
           | Again \<Rightarrow> if \<not> q_is_blocking q then Inr (Some (1, s)) else Inl (Exited (-1))
           | Fails \<Rightarrow> Inl (Exited (-1))))"

text \<open>\<open>vsprintf\<close> into an array of \<open>buff_size + 7\<close> bytes.\<close>

definition msgQueueWritef ::
  "MsgQueue \<Rightarrow> string \<Rightarrow> arg list \<Rightarrow> mq_system \<Rightarrow> stop + (int \<times> mq_system) option" where
  "msgQueueWritef q format args s =
     (if q_name q = None then Inr (Some (-1, s))
      else if int (length (sprintf format args)) + 1 \<le> q_buff_size q + 7
      then msgQueueWrite q (Some (sprintf format args)) s else Inl Undefined)"

definition msgQueueSeek :: "MsgQueue \<Rightarrow> mq_system \<Rightarrow> stop + (string option \<times> mq_system) option" where
  "msgQueueSeek q s =
     (if q_name q = None then Inr (Some (None, s))
      else case msgQueueRead q s of
        Inl e \<Rightarrow> Inl e
      | Inr None \<Rightarrow> Inr None
      | Inr (Some (ret, s)) \<Rightarrow>
          (case msgQueueWrite q ret s of
             Inl e \<Rightarrow> Inl e
           | Inr None \<Rightarrow> Inr None
           | Inr (Some (_, s)) \<Rightarrow> Inr (Some (ret, s))))"

section \<open>Closing\<close>

definition msgQueueAbandon :: "MsgQueue \<Rightarrow> int \<times> MsgQueue" where
  "msgQueueAbandon q = (if q_name q = None then (-1, q) else (1, q\<lparr> q_name := None \<rparr>))"

definition msgQueueCloseEx :: "MsgQueue \<Rightarrow> bool \<Rightarrow> mq_system \<Rightarrow> stop + (int \<times> MsgQueue \<times> mq_system)" where
  "msgQueueCloseEx q unlink s = (case q_name q of
     None \<Rightarrow> Inr (-1, q, s)
   | Some name \<Rightarrow>
       (case sys_mq_close (q_desc q) s of
          None \<Rightarrow> Inl (Exited (-1))
        | Some s \<Rightarrow>
            (if unlink
             then (case sys_mq_unlink name s of
                     None \<Rightarrow> Inl (Exited (-1))
                   | Some s \<Rightarrow> Inr (1, snd (msgQueueAbandon q), s))
             else Inr (1, snd (msgQueueAbandon q), s))))"

definition msgQueueRemove :: "MsgQueue \<Rightarrow> mq_system \<Rightarrow> stop + (int \<times> MsgQueue \<times> mq_system)" where
  "msgQueueRemove q s = msgQueueCloseEx q True s"

definition msgQueueClose :: "MsgQueue \<Rightarrow> mq_system \<Rightarrow> stop + (int \<times> MsgQueue \<times> mq_system)" where
  "msgQueueClose q s = msgQueueCloseEx q False s"

text \<open>The queue is closed and opened again in the other mode.\<close>

definition msgQueueMakeBlocking ::
  "bool \<Rightarrow> MsgQueue \<Rightarrow> bool \<Rightarrow> mq_system \<Rightarrow> stop + (int \<times> MsgQueue \<times> mq_system)" where
  "msgQueueMakeBlocking available q will_block s = (case q_name q of
     None \<Rightarrow> Inr (-1, q, s)
   | Some name \<Rightarrow>
       if length name + 1 > MAX_MSG_QUEUE_NAME_SIZE then Inl Undefined
       else case msgQueueClose q s of
         Inl e \<Rightarrow> Inl e
       | Inr (_, _, s) \<Rightarrow>
           (case msgQueueOpenEx available (Some name) (int (q_msgsize q)) (int (q_maxmsg q)) will_block s of
              Inl e \<Rightarrow> Inl e
            | Inr (q, s) \<Rightarrow> Inr (1, q, s)))"

section \<open>A bounded first-in first-out queue\<close>

text \<open>
  The contract of a queue of \<open>n\<close> messages of at most \<open>l\<close> bytes, in blocking mode \<open>b\<close>:
  \<open>rep n l b s ms\<close> says that in the state \<open>s\<close> the queue holds the messages \<open>ms\<close>.
\<close>

locale message_queue =
  fixes wr :: "string \<Rightarrow> 's \<Rightarrow> stop + (int \<times> 's) option"
    and rd :: "'s \<Rightarrow> stop + (string option \<times> 's) option"
    and rep :: "nat \<Rightarrow> nat \<Rightarrow> bool \<Rightarrow> 's \<Rightarrow> string list \<Rightarrow> bool"
  assumes wr_room: "rep n l b s ms \<Longrightarrow> length m < l \<Longrightarrow> length ms < n \<Longrightarrow>
      \<exists>s'. wr m s = Inr (Some (0, s')) \<and> rep n l b s' (ms @ [m])"
    and wr_full: "rep n l b s ms \<Longrightarrow> length m < l \<Longrightarrow> n \<le> length ms \<Longrightarrow>
      wr m s = Inr (if b then None else Some (1, s))"
    and wr_long: "rep n l b s ms \<Longrightarrow> l \<le> length m \<Longrightarrow> wr m s = Inl (Exited (-1))"
    and rd_some: "rep n l b s (m # ms) \<Longrightarrow> \<exists>s'. rd s = Inr (Some (Some m, s')) \<and> rep n l b s' ms"
    and rd_none: "rep n l b s [] \<Longrightarrow> rd s = Inr (if b then None else Some (None, s))"

datatype queue_op = Send string | Receive

datatype queue_answer = Sent int | Got "string option"

text \<open>
  A run of calls gives their answers up to the first call that waits; the bounded queue does the
  same on a list.
\<close>

fun queue_run ::
  "(string \<Rightarrow> 's \<Rightarrow> stop + (int \<times> 's) option) \<Rightarrow> ('s \<Rightarrow> stop + (string option \<times> 's) option)
    \<Rightarrow> queue_op list \<Rightarrow> 's \<Rightarrow> stop + (queue_answer list \<times> 's)" where
  "queue_run wr rd [] s = Inr ([], s)"
| "queue_run wr rd (Send m # cs) s = (case wr m s of
     Inl e \<Rightarrow> Inl e
   | Inr None \<Rightarrow> Inr ([], s)
   | Inr (Some (r, s)) \<Rightarrow>
       (case queue_run wr rd cs s of Inl e \<Rightarrow> Inl e | Inr (as, s) \<Rightarrow> Inr (Sent r # as, s)))"
| "queue_run wr rd (Receive # cs) s = (case rd s of
     Inl e \<Rightarrow> Inl e
   | Inr None \<Rightarrow> Inr ([], s)
   | Inr (Some (r, s)) \<Rightarrow>
       (case queue_run wr rd cs s of Inl e \<Rightarrow> Inl e | Inr (as, s) \<Rightarrow> Inr (Got r # as, s)))"

fun fifo_run :: "nat \<Rightarrow> bool \<Rightarrow> queue_op list \<Rightarrow> string list \<Rightarrow> queue_answer list \<times> string list" where
  "fifo_run n b [] ms = ([], ms)"
| "fifo_run n b (Send m # cs) ms =
     (if length ms < n then (let (as, ms) = fifo_run n b cs (ms @ [m]) in (Sent 0 # as, ms))
      else if b then ([], ms)
      else (let (as, ms) = fifo_run n b cs ms in (Sent 1 # as, ms)))"
| "fifo_run n b (Receive # cs) ms = (case ms of
     m # ms \<Rightarrow> (let (as, ms) = fifo_run n b cs ms in (Got (Some m) # as, ms))
   | [] \<Rightarrow> if b then ([], ms) else (let (as, ms) = fifo_run n b cs ms in (Got None # as, ms)))"

text \<open>The loop of validator.c that reads a queue until it is empty, in at most \<open>k\<close> reads.\<close>

fun read_all_msgs ::
  "('s \<Rightarrow> stop + (string option \<times> 's) option) \<Rightarrow> nat \<Rightarrow> 's \<Rightarrow> stop + (string list \<times> 's) option" where
  "read_all_msgs rd 0 s = Inr None"
| "read_all_msgs rd (Suc k) s = (case rd s of
     Inl e \<Rightarrow> Inl e
   | Inr None \<Rightarrow> Inr None
   | Inr (Some (None, s)) \<Rightarrow> Inr (Some ([], s))
   | Inr (Some (Some m, s)) \<Rightarrow>
       (case read_all_msgs rd k s of
          Inl e \<Rightarrow> Inl e
        | Inr None \<Rightarrow> Inr None
        | Inr (Some (ms, s)) \<Rightarrow> Inr (Some (m # ms, s))))"

definition fitting :: "nat \<Rightarrow> queue_op list \<Rightarrow> bool" where
  "fitting l cs \<longleftrightarrow> (\<forall>m. Send m \<in> set cs \<longrightarrow> length m < l)"

lemma fitting_simps [simp]:
  "fitting l []" "fitting l (Send m # cs) \<longleftrightarrow> length m < l \<and> fitting l cs" "fitting l (Receive # cs) = fitting l cs"
  by (auto simp: fitting_def)

context message_queue
begin

lemma queue_run_fifo:
  "rep n l b s ms \<Longrightarrow> fitting l cs \<Longrightarrow>
   \<exists>s'. queue_run wr rd cs s = Inr (fst (fifo_run n b cs ms), s') \<and> rep n l b s' (snd (fifo_run n b cs ms))"
proof (induction cs arbitrary: s ms)
  case (Cons c cs)
  show ?case
  proof (cases c)
    case (Send m)
    show ?thesis
    proof (cases "length ms < n")
      case True
      from wr_room [OF Cons.prems(1) _ True, of m] Cons.prems(2) Send obtain s1 where
        s1: "wr m s = Inr (Some (0, s1))" "rep n l b s1 (ms @ [m])" by auto
      from Cons.IH [OF s1(2)] s1(1) Send True Cons.prems(2) show ?thesis by (auto split: prod.splits)
    next
      case False
      with wr_full [OF Cons.prems(1), of m] Cons.IH [OF Cons.prems(1)] Cons.prems Send show ?thesis
        by (auto split: prod.splits)
    qed
  next
    case Receive
    show ?thesis
    proof (cases ms)
      case Nil
      with rd_none [of n l b s] Cons.IH [OF Cons.prems(1)] Cons.prems Receive show ?thesis
        by (auto split: prod.splits)
    next
      case (Cons m ms')
      with rd_some [of n l b s m ms'] Cons.prems(1) obtain s1 where
        s1: "rd s = Inr (Some (Some m, s1))" "rep n l b s1 ms'" by auto
      from Cons.IH [OF s1(2)] s1(1) Receive Cons Cons.prems(2) show ?thesis by (auto split: prod.splits)
    qed
  qed
qed auto

lemma read_all_msgs_drains:
  "rep n l False s ms \<Longrightarrow> length ms < k \<Longrightarrow>
   \<exists>s'. read_all_msgs rd k s = Inr (Some (ms, s')) \<and> rep n l False s' []"
proof (induction ms arbitrary: s k)
  case Nil
  with rd_none [OF Nil.prems(1)] show ?case by (cases k) auto
next
  case (Cons m ms)
  obtain k' where k: "k = Suc k'" using Cons.prems(2) by (cases k) auto
  obtain s1 where s1: "rd s = Inr (Some (Some m, s1))" "rep n l False s1 ms"
    using rd_some [OF Cons.prems(1)] by blast
  from Cons.IH [OF s1(2), of k'] s1(1) k Cons.prems(2) show ?case by auto
qed

end

section \<open>The queues of the program\<close>

text \<open>
  \<open>q_rep q n l b s ms\<close>: the queue \<open>q\<close> is open in the system \<open>s\<close> under its name, with the limits
  \<open>n\<close> and \<open>l\<close>, in mode \<open>b\<close>, and holds the messages \<open>ms\<close>.
\<close>

definition q_rep :: "MsgQueue \<Rightarrow> nat \<Rightarrow> nat \<Rightarrow> bool \<Rightarrow> mq_system \<Rightarrow> string list \<Rightarrow> bool" where
  "q_rep q n l b s ms \<longleftrightarrow> q_is_blocking q = b \<and> q_maxmsg q = n \<and> q_msgsize q = l \<and> q_buff_size q = int l + 1 \<and>
     (\<exists>name i. q_name q = Some name \<and> length name < MAX_MSG_QUEUE_NAME_SIZE \<and> mq_name_ok name \<and>
        map_of (sys_names s) name = Some i \<and> map_of (sys_desc s) (q_desc q) = Some (i, \<not> b) \<and>
        sys_queue s i = \<lparr> mq_maxmsg = n, mq_msgsize = l, mq_msgs = ms \<rparr> \<and> (\<forall>m \<in> set ms. length m < l))"

interpretation queue: message_queue "\<lambda>m. msgQueueWrite q (Some m)" "msgQueueRead q" "q_rep q" for q
proof unfold_locales
  fix n l b s ms m
  assume r: "q_rep q n l b s ms"
  then obtain name i where q: "q_is_blocking q = b" "q_buff_size q = int l + 1" "q_name q = Some name"
    "map_of (sys_desc s) (q_desc q) = Some (i, \<not> b)"
    "sys_queue s i = \<lparr> mq_maxmsg = n, mq_msgsize = l, mq_msgs = ms \<rparr>" by (auto simp: q_rep_def)
  show "\<exists>s'. msgQueueWrite q (Some m) s = Inr (Some (0, s')) \<and> q_rep q n l b s' (ms @ [m])"
    if "length m < l" "length ms < n"
    using q that r by (auto simp: msgQueueWrite_def sys_mq_send_def Let_def q_rep_def)
  show "msgQueueWrite q (Some m) s = Inr (if b then None else Some (1, s))" if "length m < l" "n \<le> length ms"
    using q that by (auto simp: msgQueueWrite_def sys_mq_send_def Let_def)
  show "msgQueueWrite q (Some m) s = Inl (Exited (-1))" if "l \<le> length m"
    using q that by (auto simp: msgQueueWrite_def sys_mq_send_def Let_def)
next
  fix n l b s m ms
  assume r: "q_rep q n l b s (m # ms)"
  then obtain name i where q: "q_is_blocking q = b" "q_buff_size q = int l + 1" "q_name q = Some name"
    "map_of (sys_desc s) (q_desc q) = Some (i, \<not> b)" "length m < l"
    "sys_queue s i = \<lparr> mq_maxmsg = n, mq_msgsize = l, mq_msgs = m # ms \<rparr>" by (auto simp: q_rep_def)
  then show "\<exists>s'. msgQueueRead q s = Inr (Some (Some m, s')) \<and> q_rep q n l b s' ms"
    using r by (auto simp: msgQueueRead_def sys_mq_receive_def Let_def q_rep_def)
next
  fix n l b s
  assume "q_rep q n l b s []"
  then show "msgQueueRead q s = Inr (if b then None else Some (None, s))"
    by (auto simp: msgQueueRead_def sys_mq_receive_def Let_def q_rep_def)
qed

lemma msgQueueOpenEx_new:
  assumes "mq_name_ok name" "length name < MAX_MSG_QUEUE_NAME_SIZE" "0 < n" "0 < l" "map_of (sys_names s) name = None"
  shows "\<exists>q s'. msgQueueOpenEx True (Some name) (int l) (int n) b s = Inr (q, s') \<and> q_rep q n l b s' [] \<and>
    q_name q = Some name"
  using assms by (simp add: msgQueueOpenEx_def sys_mq_open_def q_rep_def Let_def config)

text \<open>Opening a name that exists gives a second view of the same queue.\<close>

lemma msgQueueOpenEx_again:
  assumes "q_rep q n l b s ms" "q_name q = Some name" "0 < x" "0 < y"
  shows "\<exists>q' s'. msgQueueOpenEx True (Some name) x y b' s = Inr (q', s') \<and> q_rep q' n l b' s' ms \<and> q_name q' = Some name"
  using assms by (auto simp: msgQueueOpenEx_def sys_mq_open_def q_rep_def Let_def config)

text \<open>Whether a name can be opened does not depend on the queues there are.\<close>

definition opens :: "bool \<Rightarrow> string \<Rightarrow> stop + string" where
  "opens available name =
     (if length name > MAX_MSG_QUEUE_NAME_SIZE then Inl (Exited (-1))
      else if length name + 1 > MAX_MSG_QUEUE_NAME_SIZE then Inl Undefined
      else if available \<and> mq_name_ok name then Inr name else Inl (Exited (-1)))"

lemma msgQueueOpenEx_opens:
  "0 < x \<Longrightarrow> 0 < y \<Longrightarrow>
   (case msgQueueOpenEx available (Some name) x y b s of Inl e \<Rightarrow> Inl e | Inr (q, _) \<Rightarrow> Inr (the (q_name q))) =
   opens available name"
  by (auto simp: msgQueueOpenEx_def opens_def sys_mq_open_def Let_def split: option.splits)

lemma opens_Inr: "opens available name = Inr n \<Longrightarrow> n = name"
  by (auto simp: opens_def split: if_splits)

lemma msgQueueClose_keeps:
  assumes "q_rep q n l b s ms"
  shows "\<exists>q1 s1. msgQueueClose q s = Inr (1, q1, s1) \<and> sys_names s1 = sys_names s \<and> sys_queue s1 = sys_queue s \<and>
    sys_desc s1 = filter (\<lambda>e. fst e \<noteq> q_desc q) (sys_desc s)"
  using assms by (auto simp: msgQueueClose_def msgQueueCloseEx_def sys_mq_close_def q_rep_def)

section \<open>Properties\<close>

lemma fifo_run_demo: "fifo_run 2 False [Send ''a'', Send ''b'', Send ''c'', Receive, Receive, Receive] [] =
  ([Sent 0, Sent 0, Sent 1, Got (Some ''a''), Got (Some ''b''), Got None], [])"
  by simp

text \<open>
  C31: a queue is a bounded first-in first-out queue. Whatever calls of msgQueueWrite and msgQueueRead
  are made, each message that is accepted is read exactly once and in order; a write into a full queue
  waits in blocking mode and, in non-blocking mode, returns 1 and drops the message; a read of an empty
  queue waits or returns NULL; a write that succeeds returns 0.
\<close>

theorem msgQueue_fifo:
  assumes "q_rep q n l b s ms" "fitting l cs"
  shows "\<exists>s'. queue_run (\<lambda>m. msgQueueWrite q (Some m)) (msgQueueRead q) cs s = Inr (fst (fifo_run n b cs ms), s') \<and>
    q_rep q n l b s' (snd (fifo_run n b cs ms))"
  by (rule queue.queue_run_fifo [OF assms])

definition no_queues :: mq_system where
  "no_queues = \<lparr> sys_names = [], sys_queue = (\<lambda>_. \<lparr> mq_maxmsg = 0, mq_msgsize = 0, mq_msgs = [] \<rparr>), sys_desc = [],
     sys_next_queue = 0, sys_next_desc = 3 \<rparr>"

theorem msgQueue_fifo_witness:
  "\<exists>q s s'. msgQueueOpenEx True (Some ''/q'') 1020 2 False no_queues = Inr (q, s) \<and>
    queue_run (\<lambda>m. msgQueueWrite q (Some m)) (msgQueueRead q)
      [Send ''a'', Send ''b'', Send ''c'', Receive, Receive, Receive] s =
    Inr ([Sent 0, Sent 0, Sent 1, Got (Some ''a''), Got (Some ''b''), Got None], s')"
proof -
  obtain q s where q: "msgQueueOpenEx True (Some ''/q'') 1020 2 False no_queues = Inr (q, s)" "q_rep q 2 1020 False s []"
    using msgQueueOpenEx_new [of "''/q''" 2 1020 no_queues False] by (auto simp: no_queues_def config)
  from msgQueue_fifo [OF q(2), of "[Send ''a'', Send ''b'', Send ''c'', Receive, Receive, Receive]"]
  obtain s' where "queue_run (\<lambda>m. msgQueueWrite q (Some m)) (msgQueueRead q)
      [Send ''a'', Send ''b'', Send ''c'', Receive, Receive, Receive] s =
    Inr ([Sent 0, Sent 0, Sent 1, Got (Some ''a''), Got (Some ''b''), Got None], s')"
    by (auto simp: fifo_run_demo simp del: queue_run.simps)
  with q(1) show ?thesis by blast
qed

text \<open>
  Switching the mode of a queue, as the server does when it throttles, keeps its name, its limits
  and all the messages in it; only the mode changes.
\<close>

theorem msgQueueMakeBlocking_keeps_messages:
  assumes "q_rep q n l b s ms" "0 < n" "0 < l"
  shows "\<exists>q' s'. msgQueueMakeBlocking True q b' s = Inr (1, q', s') \<and> q_rep q' n l b' s' ms \<and> q_name q' = q_name q"
proof -
  obtain name i where q: "q_name q = Some name" "length name < 50" "mq_name_ok name" "map_of (sys_names s) name = Some i"
    "sys_queue s i = \<lparr> mq_maxmsg = n, mq_msgsize = l, mq_msgs = ms \<rparr>" "\<forall>m \<in> set ms. length m < l"
    "q_maxmsg q = n" "q_msgsize q = l"
    using assms(1) by (auto simp: q_rep_def config)
  obtain q1 s1 where "msgQueueClose q s = Inr (1, q1, s1)" "sys_names s1 = sys_names s" "sys_queue s1 = sys_queue s"
    using msgQueueClose_keeps [OF assms(1)] by blast
  with q assms(2,3) show ?thesis
    by (simp add: msgQueueMakeBlocking_def msgQueueOpenEx_def sys_mq_open_def q_rep_def Let_def config)
qed

theorem msgQueueMakeBlocking_keeps_messages_witness:
  "\<exists>q s q' s'. msgQueueOpenEx True (Some ''/q'') 1020 10 True no_queues = Inr (q, s) \<and>
     msgQueueMakeBlocking True q False s = Inr (1, q', s') \<and> q_rep q' 10 1020 False s' []"
proof -
  obtain q s where q: "msgQueueOpenEx True (Some ''/q'') 1020 10 True no_queues = Inr (q, s)" "q_rep q 10 1020 True s []"
    using msgQueueOpenEx_new [of "''/q''" 10 1020 no_queues True] by (auto simp: no_queues_def config)
  have "(0 :: nat) < 10" "(0 :: nat) < 1020" by simp_all
  from q(1) msgQueueMakeBlocking_keeps_messages [OF q(2) this, of False] show ?thesis by blast
qed

text \<open>
  C32: the edges of the interface. A name of exactly 50 characters passes the check of msgQueueOpenEx
  and is copied behind its array, a longer one ends the process; a message too long for the queue
  ends the process; msgQueueSeek on an empty non-blocking queue takes the length of NULL, and in a
  queue with messages it moves the first one to the end.
\<close>

theorem msgQueue_edges:
  assumes "q_rep q n l False s ms"
  shows "(length name = 50 \<longrightarrow> msgQueueOpenEx a (Some name) x y b s = Inl Undefined) \<and>
    (50 < length name \<longrightarrow> msgQueueOpenEx a (Some name) x y b s = Inl (Exited (-1))) \<and>
    (l \<le> length m \<longrightarrow> msgQueueWrite q (Some m) s = Inl (Exited (-1))) \<and>
    (ms = [] \<longrightarrow> msgQueueSeek q s = Inl Undefined) \<and>
    (ms \<noteq> [] \<and> length ms \<le> n \<longrightarrow>
       (\<exists>s'. msgQueueSeek q s = Inr (Some (Some (hd ms), s')) \<and> q_rep q n l False s' (tl ms @ [hd ms])))"
proof -
  obtain name' where name: "q_name q = Some name'" using assms by (auto simp: q_rep_def)
  have seek: "\<exists>s'. msgQueueSeek q s = Inr (Some (Some (hd ms), s')) \<and> q_rep q n l False s' (tl ms @ [hd ms])"
    if "ms \<noteq> []" "length ms \<le> n"
  proof -
    obtain m ms' where ms: "ms = m # ms'" using \<open>ms \<noteq> []\<close> by (cases ms) auto
    then have "length m < l" using assms by (auto simp: q_rep_def)
    moreover obtain s1 where s1: "msgQueueRead q s = Inr (Some (Some m, s1))" "q_rep q n l False s1 ms'"
      using queue.rd_some assms ms by blast
    ultimately obtain s2 where "msgQueueWrite q (Some m) s1 = Inr (Some (0, s2))" "q_rep q n l False s2 (ms' @ [m])"
      using queue.wr_room [OF s1(2), of m] \<open>length ms \<le> n\<close> ms by auto
    with s1(1) ms name show ?thesis by (simp add: msgQueueSeek_def)
  qed
  have "msgQueueSeek q s = Inl Undefined" if "ms = []"
    using queue.rd_none [of q n l False s] assms that name by (simp add: msgQueueSeek_def msgQueueWrite_def)
  with seek queue.wr_long [OF assms] show ?thesis by (auto simp: msgQueueOpenEx_def config)
qed

theorem msgQueue_edges_witness:
  "\<exists>q s. msgQueueOpenEx True (Some ''/q'') 1020 10 False no_queues = Inr (q, s) \<and> msgQueueSeek q s = Inl Undefined"
proof -
  obtain q s where q: "msgQueueOpenEx True (Some ''/q'') 1020 10 False no_queues = Inr (q, s)" "q_rep q 10 1020 False s []"
    using msgQueueOpenEx_new [of "''/q''" 10 1020 no_queues False] by (auto simp: no_queues_def config)
  with msgQueue_edges [OF q(2)] show ?thesis by blast
qed

end
