(* ===== verification/Fork.thy ===== *)
theory Fork
  imports Prelude
begin

text \<open>
  The process functions of fork.h. What the kernel answers (whether fork succeeds and which id the
  child gets, whether execve finds the program, what wait reports) is an argument of the
  definitions; the outcome says what becomes of the calling process.
\<close>

section \<open>Forking\<close>

datatype fork_answer = ForkError | InChild | InParent int

text \<open>The second result is the process id stored through the pointer.\<close>

definition processFork :: "fork_answer \<Rightarrow> int \<times> int" where
  "processFork answer = (case answer of
     ForkError \<Rightarrow> (-1, -1)
   | InChild \<Rightarrow> (1, 0)
   | InParent pid \<Rightarrow> (0, pid))"

text \<open>
  \<open>Returned code pid\<close> goes on behind the call, \<open>Runs path argv\<close> has become another program,
  \<open>Ended code\<close> has exited.
\<close>

datatype outcome = Returned int int | Runs string "string list" | Ended int

text \<open>
  The variadic arguments up to the null pointer; without one, the call reads past its arguments.
\<close>

definition exec_argv :: "string \<Rightarrow> string option list \<Rightarrow> string list option" where
  "exec_argv arg rest =
     (if None \<in> set rest then Some (arg # map the (takeWhile (\<lambda>a. a \<noteq> None) rest)) else None)"

definition processExec :: "fork_answer \<Rightarrow> bool \<Rightarrow> string \<Rightarrow> string \<Rightarrow> string option list \<Rightarrow> outcome option" where
  "processExec answer exec_works path arg rest =
     (let (status, pid) = processFork answer in
      if status = -1 then Some (Returned 0 pid)
      else if status = 1 then do {
        argv \<leftarrow> exec_argv arg rest;
        Some (if exec_works then Runs path argv else Ended (-1)) }
      else Some (Returned 1 pid))"

definition processExit :: "int \<Rightarrow> outcome" where
  "processExit status = Ended status"

section \<open>Waiting\<close>

text \<open>
  What a child did, and what one call of wait or waitpid reports: a child, that the process has no
  children, that it has but none has ended (only with WNOHANG), or another error.
\<close>

datatype child_end = ExitedWith int | Killed

datatype wait_answer = Reaped child_end | NoChildren | NoneEnded | OtherError

text \<open>
  processWaitForAll over the answers of its calls of wait. The result is the returned value and the
  answers that are left; \<open>None\<close> when the answers run out, that is, the loop is still waiting.
\<close>

fun wait_loop :: "int \<Rightarrow> wait_answer list \<Rightarrow> (int \<times> wait_answer list) option" where
  "wait_loop f_status [] = None"
| "wait_loop f_status (w # ws) = (case w of
     NoChildren \<Rightarrow> Some (if f_status = 0 then -1 else 1, ws)
   | Reaped (ExitedWith code) \<Rightarrow> wait_loop (if code = 0 then f_status else 0) ws
   | _ \<Rightarrow> wait_loop 0 ws)"

definition processWaitForAll :: "wait_answer list \<Rightarrow> (int \<times> wait_answer list) option" where
  "processWaitForAll ws = wait_loop 1 ws"

definition processWait :: "wait_answer \<Rightarrow> int" where
  "processWait w = (case w of Reaped _ \<Rightarrow> 1 | _ \<Rightarrow> -1)"

text \<open>One call of waitpid. \<open>Inl\<close> is the exit through syserr.\<close>

definition processWaitForAllNonBlocking :: "wait_answer \<Rightarrow> stop + int" where
  "processWaitForAllNonBlocking w = (case w of
     NoChildren \<Rightarrow> Inr 0
   | OtherError \<Rightarrow> Inl (Exited (-1))
   | NoneEnded \<Rightarrow> Inr 0
   | Reaped (ExitedWith code) \<Rightarrow> Inr (if code = 0 then 1 else -1)
   | Reaped Killed \<Rightarrow> Inr (-1))"

section \<open>Properties\<close>

lemma wait_loop_all:
  "wait_loop st (map Reaped cs @ NoChildren # ws) =
     Some (if st \<noteq> 0 \<and> (\<forall>c \<in> set cs. c = ExitedWith 0) then 1 else -1, ws)"
proof (induction cs arbitrary: st)
  case (Cons c cs)
  then show ?case by (cases c) auto
qed simp

text \<open>
  ProcessWaitForAll reaps every child, whatever their number and order, returns exactly when the
  last one is reaped, and returns 1 if all of them exited with code 0 and -1 otherwise.
\<close>

theorem processWaitForAll_reaps_all:
  "processWaitForAll (map Reaped cs) = None \<and>
   processWaitForAll (map Reaped cs @ NoChildren # ws) =
     Some (if list_all (\<lambda>c. c = ExitedWith 0) cs then 1 else -1, ws)"
proof -
  have "wait_loop st (map Reaped cs) = None" for st
  proof (induction cs arbitrary: st)
    case (Cons c cs)
    then show ?case by (cases c) auto
  qed simp
  then show ?thesis by (simp add: processWaitForAll_def wait_loop_all list_all_iff)
qed

text \<open>
  A worker is started with the arguments of the call up to the null pointer, so that a null
  option flag ends the list; a failed fork returns 0, a failed execve ends the child with code -1 and
  the parent, who gets the id of the child, cannot tell.
\<close>

theorem processExec_outcomes:
  assumes "None \<notin> set args"
  shows "processExec InChild True path arg (args @ None # rest) = Some (Runs path (arg # map the args)) \<and>
    processExec InChild False path arg (args @ None # rest) = Some (Ended (-1)) \<and>
    processExec (InParent pid) works path arg (args @ None # rest) = Some (Returned 1 pid) \<and>
    processExec ForkError works path arg (args @ None # rest) = Some (Returned 0 (-1))"
proof -
  have "takeWhile (\<lambda>a. a \<noteq> None) (args @ None # rest) = args"
    using assms by (subst takeWhile_append2, metis) simp
  then show ?thesis by (simp add: processExec_def processFork_def exec_argv_def)
qed

theorem processExec_outcomes_witness:
  "processExec InChild True ''./run'' ''run'' [Some ''p3@4[12]'', Some ''ab'', None, None] =
     Some (Runs ''./run'' [''run'', ''p3@4[12]'', ''ab''])"
  using processExec_outcomes [of "[Some ''p3@4[12]'', Some ''ab'']" "''./run''" "''run''" "[None]"] by simp

end
