(* ===== verification/Server.thy ===== *)
theory Server
  imports Messages MsgPipe MsgQueue Fork HashMapCorrect
begin

text \<open>
  The server, validator.c: its sessions, the handlers of the three queues it reads, its event loop
  as a machine that moves from one queue operation to the next, and its final report.

  The session tables \<open>runSlots\<close> and \<open>testerSlots\<close> are association lists in insertion order with
  the four operations of the \<open>pids\<close> interpretation in HashMapCorrect; a session reached through a
  pointer is changed in place. The queues the server reads are lists of messages (MsgQueue shows that
  a queue is one), their modes are two flags. Counters are unbounded.

  The two text buffers on the stack start with what the memory held; the numbers start unwritten,
  and reading an unwritten number is undefined.
\<close>

section \<open>Configuration\<close>

definition SERVER_PROCESS_LIMIT :: int where
  "SERVER_PROCESS_LIMIT = 20"

definition SERVER_FORK_RETRY_COUNT :: nat where
  "SERVER_FORK_RETRY_COUNT = 3"

definition GRAPH_BUF_SIZE :: int where
  "GRAPH_BUF_SIZE = 3000007"

lemmas server_config [config] = SERVER_PROCESS_LIMIT_def SERVER_FORK_RETRY_COUNT_def GRAPH_BUF_SIZE_def

section \<open>Sessions\<close>

record RunSlot =
  rs_graphDataPipeID :: MsgPipeID
  rs_graphDataPipe :: MsgPipe
  rs_pid :: int
  rs_testerSourcePid :: int
  rs_loc_id :: int

text \<open>\<open>ts_queue\<close> is the name of the queue the server opened for the answers.\<close>

record TesterSlot =
  ts_queueName :: string
  ts_pid :: int
  ts_queue :: string
  ts_rcd_count :: int
  ts_acc_count :: int

definition table_put :: "int \<Rightarrow> 'v \<Rightarrow> (int \<times> 'v) list \<Rightarrow> (int \<times> 'v) list" where
  "table_put k v t = filter (\<lambda>kv. fst kv \<noteq> k) t @ [(k, v)]"

definition table_del :: "int \<Rightarrow> (int \<times> 'v) list \<Rightarrow> (int \<times> 'v) list" where
  "table_del k t = filter (\<lambda>kv. fst kv \<noteq> k) t"

definition table_upd :: "int \<Rightarrow> ('v \<Rightarrow> 'v) \<Rightarrow> (int \<times> 'v) list \<Rightarrow> (int \<times> 'v) list" where
  "table_upd k f t = map (\<lambda>kv. if fst kv = k then (k, f (snd kv)) else kv) t"

section \<open>The state\<close>

text \<open>What the server does to the outside: messages to testers and workers it starts.\<close>

datatype event = SentTo string string | Spawned int "string list"

record server =
  sv_run :: "(int \<times> RunSlot) list"
  sv_testers :: "(int \<times> TesterSlot) list"
  sv_buffer :: string
  sv_buffer2 :: string
  sv_buffer_pid :: "int option"
  sv_buffer_result :: "int option"
  sv_loc_id :: "int option"
  sv_active :: int
  sv_shouldTerminate :: bool
  sv_forceTermination :: bool
  sv_rcd :: int
  sv_snt :: int
  sv_acc :: int
  sv_throttled :: bool
  sv_run_blocking :: bool
  sv_report_blocking :: bool
  sv_fds :: descriptors
  sv_graph :: string
  sv_verbose :: bool
  sv_log :: "event list"

text \<open>
  The state in front of the event loop. \<open>garbage\<close> and \<open>garbage2\<close> are the texts the two buffers
  happen to hold; the result queue is non-blocking and the report queue is blocking.
\<close>

definition server_start :: "string \<Rightarrow> string \<Rightarrow> descriptors \<Rightarrow> string \<Rightarrow> bool \<Rightarrow> server" where
  "server_start garbage garbage2 fds graph verbose =
     \<lparr> sv_run = [], sv_testers = [], sv_buffer = garbage, sv_buffer2 = garbage2, sv_buffer_pid = None,
        sv_buffer_result = None, sv_loc_id = None, sv_active = 0, sv_shouldTerminate = False,
        sv_forceTermination = False, sv_rcd = 0, sv_snt = 0, sv_acc = 0, sv_throttled = False,
        sv_run_blocking = False, sv_report_blocking = True, sv_fds = fds, sv_graph = graph,
        sv_verbose = verbose, sv_log = [] \<rparr>"

text \<open>
  What the kernel answers during a step: whether mq_open and pipe are served, the result of each
  attempt to fork (the id of the child, or failure), and what waitpid reports.
\<close>

record kernel =
  ke_mq :: bool
  ke_pipe :: bool
  ke_fork :: "nat \<Rightarrow> int option"
  ke_wait :: wait_answer

section \<open>Registering a tester\<close>

text \<open>
  The session of a new tester. The name recorded in the session is copied from \<open>buffer\<close> into an
  array of 100 bytes, while the queue is the one named by \<open>buffer2\<close>.
\<close>

definition new_session :: "kernel \<Rightarrow> int \<Rightarrow> server \<Rightarrow> stop + server" where
  "new_session ke pid s =
     and_then (opens (ke_mq ke) (sv_buffer2 s)) (\<lambda>queue.
       if length (sv_buffer s) + 1 > 100 then Inl Undefined
       else Inr (s\<lparr> sv_testers := table_put (wrap32 pid)
              \<lparr> ts_queueName = sv_buffer s, ts_pid = wrap32 pid, ts_queue = queue, ts_rcd_count = 0,
                 ts_acc_count = 0 \<rparr> (sv_testers s) \<rparr>))"

definition handle_register :: "kernel \<Rightarrow> string \<Rightarrow> server \<Rightarrow> stop + server" where
  "handle_register ke msg s =
     (let (k, as) = read_register msg in
      if k = 0 then Inr s
      else let s = s\<lparr> sv_buffer_pid := got_int as 0 (sv_buffer_pid s),
                      sv_buffer2 := the (got_str as 1 (Some (sv_buffer2 s))) \<rparr> in
        case sv_buffer_pid s of
          None \<Rightarrow> Inl Undefined
        | Some pid \<Rightarrow> new_session ke pid s)"

section \<open>Throttling\<close>

definition throttle_lock :: "kernel \<Rightarrow> server \<Rightarrow> stop + server" where
  "throttle_lock ke s =
     (if \<not> sv_throttled s \<and> sv_active s > SERVER_PROCESS_LIMIT
      then (if ke_mq ke then Inr (s\<lparr> sv_throttled := True, sv_run_blocking := True, sv_report_blocking := False \<rparr>)
            else Inl (Exited (-1)))
      else Inr s)"

definition throttle_unlock :: "kernel \<Rightarrow> server \<Rightarrow> stop + server" where
  "throttle_unlock ke s =
     (if sv_throttled s \<and> sv_active s < SERVER_PROCESS_LIMIT
      then (if ke_mq ke then Inr (s\<lparr> sv_throttled := False, sv_run_blocking := False, sv_report_blocking := True \<rparr>)
            else Inl (Exited (-1)))
      else Inr s)"

section \<open>The result of a worker\<close>

text \<open>
  The loop over the tester sessions leaves \<open>ts\<close> at the first session with the id of the tester, or
  at the last session when there is none.
\<close>

fun find_tester :: "int \<Rightarrow> TesterSlot option \<Rightarrow> (int \<times> TesterSlot) list \<Rightarrow> TesterSlot option" where
  "find_tester pid ts [] = ts"
| "find_tester pid ts ((_, t) # rest) = (if ts_pid t = pid then Some t else find_tester pid (Some t) rest)"

definition send_answer :: "TesterSlot \<Rightarrow> RunSlot \<Rightarrow> int \<Rightarrow> server \<Rightarrow> server" where
  "send_answer ts rs result s =
     (let s = s\<lparr> sv_snt := sv_snt s + 1 \<rparr>;
          s = (if result = 1
               then s\<lparr> sv_acc := sv_acc s + 1,
                       sv_testers := table_upd (ts_pid ts) (\<lambda>t. t\<lparr> ts_acc_count := ts_acc_count t + 1 \<rparr>) (sv_testers s) \<rparr>
               else s)
      in s\<lparr> sv_log := sv_log s @ [SentTo (ts_queue ts) (write_answer (rs_loc_id rs) result)] \<rparr>)"

definition finish_run :: "int \<Rightarrow> RunSlot \<Rightarrow> int \<Rightarrow> server \<Rightarrow> stop + server" where
  "finish_run pid rs result s =
     and_then (msgPipeClose (rs_graphDataPipe rs) (sv_fds s)) (\<lambda>(_, _, fds).
       let s = s\<lparr> sv_fds := fds \<rparr> in
       case find_tester (rs_testerSourcePid rs) None (sv_testers s) of
         None \<Rightarrow> Inl Undefined
       | Some ts \<Rightarrow>
           (let s = send_answer ts rs result s in Inr (s\<lparr> sv_run := table_del pid (sv_run s) \<rparr>)))"

definition handle_run_terminate :: "kernel \<Rightarrow> string \<Rightarrow> server \<Rightarrow> stop + server" where
  "handle_run_terminate ke msg s =
     (let (k, as) = read_run_terminate msg in
      if k = 0 then Inr s
      else let s = s\<lparr> sv_buffer_pid := got_int as 0 (sv_buffer_pid s),
                      sv_buffer_result := got_int as 1 (sv_buffer_result s), sv_active := sv_active s - 1 \<rparr> in
        case (sv_buffer_pid s, sv_buffer_result s) of
          (Some buffer_pid, Some result) \<Rightarrow>
            and_then (throttle_unlock ke s) (\<lambda>s.
              let pid = wrap32 buffer_pid in
              case map_of (sv_run s) pid of
                None \<Rightarrow> Inr s
              | Some rs \<Rightarrow> finish_run pid rs result s)
        | _ \<Rightarrow> Inl Undefined)"

section \<open>The children\<close>

definition reap_children :: "kernel \<Rightarrow> server \<Rightarrow> stop + (int \<times> server)" where
  "reap_children ke s =
     and_then (processWaitForAllNonBlocking (ke_wait ke)) (\<lambda>status.
       Inr (status, if status = -1 then s\<lparr> sv_active := sv_active s - 1 \<rparr> else s))"

text \<open>\<open>activeTasksCountM\<close> is the number of worker sessions.\<close>

definition check_force :: "int \<Rightarrow> bool \<Rightarrow> server \<Rightarrow> server" where
  "check_force children_status no_run_msg s =
     (let activeTasksCountM = length (sv_run s) in
      if (sv_active s \<le> 0 \<or> activeTasksCountM \<le> 0) \<and> sv_shouldTerminate s \<and> children_status = 0 \<and> no_run_msg
      then s\<lparr> sv_forceTermination := True \<rparr> else s)"

section \<open>A request\<close>

text \<open>
  The loop around processExec, from the attempt \<open>retry_count\<close> on. In the child the call becomes the
  worker program; here it is the server that goes on.
\<close>

definition worker_args :: "server \<Rightarrow> string \<Rightarrow> string option list" where
  "worker_args s pipe_id =
     [Some pipe_id, Some (sv_buffer s), if sv_verbose s then Some ''-v'' else None, None]"

function spawn_loop :: "(nat \<Rightarrow> int option) \<Rightarrow> nat \<Rightarrow> string option list \<Rightarrow> int option option" where
  "spawn_loop forks retry_count args =
     (case processExec (case forks retry_count of None \<Rightarrow> ForkError | Some pid \<Rightarrow> InParent pid) True ''./run'' ''run'' args of
        Some (Returned code pid) \<Rightarrow>
          if code \<noteq> 0 then Some (Some pid)
          else if retry_count + 1 \<ge> SERVER_FORK_RETRY_COUNT then Some None
          else spawn_loop forks (retry_count + 1) args
      | _ \<Rightarrow> None)"
  by pat_completeness auto
termination
  by (relation "measure (\<lambda>(f, n, a). SERVER_FORK_RETRY_COUNT - n)") auto

declare spawn_loop.simps [simp del]

definition started_with :: "server \<Rightarrow> string \<Rightarrow> string list" where
  "started_with s pipe_id =
     (case processExec InChild True ''./run'' ''run'' (worker_args s pipe_id) of
        Some (Runs path argv) \<Rightarrow> argv | _ \<Rightarrow> [])"

definition start_worker :: "kernel \<Rightarrow> int \<Rightarrow> int \<Rightarrow> server \<Rightarrow> stop + server" where
  "start_worker ke tester_pid loc_id s =
     and_then (msgPipeCreate (ke_pipe ke) GRAPH_BUF_SIZE (sv_fds s)) (\<lambda>(pipe_id, fds).
     and_then (msgPipeOpen pipe_id) (\<lambda>pipe.
       let s = s\<lparr> sv_fds := fds \<rparr>;
           pipe_str = snd (msgPipeIDToStr pipe_id) in
       case spawn_loop (ke_fork ke) 0 (worker_args s pipe_str) of
         None \<Rightarrow> Inl Undefined
       | Some None \<Rightarrow> Inr s
       | Some (Some pid) \<Rightarrow>
           (let rs = \<lparr> rs_graphDataPipeID = pipe_id, rs_graphDataPipe = pipe, rs_pid = pid,
                       rs_testerSourcePid = wrap32 tester_pid, rs_loc_id = loc_id \<rparr>;
                s = s\<lparr> sv_run := table_put pid rs (sv_run s),
                       sv_log := sv_log s @ [Spawned pid (started_with s pipe_str)] \<rparr> in
            and_then (msgPipeWrite pipe (sv_graph s) (sv_fds s)) (\<lambda>(_, fds).
              Inr (s\<lparr> sv_fds := fds, sv_active := sv_active s + 1 \<rparr>)))))"

definition handle_parse :: "kernel \<Rightarrow> int \<Rightarrow> int \<Rightarrow> server \<Rightarrow> stop + server" where
  "handle_parse ke buffer_pid loc_id s =
     and_then (if map_of (sv_testers s) (wrap32 buffer_pid) = None then new_session ke buffer_pid s else Inr s) (\<lambda>s.
       start_worker ke buffer_pid loc_id
         (s\<lparr> sv_testers := table_upd (wrap32 buffer_pid) (\<lambda>t. t\<lparr> ts_rcd_count := ts_rcd_count t + 1 \<rparr>) (sv_testers s) \<rparr>))"

definition handle_report :: "kernel \<Rightarrow> string \<Rightarrow> server \<Rightarrow> stop + server" where
  "handle_report ke msg s =
     (let s = s\<lparr> sv_buffer := [] \<rparr> in
      if msg = ''exit'' then Inr (s\<lparr> sv_shouldTerminate := True \<rparr>)
      else let (k, as) = read_parse msg in
        if k = 0 then Inr s
        else let s = s\<lparr> sv_buffer_pid := got_int as 0 (sv_buffer_pid s),
                        sv_buffer2 := the (got_str as 1 (Some (sv_buffer2 s))),
                        sv_loc_id := got_int as 2 (sv_loc_id s),
                        sv_buffer := the (got_str as 3 (Some (sv_buffer s))), sv_rcd := sv_rcd s + 1 \<rparr> in
          case (sv_buffer_pid s, sv_loc_id s) of
            (Some buffer_pid, Some loc_id) \<Rightarrow> handle_parse ke buffer_pid loc_id s
          | _ \<Rightarrow> Inl Undefined)"

section \<open>Termination\<close>

definition broadcast_exit :: "server \<Rightarrow> server" where
  "broadcast_exit s = s\<lparr> sv_log := sv_log s @ map (\<lambda>(_, t). SentTo (ts_queue t) ''exit'') (sv_testers s) \<rparr>"

definition tester_report :: "TesterSlot \<Rightarrow> string" where
  "tester_report t =
     (if ts_rcd_count t > 0
      then sprintf ''PID: %d'' [AInt (ts_pid t)] @ [CHR 0x0A] @ sprintf ''Rcd: %d'' [AInt (ts_rcd_count t)] @ [CHR 0x0A] @
           sprintf ''Acc: %d'' [AInt (ts_acc_count t)] @ [CHR 0x0A]
      else [])"

definition server_report :: "server \<Rightarrow> string" where
  "server_report s =
     sprintf ''Rcd: %d'' [AInt (sv_rcd s)] @ [CHR 0x0A] @ sprintf ''Snt: %d'' [AInt (sv_snt s)] @ [CHR 0x0A] @
     sprintf ''Acc: %d'' [AInt (sv_acc s)] @ [CHR 0x0A] @ concat (map (\<lambda>(_, t). tester_report t) (sv_testers s))"

text \<open>The loop that closes the pipes of the sessions left over.\<close>

fun close_pipes :: "(int \<times> RunSlot) list \<Rightarrow> descriptors \<Rightarrow> stop + descriptors" where
  "close_pipes [] fds = Inr fds"
| "close_pipes ((_, rs) # rest) fds =
     and_then (msgPipeClose (rs_graphDataPipe rs) fds) (\<lambda>(_, _, fds). close_pipes rest fds)"

text \<open>Behind the loop: the report and the state of the descriptors.\<close>

definition server_finish :: "server \<Rightarrow> stop + (string \<times> descriptors)" where
  "server_finish s = and_then (close_pipes (sv_run s) (sv_fds s)) (\<lambda>fds. Inr (server_report s, fds))"

section \<open>The event loop\<close>

text \<open>
  The server is at one of the points where it touches a queue or its children; \<open>Children b\<close> remembers
  whether no result message was read in this round.
\<close>

datatype phase = Registering | ReadingResult | Children bool | ReadingReport | Left | Dead stop

record system =
  sy_server :: server
  sy_phase :: phase
  sy_register :: "string list"
  sy_result :: "string list"
  sy_report :: "string list"

definition continue_with :: "stop + server \<Rightarrow> phase \<Rightarrow> system \<Rightarrow> system" where
  "continue_with r p y = (case r of
     Inl e \<Rightarrow> y\<lparr> sy_phase := Dead e \<rparr>
   | Inr s \<Rightarrow> y\<lparr> sy_server := s, sy_phase := p \<rparr>)"

definition after_children :: "kernel \<Rightarrow> bool \<Rightarrow> system \<Rightarrow> system" where
  "after_children ke no_run_msg y = (case reap_children ke (sy_server y) of
     Inl e \<Rightarrow> y\<lparr> sy_phase := Dead e \<rparr>
   | Inr (status, s) \<Rightarrow>
       (let s = check_force status no_run_msg s in
        if \<not> sv_shouldTerminate s then y\<lparr> sy_server := s, sy_phase := ReadingReport \<rparr>
        else if sv_forceTermination s then y\<lparr> sy_server := broadcast_exit s, sy_phase := Left \<rparr>
        else y\<lparr> sy_server := s, sy_phase := Registering \<rparr>))"

text \<open>One move of the server; \<open>None\<close> when it waits or has left its loop.\<close>

definition server_step :: "kernel \<Rightarrow> system \<Rightarrow> system option" where
  "server_step ke y = (case sy_phase y of
     Registering \<Rightarrow>
       (case sy_register y of
          m # ms \<Rightarrow> Some (continue_with (handle_register ke m (sy_server y)) Registering (y\<lparr> sy_register := ms \<rparr>))
        | [] \<Rightarrow> Some (continue_with (throttle_lock ke (sy_server y)) ReadingResult y))
   | ReadingResult \<Rightarrow>
       (case sy_result y of
          m # ms \<Rightarrow> Some (continue_with (handle_run_terminate ke m (sy_server y)) (Children False) (y\<lparr> sy_result := ms \<rparr>))
        | [] \<Rightarrow> if sv_run_blocking (sy_server y) then None else Some (y\<lparr> sy_phase := Children True \<rparr>))
   | Children no_run_msg \<Rightarrow> Some (after_children ke no_run_msg y)
   | ReadingReport \<Rightarrow>
       (case sy_report y of
          m # ms \<Rightarrow> Some (continue_with (handle_report ke m (sy_server y)) Registering (y\<lparr> sy_report := ms \<rparr>))
        | [] \<Rightarrow> if sv_report_blocking (sy_server y) then None else Some (y\<lparr> sy_phase := Registering \<rparr>))
   | _ \<Rightarrow> None)"

text \<open>
  The system: testers and workers send messages at any time, between any two moves of the server.
  The three predicates say which messages may be sent to the three queues.
\<close>

inductive moves ::
  "(string \<Rightarrow> bool) \<Rightarrow> (string \<Rightarrow> bool) \<Rightarrow> (string \<Rightarrow> bool) \<Rightarrow> system \<Rightarrow> system \<Rightarrow> bool" for R W P where
  start: "moves R W P y y"
| registers: "moves R W P y z \<Longrightarrow> R m \<Longrightarrow> moves R W P y (z\<lparr> sy_register := sy_register z @ [m] \<rparr>)"
| results: "moves R W P y z \<Longrightarrow> W m \<Longrightarrow> moves R W P y (z\<lparr> sy_result := sy_result z @ [m] \<rparr>)"
| reports: "moves R W P y z \<Longrightarrow> P m \<Longrightarrow> moves R W P y (z\<lparr> sy_report := sy_report z @ [m] \<rparr>)"
| serves: "moves R W P y z \<Longrightarrow> server_step ke z = Some z' \<Longrightarrow> moves R W P y z'"

definition boot :: "server \<Rightarrow> system" where
  "boot s = \<lparr> sy_server = s, sy_phase = Registering, sy_register = [], sy_result = [], sy_report = [] \<rparr>"

end
