(* ===== verification/ServerInvariant.thy ===== *)
theory ServerInvariant
  imports Server
begin

text \<open>
  The invariant of the server: its session tables fit together (\<open>sessions_ok\<close>), its counters are
  consistent (\<open>counters_ok\<close>), and every worker session owns an open pipe of its own (\<open>pipes_ok\<close>).
  Every handler keeps it, so it holds in every state the system reaches.
\<close>

section \<open>Tables\<close>

abbreviation keys :: "(int \<times> 'v) list \<Rightarrow> int set" where
  "keys t \<equiv> fst ` set t"

lemma distinct_put: "distinct (map fst t) \<Longrightarrow> distinct (map fst (table_put k v t))"
  by (auto simp: table_put_def distinct_map_filter)

lemma distinct_del: "distinct (map fst t) \<Longrightarrow> distinct (map fst (table_del k t))"
  by (simp add: table_del_def distinct_map_filter)

lemma fst_upd [simp]: "map fst (table_upd k f t) = map fst t"
  by (induction t) (auto simp: table_upd_def)

lemma keys_upd [simp]: "keys (table_upd k f t) = keys t"
  using fst_upd [of k f t] by (metis list.set_map)

lemma keys_put [simp]: "keys (table_put k v t) = insert k (keys t)"
  by (auto simp: table_put_def)

lemma set_put: "set (table_put k v t) = insert (k, v) {kv \<in> set t. fst kv \<noteq> k}"
  by (auto simp: table_put_def)

lemma ball_put: "P (k, v) \<Longrightarrow> \<forall>kv \<in> set t. P kv \<Longrightarrow> \<forall>kv \<in> set (table_put k v t). P kv"
  by (auto simp: table_put_def)

lemma ball_upd: "(\<forall>v. P (k, v) \<longrightarrow> P (k, f v)) \<Longrightarrow> \<forall>kv \<in> set t. P kv \<Longrightarrow> \<forall>kv \<in> set (table_upd k f t). P kv"
  by (auto simp: table_upd_def)

lemma set_del: "set (table_del k t) = {kv \<in> set t. fst kv \<noteq> k}"
  by (auto simp: table_del_def)

lemma length_del:
  "distinct (map fst t) \<Longrightarrow> map_of t k = Some v \<Longrightarrow> Suc (length (table_del k t)) = length t"
proof (induction t)
  case (Cons kv t)
  have "\<forall>x \<in> set t. fst x \<noteq> fst kv"
    using Cons.prems(1) by (metis distinct.simps(2) image_eqI list.simps(9) list.set_map)
  then have "filter (\<lambda>x. fst x \<noteq> k) t = t" if "fst kv = k"
    using that by (intro filter_True) simp
  with Cons show ?case by (auto simp: table_del_def split: if_splits)
qed simp

lemma length_put: "length (table_put k v t) \<le> Suc (length t)"
  by (simp add: table_put_def)

lemma map_of_upd: "map_of (table_upd k f t) k' = (if k' = k then map_option f (map_of t k) else map_of t k')"
  by (induction t) (auto simp: table_upd_def)

lemma map_of_put: "map_of (table_put k v t) k' = (if k' = k then Some v else map_of t k')"
  by (induction t) (auto simp: table_put_def)

lemma map_of_del: "map_of (table_del k t) k' = (if k' = k then None else map_of t k')"
  by (induction t) (auto simp: table_del_def)

definition tally :: "('v \<Rightarrow> int) \<Rightarrow> (int \<times> 'v) list \<Rightarrow> int" where
  "tally f t = sum_list (map (\<lambda>kv. f (snd kv)) t)"

lemma tally_simps [simp]: "tally f [] = 0" "tally f (kv # t) = f (snd kv) + tally f t"
  by (simp_all add: tally_def)

lemma tally_put: "\<forall>kv \<in> set t. 0 \<le> f (snd kv) \<Longrightarrow> tally f (table_put k v t) \<le> tally f t + f v"
  by (induction t) (auto simp: table_put_def tally_def)

lemma tally_upd_other: "k \<notin> keys t \<Longrightarrow> tally f (table_upd k g t) = tally f t"
  by (induction t) (auto simp: table_upd_def tally_def)

lemma tally_upd:
  "distinct (map fst t) \<Longrightarrow> \<forall>v. f (g v) = f v + d \<Longrightarrow> 0 \<le> d \<Longrightarrow> tally f (table_upd k g t) \<le> tally f t + d"
proof (induction t)
  case (Cons kv t)
  show ?case
  proof (cases "fst kv = k")
    case True
    with Cons.prems have "tally f (table_upd k g t) = tally f t" by (intro tally_upd_other) auto
    with True Cons.prems show ?thesis by (simp add: table_upd_def)
  next
    case False
    with Cons show ?thesis by (simp add: table_upd_def)
  qed
qed (simp add: table_upd_def)

section \<open>The invariant\<close>

definition sessions_ok :: "server \<Rightarrow> bool" where
  "sessions_ok s \<longleftrightarrow> distinct (map fst (sv_run s)) \<and> distinct (map fst (sv_testers s)) \<and>
     (\<forall>kt \<in> set (sv_testers s). ts_pid (snd kt) = fst kt) \<and>
     (\<forall>kr \<in> set (sv_run s). rs_testerSourcePid (snd kr) \<in> keys (sv_testers s))"

definition counters_ok :: "server \<Rightarrow> bool" where
  "counters_ok s \<longleftrightarrow> sv_snt s + int (length (sv_run s)) \<le> sv_rcd s \<and> 0 \<le> sv_acc s \<and> sv_acc s \<le> sv_snt s \<and>
     tally ts_rcd_count (sv_testers s) \<le> sv_rcd s \<and> tally ts_acc_count (sv_testers s) \<le> sv_acc s \<and>
     (\<forall>kt \<in> set (sv_testers s). 0 \<le> ts_rcd_count (snd kt) \<and> 0 \<le> ts_acc_count (snd kt))"

definition pipe_open :: "descriptors \<Rightarrow> MsgPipe \<Rightarrow> bool" where
  "pipe_open fds p \<longleftrightarrow> mp_good p \<and> mp_opened_read p \<and> mp_opened_write p \<and> mp_read p < mp_write p \<and>
     mp_write p < k_next_fd fds \<and> map_of (k_open fds) (mp_read p) \<noteq> None \<and> map_of (k_open fds) (mp_write p) \<noteq> None"

definition pipes_ok :: "(int \<times> RunSlot) list \<Rightarrow> descriptors \<Rightarrow> bool" where
  "pipes_ok t fds \<longleftrightarrow> (\<forall>kr \<in> set t. pipe_open fds (rs_graphDataPipe (snd kr))) \<and>
     (\<forall>kr \<in> set t. \<forall>kr' \<in> set t. fst kr \<noteq> fst kr' \<longrightarrow>
        mp_write (rs_graphDataPipe (snd kr)) < mp_read (rs_graphDataPipe (snd kr')) \<or>
        mp_write (rs_graphDataPipe (snd kr')) < mp_read (rs_graphDataPipe (snd kr)))"

definition server_ok :: "server \<Rightarrow> bool" where
  "server_ok s \<longleftrightarrow> sessions_ok s \<and> counters_ok s \<and> pipes_ok (sv_run s) (sv_fds s)"

lemmas ok_defs = server_ok_def sessions_ok_def counters_ok_def

lemma server_ok_irrelevant [simp]:
  "server_ok (s\<lparr> sv_buffer := x1 \<rparr>) = server_ok s" "server_ok (s\<lparr> sv_buffer2 := x1 \<rparr>) = server_ok s"
  "server_ok (s\<lparr> sv_buffer_pid := x2 \<rparr>) = server_ok s" "server_ok (s\<lparr> sv_buffer_result := x2 \<rparr>) = server_ok s"
  "server_ok (s\<lparr> sv_loc_id := x2 \<rparr>) = server_ok s" "server_ok (s\<lparr> sv_active := x3 \<rparr>) = server_ok s"
  "server_ok (s\<lparr> sv_shouldTerminate := b \<rparr>) = server_ok s" "server_ok (s\<lparr> sv_forceTermination := b \<rparr>) = server_ok s"
  "server_ok (s\<lparr> sv_throttled := b \<rparr>) = server_ok s" "server_ok (s\<lparr> sv_run_blocking := b \<rparr>) = server_ok s"
  "server_ok (s\<lparr> sv_report_blocking := b \<rparr>) = server_ok s" "server_ok (s\<lparr> sv_log := l \<rparr>) = server_ok s"
  by (simp_all add: ok_defs)

lemma server_ok_more_requests: "server_ok s \<Longrightarrow> server_ok (s\<lparr> sv_rcd := sv_rcd s + 1 \<rparr>)"
  by (simp add: ok_defs)

section \<open>The handlers keep it\<close>

lemma new_session_ok:
  assumes "server_ok s" "new_session ke pid s = Inr s'"
  shows "server_ok s' \<and> wrap32 pid \<in> keys (sv_testers s') \<and>
    (\<exists>t. s' = s\<lparr> sv_testers := table_put (wrap32 pid) t (sv_testers s) \<rparr> \<and> ts_pid t = wrap32 pid \<and>
       ts_queue t = sv_buffer2 s \<and> ts_rcd_count t = 0 \<and> ts_acc_count t = 0)"
proof -
  obtain t where s': "s' = s\<lparr> sv_testers := table_put (wrap32 pid) t (sv_testers s) \<rparr>" "ts_pid t = wrap32 pid"
    "ts_queue t = sv_buffer2 s" "ts_rcd_count t = 0" "ts_acc_count t = 0"
    using assms(2) opens_Inr by (fastforce simp: new_session_def and_then_Inr split: if_splits)
  have "tally f (table_put (wrap32 pid) t (sv_testers s)) \<le> tally f (sv_testers s)"
    if "f = ts_rcd_count \<or> f = ts_acc_count" for f
  proof -
    have "\<forall>kv \<in> set (sv_testers s). 0 \<le> f (snd kv)" "f t = 0" using assms(1) s' that by (auto simp: ok_defs)
    with tally_put [of "sv_testers s" f "wrap32 pid" t] show ?thesis by simp
  qed
  then have "tally ts_rcd_count (table_put (wrap32 pid) t (sv_testers s)) \<le> sv_rcd s"
    "tally ts_acc_count (table_put (wrap32 pid) t (sv_testers s)) \<le> sv_acc s"
    using assms(1) order_trans unfolding ok_defs by blast+
  moreover have "\<forall>kt \<in> set (table_put (wrap32 pid) t (sv_testers s)). ts_pid (snd kt) = fst kt"
    using assms(1) s'(2) by (intro ball_put) (simp_all add: ok_defs)
  moreover have "\<forall>kt \<in> set (table_put (wrap32 pid) t (sv_testers s)). 0 \<le> ts_rcd_count (snd kt) \<and> 0 \<le> ts_acc_count (snd kt)"
    using assms(1) s' by (intro ball_put) (simp_all add: ok_defs)
  ultimately have "server_ok s'" using assms(1) by (simp add: ok_defs distinct_put s'(1))
  with s' show ?thesis by auto
qed

lemma handle_register_ok:
  assumes "server_ok s" "handle_register ke m s = Inr s'"
  shows "server_ok s'"
proof -
  obtain k as where r: "read_register m = (k, as)" by force
  show ?thesis
  proof (cases "k = 0")
    case True
    with assms r show ?thesis by (simp add: handle_register_def)
  next
    case False
    with assms(2) r obtain pid where "new_session ke pid (s\<lparr> sv_buffer_pid := got_int as 0 (sv_buffer_pid s),
        sv_buffer2 := the (got_str as 1 (Some (sv_buffer2 s))) \<rparr>) = Inr s'"
      by (auto simp: handle_register_def Let_def split: option.splits)
    with new_session_ok [OF _ this] assms(1) show ?thesis by simp
  qed
qed

lemma throttle_ok:
  "server_ok s \<Longrightarrow> throttle_lock ke s = Inr s' \<Longrightarrow> server_ok s'"
  "server_ok s \<Longrightarrow> throttle_unlock ke s = Inr s' \<Longrightarrow> server_ok s'"
  by (auto simp: throttle_lock_def throttle_unlock_def split: if_splits)

text \<open>Closing the pipe of a session leaves the pipes of the others alone.\<close>

lemma close_session_pipe:
  assumes "pipes_ok t fds" "map_of t pid = Some rs"
  shows "\<exists>m' fds'. msgPipeClose (rs_graphDataPipe rs) fds = Inr (1, m', fds') \<and> pipes_ok (table_del pid t) fds' \<and>
    k_open fds' = filter (\<lambda>e. fst e \<noteq> mp_read (rs_graphDataPipe rs) \<and> fst e \<noteq> mp_write (rs_graphDataPipe rs)) (k_open fds) \<and>
    k_capacity fds' = k_capacity fds \<and> k_next_fd fds' = k_next_fd fds"
proof -
  let ?p = "rs_graphDataPipe rs"
  have mem: "(pid, rs) \<in> set t" using assms(2) by (rule map_of_SomeD)
  then have p: "pipe_open fds ?p" using assms(1) by (force simp: pipes_ok_def)
  then have "pipe_inv fds ?p fds" "mp_good ?p" by (auto simp: pipe_open_def pipe_inv_def closed_ends_def)
  from msgPipeClose_ok [OF this] obtain m' fds' where c: "msgPipeClose ?p fds = Inr (1, m', fds')"
    "pipe_inv fds m' fds'" "same_ends ?p m'" "\<not> mp_opened_read m'" "\<not> mp_opened_write m'" by blast
  then have ends: "closed_ends m' = {mp_read ?p, mp_write ?p}" by (auto simp: closed_ends_def same_ends_def)
  then have fds': "fds' = fds\<lparr> k_open := filter (\<lambda>e. fst e \<notin> {mp_read ?p, mp_write ?p}) (k_open fds) \<rparr>"
    using c(2) by (simp add: pipe_inv_def)
  have "pipe_open fds' (rs_graphDataPipe (snd kr))" if kr: "kr \<in> set t" "fst kr \<noteq> pid" for kr
  proof -
    let ?q = "rs_graphDataPipe (snd kr)"
    have q: "pipe_open fds ?q" "mp_write ?p < mp_read ?q \<or> mp_write ?q < mp_read ?p"
      using assms(1) mem kr by (force simp: pipes_ok_def)+
    then have "mp_read ?q \<notin> {mp_read ?p, mp_write ?p}" "mp_write ?q \<notin> {mp_read ?p, mp_write ?p}"
      using p by (auto simp: pipe_open_def)
    with q(1) map_of_filter_key [of "\<lambda>fd. fd \<notin> {mp_read ?p, mp_write ?p}" "k_open fds"] show ?thesis
      by (simp add: fds' pipe_open_def)
  qed
  then have "pipes_ok (table_del pid t) fds'" using assms(1) by (auto simp: pipes_ok_def set_del)
  with c(1) fds' show ?thesis by auto
qed

text \<open>The loop finds the session of the tester, when there is one.\<close>

lemma find_tester_own:
  "\<forall>kt \<in> set t. ts_pid (snd kt) = fst kt \<Longrightarrow> map_of t pid = Some ts \<Longrightarrow> find_tester pid d t = Some ts"
  by (induction pid d t rule: find_tester.induct) (auto split: if_splits)

lemma key_mapped: "k \<in> keys t \<Longrightarrow> \<exists>v. map_of t k = Some v"
  by (induction t) auto

lemma send_answer_sel [simp]:
  "sv_run (send_answer ts rs r s) = sv_run s" "sv_fds (send_answer ts rs r s) = sv_fds s"
  "sv_rcd (send_answer ts rs r s) = sv_rcd s" "sv_snt (send_answer ts rs r s) = sv_snt s + 1"
  "sv_active (send_answer ts rs r s) = sv_active s" "keys (sv_testers (send_answer ts rs r s)) = keys (sv_testers s)"
  "sv_throttled (send_answer ts rs r s) = sv_throttled s" "sv_run_blocking (send_answer ts rs r s) = sv_run_blocking s"
  "sv_report_blocking (send_answer ts rs r s) = sv_report_blocking s"
  "sv_shouldTerminate (send_answer ts rs r s) = sv_shouldTerminate s"
  "sv_forceTermination (send_answer ts rs r s) = sv_forceTermination s"
  "sv_acc (send_answer ts rs r s) = sv_acc s + of_bool (r = 1)"
  "sv_buffer (send_answer ts rs r s) = sv_buffer s"
  by (auto simp: send_answer_def Let_def)

lemma finish_run_ok:
  assumes "server_ok s" "map_of (sv_run s) pid = Some rs"
  shows "\<exists>s' ts. finish_run pid rs r s = Inr s' \<and> server_ok s' \<and>
    map_of (sv_testers s) (rs_testerSourcePid rs) = Some ts \<and>
    sv_log s' = sv_log s @ [SentTo (ts_queue ts) (write_answer (rs_loc_id rs) r)] \<and>
    sv_run s' = table_del pid (sv_run s) \<and> sv_snt s' = sv_snt s + 1 \<and> sv_acc s' = sv_acc s + of_bool (r = 1) \<and>
    sv_rcd s' = sv_rcd s \<and> sv_active s' = sv_active s \<and> sv_throttled s' = sv_throttled s \<and>
    sv_run_blocking s' = sv_run_blocking s \<and> sv_report_blocking s' = sv_report_blocking s \<and>
    sv_shouldTerminate s' = sv_shouldTerminate s \<and> sv_forceTermination s' = sv_forceTermination s \<and>
    sv_buffer s' = sv_buffer s \<and> sv_graph s' = sv_graph s \<and>
    k_capacity (sv_fds s') = k_capacity (sv_fds s) \<and> k_next_fd (sv_fds s') = k_next_fd (sv_fds s) \<and>
    sv_testers s' = (if r = 1 then table_upd (rs_testerSourcePid rs) (\<lambda>t. t\<lparr> ts_acc_count := ts_acc_count t + 1 \<rparr>) (sv_testers s)
      else sv_testers s) \<and>
    map_of (sv_testers s') (rs_testerSourcePid rs) = Some (ts\<lparr> ts_acc_count := ts_acc_count ts + of_bool (r = 1) \<rparr>)"
proof -
  have ok: "sessions_ok s" "counters_ok s" "pipes_ok (sv_run s) (sv_fds s)" using assms(1) by (simp_all add: server_ok_def)
  obtain m' fds' where c: "msgPipeClose (rs_graphDataPipe rs) (sv_fds s) = Inr (1, m', fds')"
    "pipes_ok (table_del pid (sv_run s)) fds'" "k_capacity fds' = k_capacity (sv_fds s)" "k_next_fd fds' = k_next_fd (sv_fds s)"
    using close_session_pipe [OF ok(3) assms(2)] by blast
  have "(pid, rs) \<in> set (sv_run s)" using assms(2) by (rule map_of_SomeD)
  then obtain ts where ts: "map_of (sv_testers s) (rs_testerSourcePid rs) = Some ts"
    using ok(1) key_mapped unfolding sessions_ok_def by (metis snd_conv)
  then have pid: "ts_pid ts = rs_testerSourcePid rs"
    using ok(1) map_of_SomeD unfolding sessions_ok_def by (metis fst_conv snd_conv)
  let ?s = "s\<lparr> sv_fds := fds' \<rparr>"
  let ?s' = "(send_answer ts rs r ?s)\<lparr> sv_run := table_del pid (sv_run s) \<rparr>"
  have "find_tester (rs_testerSourcePid rs) None (sv_testers s) = Some ts"
    using find_tester_own ts ok(1) by (simp add: sessions_ok_def)
  then have f: "finish_run pid rs r s = Inr ?s'" using c(1) by (simp add: finish_run_def Let_def)
  have t': "sv_testers ?s' = (if r = 1
      then table_upd (ts_pid ts) (\<lambda>t. t\<lparr> ts_acc_count := ts_acc_count t + 1 \<rparr>) (sv_testers s) else sv_testers s)"
    by (simp add: send_answer_def Let_def)
  have dist: "distinct (map fst (sv_testers s))" using ok(1) by (simp add: sessions_ok_def)
  have "tally ts_acc_count (table_upd k (\<lambda>t. t\<lparr> ts_acc_count := ts_acc_count t + 1 \<rparr>) (sv_testers s)) \<le>
      tally ts_acc_count (sv_testers s) + 1" for k
    by (rule tally_upd [OF dist]) simp_all
  moreover have "tally ts_rcd_count (table_upd k (\<lambda>t. t\<lparr> ts_acc_count := ts_acc_count t + 1 \<rparr>) (sv_testers s)) \<le>
      tally ts_rcd_count (sv_testers s) + 0" for k
    by (rule tally_upd [OF dist]) simp_all
  moreover have "\<forall>kt \<in> set (table_upd k (\<lambda>t. t\<lparr> ts_acc_count := ts_acc_count t + 1 \<rparr>) (sv_testers s)).
      0 \<le> ts_rcd_count (snd kt) \<and> 0 \<le> ts_acc_count (snd kt)" for k
    using ok(2) by (intro ball_upd) (simp_all add: counters_ok_def)
  moreover have "int (length (table_del pid (sv_run s))) + 1 = int (length (sv_run s))"
    using length_del [of "sv_run s" pid rs] ok(1) assms(2) by (simp add: sessions_ok_def)
  moreover have "tally ts_rcd_count (sv_testers s) \<le> sv_rcd s" "tally ts_acc_count (sv_testers s) \<le> sv_acc s"
    using ok(2) by (simp_all add: counters_ok_def)
  ultimately have "tally ts_rcd_count (sv_testers ?s') \<le> sv_rcd s" "tally ts_acc_count (sv_testers ?s') \<le> sv_acc s + of_bool (r = 1)"
    "\<forall>kt \<in> set (sv_testers ?s'). 0 \<le> ts_rcd_count (snd kt) \<and> 0 \<le> ts_acc_count (snd kt)"
    "sv_snt s + 1 + int (length (table_del pid (sv_run s))) \<le> sv_rcd s"
    using ok(2) unfolding t' by (smt (verit) counters_ok_def of_bool_eq)+
  then have "counters_ok ?s'" using ok(2) by (simp add: counters_ok_def)
  moreover have "\<forall>kt \<in> set (table_upd k (\<lambda>t. t\<lparr> ts_acc_count := ts_acc_count t + 1 \<rparr>) (sv_testers s)). ts_pid (snd kt) = fst kt" for k
    using ok(1) by (intro ball_upd) (simp_all add: sessions_ok_def)
  moreover have "\<forall>kr \<in> set (table_del pid (sv_run s)). rs_testerSourcePid (snd kr) \<in> keys (sv_testers s)"
    using ok(1) unfolding sessions_ok_def set_del by blast
  ultimately have "sessions_ok ?s'"
    using ok(1) by (simp add: sessions_ok_def t' distinct_del)
  with \<open>counters_ok ?s'\<close> have "server_ok ?s'" using c(2) by (simp add: server_ok_def)
  moreover have "map_of (sv_testers ?s') (rs_testerSourcePid rs) = Some (ts\<lparr> ts_acc_count := ts_acc_count ts + of_bool (r = 1) \<rparr>)"
    unfolding t' using ts pid by (simp add: map_of_upd)
  ultimately show ?thesis using f ts c(3,4) pid by (intro exI [of _ ?s'] exI [of _ ts]) (simp add: send_answer_def Let_def)
qed

section \<open>Starting a worker\<close>

text \<open>The id of the worker: that of the first of at most three attempts that succeeds.\<close>

definition worker_pid :: "kernel \<Rightarrow> int option" where
  "worker_pid ke =
     (if ke_fork ke 0 \<noteq> None then ke_fork ke 0 else if ke_fork ke 1 \<noteq> None then ke_fork ke 1 else ke_fork ke 2)"

lemma spawn_loop_result: "spawn_loop (ke_fork ke) 0 args = Some (worker_pid ke)"
proof -
  have step: "spawn_loop (ke_fork ke) n args =
      (case ke_fork ke n of Some pid \<Rightarrow> Some (Some pid)
       | None \<Rightarrow> if n \<ge> 2 then Some None else spawn_loop (ke_fork ke) (Suc n) args)" for n
    by (subst spawn_loop.simps) (simp add: processExec_def processFork_def config split: option.split)
  show ?thesis
    by (simp add: step [of 0] step [of "Suc 0"] step [of "Suc (Suc 0)"] worker_pid_def numeral_2_eq_2 split: option.split)
qed

definition worker_argv :: "server \<Rightarrow> string \<Rightarrow> string list" where
  "worker_argv s pipe_str = [''run'', pipe_str, sv_buffer s] @ (if sv_verbose s then [''-v''] else [])"

lemma started_with_argv: "started_with s pipe_str = worker_argv s pipe_str"
  by (simp add: started_with_def processExec_def processFork_def exec_argv_def worker_args_def worker_argv_def)

definition same_mode :: "server \<Rightarrow> server \<Rightarrow> bool" where
  "same_mode s s' \<longleftrightarrow> sv_throttled s' = sv_throttled s \<and> sv_run_blocking s' = sv_run_blocking s \<and>
     sv_report_blocking s' = sv_report_blocking s \<and> sv_shouldTerminate s' = sv_shouldTerminate s \<and>
     sv_forceTermination s' = sv_forceTermination s"

text \<open>The pipe made for a worker: open, above all older descriptors, and holding the graph.\<close>

definition holds_graph :: "descriptors \<Rightarrow> MsgPipeID \<Rightarrow> string \<Rightarrow> bool" where
  "holds_graph fds i graph \<longleftrightarrow> id_good i \<and> id_buff_size i = GRAPH_BUF_SIZE + 7 \<and>
     (\<exists>p. map_of (k_open fds) (id_read i) = Some (ReadEnd p) \<and> map_of (k_open fds) (id_write i) = Some (WriteEnd p) \<and>
        k_data fds p = graph)"

lemma new_pipe:
  fixes fds :: descriptors
  defines "r \<equiv> k_next_fd fds"
  shows "\<exists>i pipe fds1 fds2. msgPipeCreate True GRAPH_BUF_SIZE fds = Inr (i, fds1) \<and> msgPipeOpen i = Inr pipe \<and>
    msgPipeWrite pipe graph fds1 = Inr (1, fds2) \<and> pipe_open fds2 pipe \<and> mp_read pipe = r \<and> mp_write pipe = r + 1 \<and>
    id_read i = r \<and> id_write i = r + 1 \<and> holds_graph fds2 i graph \<and>
    k_next_fd fds1 = r + 2 \<and> k_next_fd fds2 = r + 2 \<and> k_capacity fds1 = k_capacity fds \<and> k_capacity fds2 = k_capacity fds \<and>
    (\<forall>fd. fd < r \<longrightarrow> map_of (k_open fds1) fd = map_of (k_open fds) fd \<and> map_of (k_open fds2) fd = map_of (k_open fds) fd)"
  by (simp add: msgPipeCreate_def sys_pipe_def msgPipeOpen_def msgPipeWrite_def sys_write_def Let_def pipe_open_def
      holds_graph_def r_def config)

lemma pipes_ok_more:
  assumes "pipes_ok t fds" "k_next_fd fds \<le> k_next_fd fds'"
    and "\<forall>fd. fd < k_next_fd fds \<longrightarrow> map_of (k_open fds') fd = map_of (k_open fds) fd"
  shows "pipes_ok t fds'"
  using assms by (fastforce simp: pipes_ok_def pipe_open_def)

lemma pipes_ok_put:
  assumes "pipes_ok t fds'" "pipe_open fds' (rs_graphDataPipe rs)"
    and "\<forall>kr \<in> set t. mp_write (rs_graphDataPipe (snd kr)) < mp_read (rs_graphDataPipe rs)"
  shows "pipes_ok (table_put k rs t) fds'"
  unfolding pipes_ok_def
proof (intro conjI ballI impI)
  fix kr assume "kr \<in> set (table_put k rs t)"
  with assms show "pipe_open fds' (rs_graphDataPipe (snd kr))" by (auto simp: pipes_ok_def set_put)
next
  fix kr kr' assume kr: "kr \<in> set (table_put k rs t)" "kr' \<in> set (table_put k rs t)" "fst kr \<noteq> fst kr'"
  show "mp_write (rs_graphDataPipe (snd kr)) < mp_read (rs_graphDataPipe (snd kr')) \<or>
      mp_write (rs_graphDataPipe (snd kr')) < mp_read (rs_graphDataPipe (snd kr))"
  proof (cases "kr = (k, rs) \<or> kr' = (k, rs)")
    case True
    with kr assms(3) show ?thesis by (auto simp: set_put)
  next
    case False
    then have "kr \<in> set t" "kr' \<in> set t" using kr by (auto simp: set_put)
    with kr(3) assms(1) show ?thesis unfolding pipes_ok_def by blast
  qed
qed

lemma start_worker_ok:
  assumes "sessions_ok s" "counters_ok s" "pipes_ok (sv_run s) (sv_fds s)"
    and "sv_snt s + int (length (sv_run s)) + 1 \<le> sv_rcd s" "wrap32 tp \<in> keys (sv_testers s)" "ke_pipe ke"
  shows "\<exists>s'. start_worker ke tp loc s = Inr s' \<and> server_ok s' \<and> same_mode s s' \<and> sv_testers s' = sv_testers s \<and>
    sv_snt s' = sv_snt s \<and> sv_rcd s' = sv_rcd s \<and> sv_acc s' = sv_acc s \<and> sv_buffer s' = sv_buffer s \<and>
    sv_graph s' = sv_graph s \<and> k_capacity (sv_fds s') = k_capacity (sv_fds s) \<and>
    k_next_fd (sv_fds s') = k_next_fd (sv_fds s) + 2 \<and>
    (case worker_pid ke of
       None \<Rightarrow> sv_run s' = sv_run s \<and> sv_log s' = sv_log s \<and> sv_active s' = sv_active s
     | Some pid \<Rightarrow> sv_active s' = sv_active s + 1 \<and>
         (\<exists>rs i. sv_run s' = table_put pid rs (sv_run s) \<and> rs_testerSourcePid rs = wrap32 tp \<and> rs_loc_id rs = loc \<and>
            sv_log s' = sv_log s @ [Spawned pid (worker_argv s (snd (msgPipeIDToStr i)))] \<and>
            id_read i = k_next_fd (sv_fds s) \<and> id_write i = k_next_fd (sv_fds s) + 1 \<and>
            holds_graph (sv_fds s') i (sv_graph s)))"
proof -
  obtain i pipe fds1 fds2 where p: "msgPipeCreate True GRAPH_BUF_SIZE (sv_fds s) = Inr (i, fds1)" "msgPipeOpen i = Inr pipe"
    "msgPipeWrite pipe (sv_graph s) fds1 = Inr (1, fds2)" "pipe_open fds2 pipe" "mp_read pipe = k_next_fd (sv_fds s)"
    "id_read i = k_next_fd (sv_fds s)" "id_write i = k_next_fd (sv_fds s) + 1" "holds_graph fds2 i (sv_graph s)"
    "k_next_fd fds1 = k_next_fd (sv_fds s) + 2" "k_next_fd fds2 = k_next_fd (sv_fds s) + 2"
    "\<forall>fd. fd < k_next_fd (sv_fds s) \<longrightarrow> map_of (k_open fds1) fd = map_of (k_open (sv_fds s)) fd"
    "\<forall>fd. fd < k_next_fd (sv_fds s) \<longrightarrow> map_of (k_open fds2) fd = map_of (k_open (sv_fds s)) fd"
    "k_capacity fds1 = k_capacity (sv_fds s)" "k_capacity fds2 = k_capacity (sv_fds s)"
    using new_pipe [of "sv_fds s" "sv_graph s"] by blast
  have pok: "pipes_ok (sv_run s) fds1" "pipes_ok (sv_run s) fds2"
    using pipes_ok_more [OF assms(3)] p(9-12) by auto
  show ?thesis
  proof (cases "worker_pid ke")
    case None
    then have "start_worker ke tp loc s = Inr (s\<lparr> sv_fds := fds1 \<rparr>)"
      using p(1,2) assms(6) by (simp add: start_worker_def Let_def spawn_loop_result)
    with None assms(1,2) pok(1) p(9,13) show ?thesis
      by (simp add: same_mode_def server_ok_def sessions_ok_def counters_ok_def)
  next
    case (Some pid)
    let ?rs = "\<lparr> rs_graphDataPipeID = i, rs_graphDataPipe = pipe, rs_pid = pid, rs_testerSourcePid = wrap32 tp, rs_loc_id = loc \<rparr>"
    let ?s' = "s\<lparr> sv_run := table_put pid ?rs (sv_run s), sv_fds := fds2, sv_active := sv_active s + 1,
      sv_log := sv_log s @ [Spawned pid (worker_argv s (snd (msgPipeIDToStr i)))] \<rparr>"
    have e: "start_worker ke tp loc s = Inr ?s'"
      using p(1-3) assms(6) Some
      by (simp add: start_worker_def Let_def spawn_loop_result started_with_argv worker_argv_def)
    have "\<forall>kr \<in> set (sv_run s). mp_write (rs_graphDataPipe (snd kr)) < mp_read (rs_graphDataPipe ?rs)"
      using assms(3) p(5) by (simp add: pipes_ok_def pipe_open_def)
    then have "pipes_ok (table_put pid ?rs (sv_run s)) fds2" using pipes_ok_put [OF pok(2), of ?rs] p(4) by simp
    moreover have "\<forall>kr \<in> set (table_put pid ?rs (sv_run s)). rs_testerSourcePid (snd kr) \<in> keys (sv_testers s)"
      using assms(1,5) by (intro ball_put) (simp_all add: sessions_ok_def)
    moreover have "sv_snt s + int (length (table_put pid ?rs (sv_run s))) \<le> sv_rcd s"
      using assms(4) length_put [of pid ?rs "sv_run s"] by linarith
    ultimately have "server_ok ?s'"
      using assms(1,2) by (simp add: server_ok_def sessions_ok_def counters_ok_def distinct_put)
    with e Some p(6-8,10,14) show ?thesis
      by (intro exI [of _ ?s']) (auto simp: same_mode_def)
  qed
qed

text \<open>
  The request is counted before its session is made and its worker is started: \<open>requested\<close> is the
  state in front of start_worker.
\<close>

definition requested :: "int \<Rightarrow> server \<Rightarrow> server" where
  "requested bp s = s\<lparr> sv_testers := table_upd (wrap32 bp) (\<lambda>t. t\<lparr> ts_rcd_count := ts_rcd_count t + 1 \<rparr>) (sv_testers s) \<rparr>"

lemma requested_ok:
  assumes "server_ok s" "tally ts_rcd_count (sv_testers s) + 1 \<le> sv_rcd s"
  shows "server_ok (requested bp s)"
proof -
  let ?t = "table_upd (wrap32 bp) (\<lambda>t. t\<lparr> ts_rcd_count := ts_rcd_count t + 1 \<rparr>) (sv_testers s)"
  have d: "distinct (map fst (sv_testers s))" using assms(1) by (simp add: ok_defs)
  have "tally ts_rcd_count ?t \<le> tally ts_rcd_count (sv_testers s) + 1" by (rule tally_upd [OF d]) simp_all
  moreover have "tally ts_acc_count ?t \<le> tally ts_acc_count (sv_testers s) + 0" by (rule tally_upd [OF d]) simp_all
  moreover have "\<forall>kt \<in> set ?t. 0 \<le> ts_rcd_count (snd kt) \<and> 0 \<le> ts_acc_count (snd kt)"
    using assms(1) by (intro ball_upd) (simp_all add: ok_defs)
  moreover have "\<forall>kt \<in> set ?t. ts_pid (snd kt) = fst kt" using assms(1) by (intro ball_upd) (simp_all add: ok_defs)
  ultimately show ?thesis using assms by (simp add: requested_def server_ok_def sessions_ok_def counters_ok_def)
qed

text \<open>A state in which one more request has been counted than sessions and testers account for.\<close>

definition request_due :: "server \<Rightarrow> bool" where
  "request_due s \<longleftrightarrow> server_ok s \<and> sv_snt s + int (length (sv_run s)) + 1 \<le> sv_rcd s \<and>
     tally ts_rcd_count (sv_testers s) + 1 \<le> sv_rcd s"

lemma request_due_counted: "server_ok s \<Longrightarrow> request_due (s\<lparr> sv_rcd := sv_rcd s + 1 \<rparr>)"
  by (simp add: request_due_def ok_defs)

lemma request_due_irrelevant [simp]:
  "request_due (s\<lparr> sv_buffer := x1 \<rparr>) = request_due s" "request_due (s\<lparr> sv_buffer2 := x1 \<rparr>) = request_due s"
  "request_due (s\<lparr> sv_buffer_pid := x2 \<rparr>) = request_due s" "request_due (s\<lparr> sv_loc_id := x2 \<rparr>) = request_due s"
  by (simp_all add: request_due_def)

lemma new_session_due:
  assumes "request_due s" "new_session ke bp s = Inr s1"
  shows "request_due s1 \<and> same_mode s s1 \<and> sv_run s1 = sv_run s \<and> sv_active s1 = sv_active s \<and> sv_buffer s1 = sv_buffer s \<and>
    sv_log s1 = sv_log s \<and> sv_fds s1 = sv_fds s \<and> sv_graph s1 = sv_graph s \<and> sv_verbose s1 = sv_verbose s \<and>
    wrap32 bp \<in> keys (sv_testers s1) \<and> sv_rcd s1 = sv_rcd s"
proof -
  obtain t where t: "server_ok s1" "s1 = s\<lparr> sv_testers := table_put (wrap32 bp) t (sv_testers s) \<rparr>" "ts_rcd_count t = 0"
    using new_session_ok [OF _ assms(2)] assms(1) by (auto simp: request_due_def)
  have "tally ts_rcd_count (table_put (wrap32 bp) t (sv_testers s)) \<le> tally ts_rcd_count (sv_testers s)"
    using tally_put [of "sv_testers s" ts_rcd_count "wrap32 bp" t] assms(1) t(3)
    by (simp add: request_due_def server_ok_def counters_ok_def)
  with t assms(1) show ?thesis by (auto simp: request_due_def same_mode_def)
qed

lemma handle_parse_split:
  "handle_parse ke bp loc s =
   and_then (if map_of (sv_testers s) (wrap32 bp) = None then new_session ke bp s else Inr s)
     (\<lambda>s. start_worker ke bp loc (requested bp s))"
  by (simp add: handle_parse_def requested_def)

lemma start_worker_requested:
  assumes "request_due s" "wrap32 bp \<in> keys (sv_testers s)" "ke_pipe ke"
  shows "\<exists>s'. start_worker ke bp loc (requested bp s) = Inr s' \<and> server_ok s' \<and> same_mode s s' \<and>
    sv_rcd s' = sv_rcd s \<and> sv_active s' \<le> sv_active s + 1 \<and> sv_buffer s' = sv_buffer s"
proof -
  let ?s = "requested bp s"
  have "server_ok ?s" using assms(1) by (intro requested_ok) (simp_all add: request_due_def)
  then have "sessions_ok ?s" "counters_ok ?s" "pipes_ok (sv_run ?s) (sv_fds ?s)" by (simp_all add: server_ok_def)
  moreover have "sv_snt ?s + int (length (sv_run ?s)) + 1 \<le> sv_rcd ?s" using assms(1) by (simp add: requested_def request_due_def)
  moreover have "wrap32 bp \<in> keys (sv_testers ?s)" using assms(2) by (simp add: requested_def)
  ultimately obtain s' where "start_worker ke bp loc ?s = Inr s'" "server_ok s'" "same_mode ?s s'"
    "sv_rcd s' = sv_rcd ?s" "sv_active s' \<le> sv_active ?s + 1" "sv_buffer s' = sv_buffer ?s"
    using start_worker_ok [of ?s bp ke loc] assms(3) by (cases "worker_pid ke") auto
  then show ?thesis by (simp add: requested_def same_mode_def)
qed

lemma start_worker_no_pipe: "\<not> ke_pipe ke \<Longrightarrow> start_worker ke bp loc s = Inl (Exited (-1))"
  by (simp add: start_worker_def msgPipeCreate_def sys_pipe_def)

lemma handle_parse_ok:
  assumes "request_due s" "handle_parse ke bp loc s = Inr s'"
  shows "server_ok s' \<and> same_mode s s' \<and> sv_active s' \<le> sv_active s + 1 \<and> sv_buffer s' = sv_buffer s"
proof -
  obtain s1 where s1: "(if map_of (sv_testers s) (wrap32 bp) = None then new_session ke bp s else Inr s) = Inr s1"
    "start_worker ke bp loc (requested bp s1) = Inr s'"
    using assms(2) by (auto simp: handle_parse_split and_then_Inr)
  have n: "request_due s1 \<and> same_mode s s1 \<and> sv_active s1 = sv_active s \<and> sv_buffer s1 = sv_buffer s \<and> wrap32 bp \<in> keys (sv_testers s1)"
  proof (cases "map_of (sv_testers s) (wrap32 bp)")
    case None
    with s1(1) have "new_session ke bp s = Inr s1" by simp
    from new_session_due [OF assms(1) this] show ?thesis by blast
  next
    case (Some t)
    then have "wrap32 bp \<in> keys (sv_testers s)" using map_of_SomeD by force
    with Some s1(1) assms(1) show ?thesis by (simp add: same_mode_def)
  qed
  have "ke_pipe ke" using s1(2) start_worker_no_pipe by (cases "ke_pipe ke") auto
  with start_worker_requested [of s1 bp ke loc] n s1(2) show ?thesis by (simp add: same_mode_def)
qed

text \<open>What handle_report does with a request that it can read.\<close>

definition request_read :: "arg list \<Rightarrow> server \<Rightarrow> server" where
  "request_read as s = s\<lparr> sv_buffer_pid := got_int as 0 (sv_buffer_pid s),
     sv_buffer2 := the (got_str as 1 (Some (sv_buffer2 s))), sv_loc_id := got_int as 2 (sv_loc_id s),
     sv_buffer := the (got_str as 3 (Some [])), sv_rcd := sv_rcd s + 1 \<rparr>"

lemma handle_report_cases:
  "handle_report ke msg s =
   (if msg = ''exit'' then Inr (s\<lparr> sv_buffer := [], sv_shouldTerminate := True \<rparr>)
    else if fst (read_parse msg) = 0 then Inr (s\<lparr> sv_buffer := [] \<rparr>)
    else let s = request_read (snd (read_parse msg)) s in
      (case (sv_buffer_pid s, sv_loc_id s) of
         (Some buffer_pid, Some loc_id) \<Rightarrow> handle_parse ke buffer_pid loc_id s
       | _ \<Rightarrow> Inl Undefined))"
  by (simp add: handle_report_def request_read_def Let_def split_beta)

lemma request_read_due: "server_ok s \<Longrightarrow> request_due (request_read as s)"
  using request_due_counted [of s] by (simp add: request_read_def request_due_def ok_defs)

lemma handle_report_ok:
  assumes "server_ok s" "handle_report ke m s = Inr s'"
  shows "server_ok s' \<and> sv_throttled s' = sv_throttled s \<and> sv_run_blocking s' = sv_run_blocking s \<and>
    sv_report_blocking s' = sv_report_blocking s \<and> sv_forceTermination s' = sv_forceTermination s \<and>
    sv_active s' \<le> sv_active s + 1 \<and> (sv_shouldTerminate s' \<longleftrightarrow> sv_shouldTerminate s \<or> m = ''exit'')"
proof (cases "m = ''exit'' \<or> fst (read_parse m) = 0")
  case True
  with assms show ?thesis by (auto simp: handle_report_cases split: if_splits)
next
  case False
  then obtain bp loc where "handle_parse ke bp loc (request_read (snd (read_parse m)) s) = Inr s'"
    using assms(2) by (auto simp: handle_report_cases Let_def split: option.splits)
  from handle_parse_ok [OF request_read_due [OF assms(1)] this] False show ?thesis
    by (simp add: same_mode_def request_read_def)
qed

section \<open>Results\<close>

lemma throttle_unlock_result:
  "throttle_unlock ke s = Inr s' \<Longrightarrow>
   server_ok s' = server_ok s \<and> sv_run s' = sv_run s \<and> sv_testers s' = sv_testers s \<and> sv_active s' = sv_active s \<and>
   sv_shouldTerminate s' = sv_shouldTerminate s \<and> sv_forceTermination s' = sv_forceTermination s \<and> sv_log s' = sv_log s \<and>
   sv_snt s' = sv_snt s \<and> sv_acc s' = sv_acc s \<and> sv_rcd s' = sv_rcd s \<and> sv_buffer s' = sv_buffer s \<and>
   sv_graph s' = sv_graph s \<and> sv_fds s' = sv_fds s \<and>
   sv_throttled s' = (sv_throttled s \<and> SERVER_PROCESS_LIMIT \<le> sv_active s) \<and>
   (sv_run_blocking s = sv_throttled s \<longrightarrow> sv_run_blocking s' = sv_throttled s') \<and>
   (sv_report_blocking s = (\<not> sv_throttled s) \<longrightarrow> sv_report_blocking s' = (\<not> sv_throttled s'))"
  by (auto simp: throttle_unlock_def split: if_splits)

definition result_read :: "arg list \<Rightarrow> server \<Rightarrow> server" where
  "result_read as s = s\<lparr> sv_buffer_pid := got_int as 0 (sv_buffer_pid s),
     sv_buffer_result := got_int as 1 (sv_buffer_result s), sv_active := sv_active s - 1 \<rparr>"

lemma handle_run_terminate_cases:
  "handle_run_terminate ke msg s =
   (if fst (read_run_terminate msg) = 0 then Inr s
    else let s = result_read (snd (read_run_terminate msg)) s in
      (case (sv_buffer_pid s, sv_buffer_result s) of
         (Some bp, Some result) \<Rightarrow>
           and_then (throttle_unlock ke s) (\<lambda>s. case map_of (sv_run s) (wrap32 bp) of
              None \<Rightarrow> Inr s | Some rs \<Rightarrow> finish_run (wrap32 bp) rs result s)
       | _ \<Rightarrow> Inl Undefined))"
  by (simp only: handle_run_terminate_def result_read_def Let_def split_beta)

lemma handle_run_terminate_ok:
  assumes "server_ok s" "sv_run_blocking s = sv_throttled s" "sv_report_blocking s = (\<not> sv_throttled s)"
    and "handle_run_terminate ke m s = Inr s'"
  shows "server_ok s' \<and> sv_run_blocking s' = sv_throttled s' \<and> sv_report_blocking s' = (\<not> sv_throttled s') \<and>
    sv_shouldTerminate s' = sv_shouldTerminate s \<and> sv_forceTermination s' = sv_forceTermination s \<and>
    sv_buffer s' = sv_buffer s \<and>
    (if fst (read_run_terminate m) = 0 then s' = s
     else sv_active s' = sv_active s - 1 \<and> sv_throttled s' = (sv_throttled s \<and> SERVER_PROCESS_LIMIT \<le> sv_active s'))"
proof (cases "fst (read_run_terminate m) = 0")
  case True
  with assms show ?thesis by (simp add: handle_run_terminate_cases)
next
  case False
  let ?s = "result_read (snd (read_run_terminate m)) s"
  have ok: "server_ok ?s" using assms(1) by (simp add: result_read_def)
  obtain bp r where b: "sv_buffer_pid ?s = Some bp" "sv_buffer_result ?s = Some r"
    using assms(4) False by (cases "sv_buffer_pid ?s"; cases "sv_buffer_result ?s") (simp_all add: handle_run_terminate_cases)
  obtain s1 where s1: "throttle_unlock ke ?s = Inr s1"
    "(case map_of (sv_run s1) (wrap32 bp) of None \<Rightarrow> Inr s1 | Some rs \<Rightarrow> finish_run (wrap32 bp) rs r s1) = Inr s'"
    using assms(4) False b by (auto simp: handle_run_terminate_cases and_then_Inr)
  note u = throttle_unlock_result [OF s1(1)]
  have ok1: "server_ok s1" using u ok by simp
  have modes: "sv_run_blocking s1 = sv_throttled s1" "sv_report_blocking s1 = (\<not> sv_throttled s1)"
    "sv_throttled s1 = (sv_throttled s \<and> SERVER_PROCESS_LIMIT \<le> sv_active s - 1)" "sv_active s1 = sv_active s - 1"
    "sv_shouldTerminate s1 = sv_shouldTerminate s" "sv_forceTermination s1 = sv_forceTermination s" "sv_buffer s1 = sv_buffer s"
    using u assms(2,3) by (simp_all add: result_read_def)
  show ?thesis
  proof (cases "map_of (sv_run s1) (wrap32 bp)")
    case None
    with s1(2) have "s' = s1" by simp
    with ok1 modes False show ?thesis by simp
  next
    case (Some rs)
    from finish_run_ok [OF ok1 Some, of r] s1(2) Some modes False show ?thesis by auto
  qed
qed

end
