(* ===== verification/ServerCorrect.thy ===== *)
theory ServerCorrect
  imports ServerInvariant
begin

text \<open>
  What holds in every state the server reaches. The locale \<open>server_invariant\<close> says what an
  invariant of the event loop has to satisfy, one law per operation of the loop, and gives it for
  every reachable state; each invariant below is an interpretation of it. The properties are the
  consistency of the counters, the routing of answers, the throttle, termination, where the server
  waits, and safety.
\<close>

section \<open>Invariants of the event loop\<close>

definition ends_in :: "(phase \<Rightarrow> server \<Rightarrow> bool) \<Rightarrow> phase \<Rightarrow> server \<Rightarrow> stop + server \<Rightarrow> bool" where
  "ends_in I p s r = (case r of Inl e \<Rightarrow> I (Dead e) s | Inr s' \<Rightarrow> I p s')"

lemma ends_in_simps [simp]: "ends_in I p s (Inl e) = I (Dead e) s" "ends_in I p s (Inr s') = I p s'"
  by (simp_all add: ends_in_def)

locale server_invariant =
  fixes I :: "phase \<Rightarrow> server \<Rightarrow> bool"
    and R :: "string \<Rightarrow> bool" and W :: "string \<Rightarrow> bool" and P :: "string \<Rightarrow> bool"
  assumes register_law: "I Registering s \<Longrightarrow> R m \<Longrightarrow> ends_in I Registering s (handle_register ke m s)"
    and lock_law: "I Registering s \<Longrightarrow> ends_in I ReadingResult s (throttle_lock ke s)"
    and result_law: "I ReadingResult s \<Longrightarrow> W m \<Longrightarrow> ends_in I (Children False) s (handle_run_terminate ke m s)"
    and no_result_law: "I ReadingResult s \<Longrightarrow> \<not> sv_run_blocking s \<Longrightarrow> I (Children True) s"
    and reap_error_law: "I (Children b) s \<Longrightarrow> reap_children ke s = Inl e \<Longrightarrow> I (Dead e) s"
    and reap_law: "I (Children b) s \<Longrightarrow> reap_children ke s = Inr (status, s') \<Longrightarrow> s'' = check_force status b s' \<Longrightarrow>
      (if \<not> sv_shouldTerminate s'' then I ReadingReport s''
       else if sv_forceTermination s'' then I Left (broadcast_exit s'') else I Registering s'')"
    and report_law: "I ReadingReport s \<Longrightarrow> P m \<Longrightarrow> ends_in I Registering s (handle_report ke m s)"
    and no_report_law: "I ReadingReport s \<Longrightarrow> \<not> sv_report_blocking s \<Longrightarrow> I Registering s"

text \<open>All messages that wait in the queues were sent.\<close>

definition queues_hold :: "(string \<Rightarrow> bool) \<Rightarrow> (string \<Rightarrow> bool) \<Rightarrow> (string \<Rightarrow> bool) \<Rightarrow> system \<Rightarrow> bool" where
  "queues_hold R W P y \<longleftrightarrow> (\<forall>m \<in> set (sy_register y). R m) \<and> (\<forall>m \<in> set (sy_result y). W m) \<and> (\<forall>m \<in> set (sy_report y). P m)"

lemma continue_with_sel [simp]:
  "sy_register (continue_with r p y) = sy_register y" "sy_result (continue_with r p y) = sy_result y"
  "sy_report (continue_with r p y) = sy_report y"
  by (simp_all add: continue_with_def split: sum.split)

lemma after_children_sel [simp]:
  "sy_register (after_children ke b y) = sy_register y" "sy_result (after_children ke b y) = sy_result y"
  "sy_report (after_children ke b y) = sy_report y"
  by (simp_all add: after_children_def Let_def split: sum.split prod.split)

lemma server_step_queues: "server_step ke y = Some y' \<Longrightarrow> queues_hold R W P y \<Longrightarrow> queues_hold R W P y'"
  by (auto simp: server_step_def queues_hold_def split: phase.splits list.splits if_splits)

lemma continue_with_ends: "I (sy_phase (continue_with r p y)) (sy_server (continue_with r p y)) = ends_in I p (sy_server y) r"
  by (simp add: continue_with_def ends_in_def split: sum.split)

context server_invariant
begin

lemma after_children_keeps:
  assumes "I (Children b) (sy_server y)"
  shows "I (sy_phase (after_children ke b y)) (sy_server (after_children ke b y))"
proof (cases "reap_children ke (sy_server y)")
  case (Inl e)
  with reap_error_law [OF assms] show ?thesis by (simp add: after_children_def)
next
  case (Inr r)
  obtain status s' where r: "r = (status, s')" by force
  with reap_law [OF assms, of ke status s'] Inr show ?thesis by (auto simp: after_children_def Let_def)
qed

lemma step_keeps:
  assumes "server_step ke y = Some y'" "I (sy_phase y) (sy_server y)" "queues_hold R W P y"
  shows "I (sy_phase y') (sy_server y')"
proof (cases "sy_phase y")
  case Registering
  show ?thesis
  proof (cases "sy_register y")
    case Nil
    with assms Registering lock_law [of "sy_server y" ke] show ?thesis
      by (auto simp: server_step_def continue_with_ends)
  next
    case (Cons m ms)
    with assms Registering register_law [of "sy_server y" m ke] show ?thesis
      by (auto simp: server_step_def continue_with_ends queues_hold_def)
  qed
next
  case ReadingResult
  show ?thesis
  proof (cases "sy_result y")
    case Nil
    with assms ReadingResult no_result_law [of "sy_server y"] show ?thesis
      by (auto simp: server_step_def split: if_splits)
  next
    case (Cons m ms)
    with assms ReadingResult result_law [of "sy_server y" m ke] show ?thesis
      by (auto simp: server_step_def continue_with_ends queues_hold_def)
  qed
next
  case (Children b)
  with assms after_children_keeps [of b y ke] show ?thesis by (auto simp: server_step_def)
next
  case ReadingReport
  show ?thesis
  proof (cases "sy_report y")
    case Nil
    with assms ReadingReport no_report_law [of "sy_server y"] show ?thesis
      by (auto simp: server_step_def split: if_splits)
  next
    case (Cons m ms)
    with assms ReadingReport report_law [of "sy_server y" m ke] show ?thesis
      by (auto simp: server_step_def continue_with_ends queues_hold_def)
  qed
qed (use assms in \<open>simp_all add: server_step_def\<close>)

lemma moves_keep:
  "moves R W P y z \<Longrightarrow> I (sy_phase y) (sy_server y) \<Longrightarrow> queues_hold R W P y \<Longrightarrow>
   I (sy_phase z) (sy_server z) \<and> queues_hold R W P z"
proof (induction rule: moves.induct)
  case (serves y z ke z')
  then have "I (sy_phase z) (sy_server z)" "queues_hold R W P z" by blast+
  with step_keeps [OF serves.hyps(2)] server_step_queues [OF serves.hyps(2)] show ?case by blast
next
  case (registers y z m)
  then have "I (sy_phase z) (sy_server z)" "queues_hold R W P z" by blast+
  with registers.hyps(2) show ?case by (simp add: queues_hold_def)
next
  case (results y z m)
  then have "I (sy_phase z) (sy_server z)" "queues_hold R W P z" by blast+
  with results.hyps(2) show ?case by (simp add: queues_hold_def)
next
  case (reports y z m)
  then have "I (sy_phase z) (sy_server z)" "queues_hold R W P z" by blast+
  with reports.hyps(2) show ?case by (simp add: queues_hold_def)
qed blast

lemma reached:
  "moves R W P (boot s) z \<Longrightarrow> I Registering s \<Longrightarrow> I (sy_phase z) (sy_server z)"
  using moves_keep [of "boot s" z] by (simp add: boot_def queues_hold_def)

end

section \<open>Consistency\<close>

text \<open>
  The server is consistent, its queues are in the modes the throttle says, a report is read only
  while no termination was requested, and the order to leave is carried out at once.
\<close>

definition consistent :: "phase \<Rightarrow> server \<Rightarrow> bool" where
  "consistent p s \<longleftrightarrow> server_ok s \<and> sv_run_blocking s = sv_throttled s \<and> sv_report_blocking s = (\<not> sv_throttled s) \<and>
     (sv_forceTermination s \<longrightarrow> p = Left) \<and> (p = ReadingReport \<longrightarrow> \<not> sv_shouldTerminate s)"

lemma check_force_sel [simp]:
  "server_ok (check_force st b s) = server_ok s" "sv_run_blocking (check_force st b s) = sv_run_blocking s"
  "sv_report_blocking (check_force st b s) = sv_report_blocking s" "sv_throttled (check_force st b s) = sv_throttled s"
  "sv_shouldTerminate (check_force st b s) = sv_shouldTerminate s" "sv_active (check_force st b s) = sv_active s"
  "sv_run (check_force st b s) = sv_run s" "sv_testers (check_force st b s) = sv_testers s" "sv_log (check_force st b s) = sv_log s"
  "sv_buffer (check_force st b s) = sv_buffer s" "sv_rcd (check_force st b s) = sv_rcd s"
  "sv_forceTermination (check_force st b s) = (sv_forceTermination s \<or>
     (sv_active s \<le> 0 \<or> sv_run s = []) \<and> sv_shouldTerminate s \<and> st = 0 \<and> b)"
  by (auto simp: check_force_def)

lemma broadcast_exit_sel [simp]:
  "server_ok (broadcast_exit s) = server_ok s" "sv_run_blocking (broadcast_exit s) = sv_run_blocking s"
  "sv_report_blocking (broadcast_exit s) = sv_report_blocking s" "sv_throttled (broadcast_exit s) = sv_throttled s"
  "sv_shouldTerminate (broadcast_exit s) = sv_shouldTerminate s" "sv_active (broadcast_exit s) = sv_active s"
  "sv_run (broadcast_exit s) = sv_run s" "sv_testers (broadcast_exit s) = sv_testers s"
  "sv_forceTermination (broadcast_exit s) = sv_forceTermination s" "sv_buffer (broadcast_exit s) = sv_buffer s"
  by (simp_all add: broadcast_exit_def)

lemma reap_children_result:
  assumes "reap_children ke s = Inr (st, s')"
  shows "s' = s\<lparr> sv_active := sv_active s - of_bool (st = -1) \<rparr>"
  using assms by (auto simp: reap_children_def and_then_Inr)

lemma reap_children_error: "reap_children ke s = Inl e \<Longrightarrow> e = Exited (-1)"
  by (auto simp: reap_children_def processWaitForAllNonBlocking_def split: wait_answer.splits child_end.splits if_splits)

lemma handle_register_result:
  assumes "handle_register ke m s = Inr s'"
  shows "sv_run_blocking s' = sv_run_blocking s \<and> sv_report_blocking s' = sv_report_blocking s \<and>
    sv_throttled s' = sv_throttled s \<and> sv_forceTermination s' = sv_forceTermination s \<and> sv_active s' = sv_active s \<and>
    sv_shouldTerminate s' = sv_shouldTerminate s \<and> sv_buffer s' = sv_buffer s \<and> sv_run s' = sv_run s"
proof -
  obtain k as where r: "read_register m = (k, as)" by force
  show ?thesis
  proof (cases "k = 0")
    case True
    with assms r show ?thesis by (simp add: handle_register_def)
  next
    case False
    let ?s = "s\<lparr> sv_buffer_pid := got_int as 0 (sv_buffer_pid s), sv_buffer2 := the (got_str as 1 (Some (sv_buffer2 s))) \<rparr>"
    obtain pid where "new_session ke pid ?s = Inr s'"
      using assms r False by (cases "sv_buffer_pid ?s") (simp_all add: handle_register_def Let_def)
    then obtain t where "s' = ?s\<lparr> sv_testers := t \<rparr>"
      by (cases "opens (ke_mq ke) (sv_buffer2 ?s)") (auto simp: new_session_def split: if_splits)
    then show ?thesis by simp
  qed
qed

lemma throttle_lock_result:
  assumes "throttle_lock ke s = Inr s'" "sv_run_blocking s = sv_throttled s" "sv_report_blocking s = (\<not> sv_throttled s)"
  shows "server_ok s' = server_ok s \<and> sv_active s' = sv_active s \<and> sv_forceTermination s' = sv_forceTermination s \<and>
    sv_run_blocking s' = sv_throttled s' \<and> sv_report_blocking s' = (\<not> sv_throttled s') \<and> sv_buffer s' = sv_buffer s \<and>
    sv_throttled s' = (sv_throttled s \<or> sv_active s > SERVER_PROCESS_LIMIT) \<and> sv_shouldTerminate s' = sv_shouldTerminate s"
proof (cases "\<not> sv_throttled s \<and> sv_active s > SERVER_PROCESS_LIMIT")
  case True
  with assms(1) have "s' = s\<lparr> sv_throttled := True, sv_run_blocking := True, sv_report_blocking := False \<rparr>"
    by (simp add: throttle_lock_def split: if_splits)
  with True show ?thesis by simp
next
  case False
  with assms(1) have "s' = s" by (simp only: throttle_lock_def if_False sum.inject)
  with False assms(2,3) show ?thesis by auto
qed

lemma ends_inI: "(\<And>e. r = Inl e \<Longrightarrow> I (Dead e) s) \<Longrightarrow> (\<And>s'. r = Inr s' \<Longrightarrow> I p s') \<Longrightarrow> ends_in I p s r"
  by (cases r) simp_all

lemma consistent_Dead:
  "consistent Registering s \<Longrightarrow> consistent (Dead e) s" "consistent ReadingResult s \<Longrightarrow> consistent (Dead e) s"
  "consistent (Children b) s \<Longrightarrow> consistent (Dead e) s" "consistent ReadingReport s \<Longrightarrow> consistent (Dead e) s"
  by (simp_all add: consistent_def)

lemma consistent_register:
  "consistent Registering s \<Longrightarrow> handle_register ke m s = Inr s' \<Longrightarrow> consistent Registering s'"
  using handle_register_ok [of s ke m s'] handle_register_result [of ke m s s'] by (simp add: consistent_def)

lemma consistent_lock:
  "consistent Registering s \<Longrightarrow> throttle_lock ke s = Inr s' \<Longrightarrow> consistent ReadingResult s'"
  using throttle_lock_result [of ke s s'] by (simp add: consistent_def)

lemma consistent_result:
  "consistent ReadingResult s \<Longrightarrow> handle_run_terminate ke m s = Inr s' \<Longrightarrow> consistent (Children False) s'"
  using handle_run_terminate_ok [of s ke m s'] by (simp add: consistent_def)

lemma consistent_reap:
  assumes "consistent (Children b) s" "reap_children ke s = Inr (status, s')"
  shows "if \<not> sv_shouldTerminate (check_force status b s') then consistent ReadingReport (check_force status b s')
    else if sv_forceTermination (check_force status b s') then consistent Left (broadcast_exit (check_force status b s'))
    else consistent Registering (check_force status b s')"
  using assms(1) reap_children_result [OF assms(2)] by (simp add: consistent_def)

lemma consistent_report:
  "consistent ReadingReport s \<Longrightarrow> handle_report ke m s = Inr s' \<Longrightarrow> consistent Registering s'"
  using handle_report_ok [of s ke m s'] by (simp add: consistent_def)

interpretation loop: server_invariant consistent "\<lambda>_. True" "\<lambda>_. True" "\<lambda>_. True"
proof unfold_locales
  fix ke m s
  show "consistent Registering s \<Longrightarrow> ends_in consistent Registering s (handle_register ke m s)"
    by (rule ends_inI) (blast intro: consistent_Dead consistent_register)+
  show "consistent Registering s \<Longrightarrow> ends_in consistent ReadingResult s (throttle_lock ke s)"
    by (rule ends_inI) (blast intro: consistent_Dead consistent_lock)+
  show "consistent ReadingResult s \<Longrightarrow> ends_in consistent (Children False) s (handle_run_terminate ke m s)"
    by (rule ends_inI) (blast intro: consistent_Dead consistent_result)+
  show "consistent ReadingReport s \<Longrightarrow> ends_in consistent Registering s (handle_report ke m s)"
    by (rule ends_inI) (blast intro: consistent_Dead consistent_report)+
  show "consistent ReadingResult s \<Longrightarrow> consistent (Children True) s"
    "consistent ReadingReport s \<Longrightarrow> consistent Registering s" by (simp_all add: consistent_def)
qed (use consistent_Dead consistent_reap in \<open>blast+\<close>)

lemma server_ok_start: "server_ok (server_start g g2 fds graph verbose)"
  by (simp add: ok_defs server_start_def pipes_ok_def)

lemma consistent_start: "consistent Registering (server_start g g2 fds graph verbose)"
  using server_ok_start [of g g2 fds graph verbose] by (simp add: consistent_def server_start_def)

lemma moves_weaken: "moves R W P y z \<Longrightarrow> moves (\<lambda>_. True) (\<lambda>_. True) (\<lambda>_. True) y z"
  by (induction rule: moves.induct) (auto intro: moves.intros)

lemma reached_consistent:
  "moves R W P (boot (server_start g g2 fds graph verbose)) y \<Longrightarrow> consistent (sy_phase y) (sy_server y)"
  using loop.reached [OF moves_weaken consistent_start] by blast

section \<open>The throttle\<close>

definition result_message :: "string \<Rightarrow> bool" where
  "result_message m \<longleftrightarrow> (\<exists>pid r. in_llong pid \<and> in_int r \<and> m = write_run_terminate pid r)"

lemma result_message_read: "result_message m \<Longrightarrow> fst (read_run_terminate m) = 2"
  by (auto simp: result_message_def read_write_run_terminate)

text \<open>
  Behind the point where a result is read at most \<open>SERVER_PROCESS_LIMIT\<close> workers count as active:
  either the throttle is off because of this, or a result had to be read.
\<close>

definition active_bound :: "phase \<Rightarrow> int" where
  "active_bound p = (case p of Children _ \<Rightarrow> 20 | ReadingReport \<Rightarrow> 20 | Left \<Rightarrow> 20 | _ \<Rightarrow> 21)"

definition throttled_well :: "phase \<Rightarrow> server \<Rightarrow> bool" where
  "throttled_well p s \<longleftrightarrow> consistent p s \<and> sv_active s \<le> active_bound p \<and>
     (p = ReadingResult \<longrightarrow> sv_throttled s \<or> sv_active s \<le> 20)"

lemma throttled_well_Dead:
  "throttled_well Registering s \<Longrightarrow> throttled_well (Dead e) s" "throttled_well ReadingResult s \<Longrightarrow> throttled_well (Dead e) s"
  "throttled_well (Children b) s \<Longrightarrow> throttled_well (Dead e) s" "throttled_well ReadingReport s \<Longrightarrow> throttled_well (Dead e) s"
  using consistent_Dead by (auto simp: throttled_well_def active_bound_def)

lemma throttled_well_register:
  "throttled_well Registering s \<Longrightarrow> handle_register ke m s = Inr s' \<Longrightarrow> throttled_well Registering s'"
  using consistent_register [of s ke m s'] handle_register_result [of ke m s s'] by (simp add: throttled_well_def)

lemma throttled_well_lock:
  "throttled_well Registering s \<Longrightarrow> throttle_lock ke s = Inr s' \<Longrightarrow> throttled_well ReadingResult s'"
  using consistent_lock [of s ke s'] throttle_lock_result [of ke s s']
  by (simp add: throttled_well_def active_bound_def consistent_def config) linarith

lemma throttled_well_result:
  "throttled_well ReadingResult s \<Longrightarrow> result_message m \<Longrightarrow> handle_run_terminate ke m s = Inr s' \<Longrightarrow>
   throttled_well (Children False) s'"
  using consistent_result [of s ke m s'] handle_run_terminate_ok [of s ke m s'] result_message_read [of m]
  by (simp add: throttled_well_def active_bound_def consistent_def)

lemma throttled_well_reap:
  assumes "throttled_well (Children b) s" "reap_children ke s = Inr (status, s')"
  shows "if \<not> sv_shouldTerminate (check_force status b s') then throttled_well ReadingReport (check_force status b s')
    else if sv_forceTermination (check_force status b s') then throttled_well Left (broadcast_exit (check_force status b s'))
    else throttled_well Registering (check_force status b s')"
proof -
  have "sv_active s' \<le> 20"
    using assms(1) reap_children_result [OF assms(2)] by (simp add: throttled_well_def active_bound_def)
  with consistent_reap [OF _ assms(2), of b] assms(1) show ?thesis
    by (simp add: throttled_well_def active_bound_def)
qed

lemma throttled_well_report:
  "throttled_well ReadingReport s \<Longrightarrow> handle_report ke m s = Inr s' \<Longrightarrow> throttled_well Registering s'"
  using consistent_report [of s ke m s'] handle_report_ok [of s ke m s']
  by (simp add: throttled_well_def active_bound_def consistent_def)

interpretation throttle: server_invariant throttled_well "\<lambda>_. True" result_message "\<lambda>_. True"
proof unfold_locales
  fix ke m s
  show "throttled_well Registering s \<Longrightarrow> ends_in throttled_well Registering s (handle_register ke m s)"
    by (rule ends_inI) (blast intro: throttled_well_Dead throttled_well_register)+
  show "throttled_well Registering s \<Longrightarrow> ends_in throttled_well ReadingResult s (throttle_lock ke s)"
    by (rule ends_inI) (blast intro: throttled_well_Dead throttled_well_lock)+
  show "throttled_well ReadingResult s \<Longrightarrow> result_message m \<Longrightarrow> ends_in throttled_well (Children False) s (handle_run_terminate ke m s)"
    by (rule ends_inI) (blast intro: throttled_well_Dead throttled_well_result)+
  show "throttled_well ReadingReport s \<Longrightarrow> ends_in throttled_well Registering s (handle_report ke m s)"
    by (rule ends_inI) (blast intro: throttled_well_Dead throttled_well_report)+
  show "throttled_well ReadingResult s \<Longrightarrow> \<not> sv_run_blocking s \<Longrightarrow> throttled_well (Children True) s"
    by (auto simp: throttled_well_def active_bound_def consistent_def)
  show "throttled_well ReadingReport s \<Longrightarrow> throttled_well Registering s"
    by (simp add: throttled_well_def active_bound_def consistent_def)
qed (use throttled_well_Dead throttled_well_reap in \<open>blast+\<close>)

section \<open>What is sent\<close>

definition is_exit :: "event \<Rightarrow> bool" where
  "is_exit e = (case e of SentTo _ m \<Rightarrow> m = ''exit'' | _ \<Rightarrow> False)"

lemma write_answer_not_exit: "write_answer loc r \<noteq> ''exit''"
proof
  assume "write_answer loc r = ''exit''"
  then have h: "hd (show_int loc) = CHR ''e''"
    using show_int_nonempty [of loc] by (cases "show_int loc") (simp_all add: write_answer_def sprintf_def formats)
  have "CHR ''e'' \<notin> set (show_nat (nat loc))" using show_nat_digits [of "nat loc"] by auto
  with h show False by (cases "show_nat (nat loc)") (auto simp: show_int_def split: if_splits)
qed

lemma handle_register_log: "handle_register ke m s = Inr s' \<Longrightarrow> sv_log s' = sv_log s"
  using opens_Inr
  by (cases "read_register m"; cases "got_int (snd (read_register m)) 0 (sv_buffer_pid s)")
     (simp_all add: handle_register_def Let_def new_session_def and_then_Inr split: if_splits, auto)

lemma handle_run_terminate_log:
  assumes "server_ok s" "handle_run_terminate ke m s = Inr s'"
  shows "filter is_exit (sv_log s') = filter is_exit (sv_log s)"
proof (cases "fst (read_run_terminate m) = 0")
  case True
  with assms(2) show ?thesis by (simp add: handle_run_terminate_cases)
next
  case False
  let ?s = "result_read (snd (read_run_terminate m)) s"
  obtain bp r where b: "sv_buffer_pid ?s = Some bp" "sv_buffer_result ?s = Some r"
    using assms(2) False by (cases "sv_buffer_pid ?s"; cases "sv_buffer_result ?s") (simp_all add: handle_run_terminate_cases)
  obtain s1 where s1: "throttle_unlock ke ?s = Inr s1"
    "(case map_of (sv_run s1) (wrap32 bp) of None \<Rightarrow> Inr s1 | Some rs \<Rightarrow> finish_run (wrap32 bp) rs r s1) = Inr s'"
    using assms(2) False b by (auto simp: handle_run_terminate_cases and_then_Inr)
  have "server_ok s1" "sv_log s1 = sv_log s"
    using throttle_unlock_result [OF s1(1)] assms(1) by (simp_all add: result_read_def)
  with s1(2) show ?thesis
  proof (cases "map_of (sv_run s1) (wrap32 bp)")
    case (Some rs)
    with finish_run_ok [OF \<open>server_ok s1\<close> Some, of r] s1(2) \<open>sv_log s1 = sv_log s\<close> show ?thesis
      by (auto simp: is_exit_def write_answer_not_exit)
  qed simp
qed

lemma start_worker_log:
  assumes "start_worker ke tp loc s = Inr s'"
  shows "filter is_exit (sv_log s') = filter is_exit (sv_log s)"
  using assms
  by (auto simp: start_worker_def Let_def and_then_Inr spawn_loop_result is_exit_def split: option.splits)

lemma handle_report_log:
  assumes "handle_report ke m s = Inr s'"
  shows "filter is_exit (sv_log s') = filter is_exit (sv_log s)"
proof (cases "m = ''exit'' \<or> fst (read_parse m) = 0")
  case True
  with assms show ?thesis by (auto simp: handle_report_cases split: if_splits)
next
  case False
  let ?s = "request_read (snd (read_parse m)) s"
  obtain bp loc where "handle_parse ke bp loc ?s = Inr s'"
    using assms False by (cases "sv_buffer_pid ?s"; cases "sv_loc_id ?s") (simp_all add: handle_report_cases)
  then obtain s1 where s1: "(if map_of (sv_testers ?s) (wrap32 bp) = None then new_session ke bp ?s else Inr ?s) = Inr s1"
    "start_worker ke bp loc (requested bp s1) = Inr s'" by (auto simp: handle_parse_split and_then_Inr)
  have "sv_log s1 = sv_log ?s"
    using s1(1) by (cases "opens (ke_mq ke) (sv_buffer2 ?s)") (auto simp: new_session_def split: if_splits)
  with start_worker_log [OF s1(2)] show ?thesis by (simp add: requested_def request_read_def)
qed

section \<open>Leaving\<close>

text \<open>
  The server leaves its loop only after a request to terminate, when nothing is active; each tester
  is then told to exit, once, and none before.
\<close>

definition exit_notices :: "server \<Rightarrow> event list" where
  "exit_notices s = map (\<lambda>kt. SentTo (ts_queue (snd kt)) ''exit'') (sv_testers s)"

definition leaves_well :: "phase \<Rightarrow> server \<Rightarrow> bool" where
  "leaves_well p s \<longleftrightarrow> consistent p s \<and>
     (if p = Left then sv_shouldTerminate s \<and> (sv_active s \<le> 0 \<or> sv_run s = []) \<and> filter is_exit (sv_log s) = exit_notices s
      else filter is_exit (sv_log s) = [])"

lemma leaves_well_Dead:
  "leaves_well Registering s \<Longrightarrow> leaves_well (Dead e) s" "leaves_well ReadingResult s \<Longrightarrow> leaves_well (Dead e) s"
  "leaves_well (Children b) s \<Longrightarrow> leaves_well (Dead e) s" "leaves_well ReadingReport s \<Longrightarrow> leaves_well (Dead e) s"
  using consistent_Dead by (auto simp: leaves_well_def)

lemma throttle_lock_log: "throttle_lock ke s = Inr s' \<Longrightarrow> sv_log s' = sv_log s"
  by (auto simp: throttle_lock_def split: if_splits)

lemma broadcast_log: "filter is_exit (sv_log (broadcast_exit s)) = filter is_exit (sv_log s) @ exit_notices s"
  by (simp add: broadcast_exit_def exit_notices_def is_exit_def split_beta comp_def)

lemma leaves_well_reap:
  assumes "leaves_well (Children b) s" "reap_children ke s = Inr (status, s')"
  shows "if \<not> sv_shouldTerminate (check_force status b s') then leaves_well ReadingReport (check_force status b s')
    else if sv_forceTermination (check_force status b s') then leaves_well Left (broadcast_exit (check_force status b s'))
    else leaves_well Registering (check_force status b s')"
proof -
  have c: "consistent (Children b) s" "filter is_exit (sv_log s) = []" using assms(1) by (simp_all add: leaves_well_def)
  have "\<not> sv_forceTermination s" using c(1) by (simp add: consistent_def)
  with consistent_reap [OF c(1) assms(2)] c(2) reap_children_result [OF assms(2)] show ?thesis
    by (simp add: leaves_well_def broadcast_log exit_notices_def) (auto simp: exit_notices_def)
qed

lemma leaves_well_handlers:
  "leaves_well Registering s \<Longrightarrow> handle_register ke m s = Inr s' \<Longrightarrow> leaves_well Registering s'"
  "leaves_well Registering s \<Longrightarrow> throttle_lock ke s = Inr s' \<Longrightarrow> leaves_well ReadingResult s'"
  "leaves_well ReadingResult s \<Longrightarrow> handle_run_terminate ke m s = Inr s' \<Longrightarrow> leaves_well (Children False) s'"
  "leaves_well ReadingReport s \<Longrightarrow> handle_report ke m s = Inr s' \<Longrightarrow> leaves_well Registering s'"
  using consistent_register [of s ke m s'] handle_register_log [of ke m s s'] consistent_lock [of s ke s']
    throttle_lock_log [of ke s s'] consistent_result [of s ke m s'] handle_run_terminate_log [of s ke m s']
    consistent_report [of s ke m s'] handle_report_log [of ke m s s']
  by (simp_all add: leaves_well_def) (simp add: consistent_def)

interpretation leaving: server_invariant leaves_well "\<lambda>_. True" "\<lambda>_. True" "\<lambda>_. True"
proof unfold_locales
  fix ke m s
  show "leaves_well Registering s \<Longrightarrow> ends_in leaves_well Registering s (handle_register ke m s)"
    by (rule ends_inI) (blast intro: leaves_well_Dead leaves_well_handlers)+
  show "leaves_well Registering s \<Longrightarrow> ends_in leaves_well ReadingResult s (throttle_lock ke s)"
    by (rule ends_inI) (blast intro: leaves_well_Dead leaves_well_handlers)+
  show "leaves_well ReadingResult s \<Longrightarrow> ends_in leaves_well (Children False) s (handle_run_terminate ke m s)"
    by (rule ends_inI) (blast intro: leaves_well_Dead leaves_well_handlers)+
  show "leaves_well ReadingReport s \<Longrightarrow> ends_in leaves_well Registering s (handle_report ke m s)"
    by (rule ends_inI) (blast intro: leaves_well_Dead leaves_well_handlers)+
  show "leaves_well ReadingResult s \<Longrightarrow> leaves_well (Children True) s"
    "leaves_well ReadingReport s \<Longrightarrow> leaves_well Registering s" by (simp_all add: leaves_well_def consistent_def)
qed (use leaves_well_Dead leaves_well_reap in \<open>blast+\<close>)

section \<open>A request and its answer\<close>

text \<open>A request a tester may send: the word is short enough for the session name it is copied to.\<close>

definition good_request :: "int \<Rightarrow> string \<Rightarrow> int \<Rightarrow> string \<Rightarrow> bool" where
  "good_request pid q loc w \<longleftrightarrow> in_int pid \<and> token q \<and> mq_name_ok q \<and> length q < 50 \<and> in_int loc \<and> plain_word w \<and> length w < 100"

lemma request_read_any:
  assumes "in_int pid" "token q" "in_int loc" "plain_word w"
  shows "request_read (snd (read_parse (write_parse pid q loc w))) s =
    s\<lparr> sv_buffer_pid := Some pid, sv_buffer2 := q, sv_loc_id := Some loc, sv_buffer := w, sv_rcd := sv_rcd s + 1 \<rparr>"
    "fst (read_parse (write_parse pid q loc w)) \<noteq> 0" "write_parse pid q loc w \<noteq> ''exit''"
proof -
  have r: "read_parse (write_parse pid q loc w) = (if w = [] then (3, [AInt pid, AStr q, AInt loc])
     else (4, [AInt pid, AStr q, AInt loc, AStr w]))"
    using assms by (intro read_write_parse) (simp_all add: in_int_llong)
  then show "request_read (snd (read_parse (write_parse pid q loc w))) s =
    s\<lparr> sv_buffer_pid := Some pid, sv_buffer2 := q, sv_loc_id := Some loc, sv_buffer := w, sv_rcd := sv_rcd s + 1 \<rparr>"
    by (simp add: request_read_def got_defs)
  show "fst (read_parse (write_parse pid q loc w)) \<noteq> 0" by (simp add: r)
  show "write_parse pid q loc w \<noteq> ''exit''" by (simp add: write_parse_def sprintf_def formats)
qed

lemma request_read_write:
  assumes "good_request pid q loc w"
  shows "request_read (snd (read_parse (write_parse pid q loc w))) s =
    s\<lparr> sv_buffer_pid := Some pid, sv_buffer2 := q, sv_loc_id := Some loc, sv_buffer := w, sv_rcd := sv_rcd s + 1 \<rparr>"
    "fst (read_parse (write_parse pid q loc w)) \<noteq> 0" "write_parse pid q loc w \<noteq> ''exit''"
  using request_read_any [of pid q loc w] assms by (simp_all add: good_request_def)

lemma new_session_result:
  assumes "ke_mq ke" "mq_name_ok (sv_buffer2 s)" "length (sv_buffer2 s) < 50" "length (sv_buffer s) < 100"
  shows "new_session ke pid s = Inr (s\<lparr> sv_testers := table_put (wrap32 pid)
    \<lparr> ts_queueName = sv_buffer s, ts_pid = wrap32 pid, ts_queue = sv_buffer2 s, ts_rcd_count = 0, ts_acc_count = 0 \<rparr>
    (sv_testers s) \<rparr>)"
  using assms by (simp add: new_session_def opens_def config)

text \<open>The session of the tester behind the request: the one it had, or a new one for the queue it names.\<close>

definition tester_session :: "int \<Rightarrow> string \<Rightarrow> string \<Rightarrow> server \<Rightarrow> TesterSlot" where
  "tester_session pid q w s = (case map_of (sv_testers s) pid of
     Some t \<Rightarrow> t
   | None \<Rightarrow> \<lparr> ts_queueName = w, ts_pid = pid, ts_queue = q, ts_rcd_count = 0, ts_acc_count = 0 \<rparr>)"

lemma handle_request:
  assumes ok: "server_ok s" and g: "good_request pid q loc w" and ke: "ke_mq ke" "ke_pipe ke" "worker_pid ke = Some wp"
  shows "\<exists>s' rs i. handle_report ke (write_parse pid q loc w) s = Inr s' \<and>
    map_of (sv_run s') wp = Some rs \<and> rs_testerSourcePid rs = pid \<and> rs_loc_id rs = loc \<and>
    map_of (sv_testers s') pid = Some (let t = tester_session pid q w s in t\<lparr> ts_rcd_count := ts_rcd_count t + 1 \<rparr>) \<and>
    sv_log s' = sv_log s @ [Spawned wp ([''run'', snd (msgPipeIDToStr i), w] @ (if sv_verbose s then [''-v''] else []))] \<and>
    holds_graph (sv_fds s') i (sv_graph s) \<and> sv_rcd s' = sv_rcd s + 1 \<and> sv_active s' = sv_active s + 1"
proof -
  let ?s = "s\<lparr> sv_buffer_pid := Some pid, sv_buffer2 := q, sv_loc_id := Some loc, sv_buffer := w, sv_rcd := sv_rcd s + 1 \<rparr>"
  have pid: "wrap32 pid = pid" using g by (simp add: good_request_def)
  have due: "request_due ?s" using request_due_counted [OF ok] by (simp add: request_due_def ok_defs)
  obtain s1 where s1: "(if map_of (sv_testers ?s) (wrap32 pid) = None then new_session ke pid ?s else Inr ?s) = Inr s1"
    "request_due s1" "pid \<in> keys (sv_testers s1)" "sv_log s1 = sv_log s" "sv_verbose s1 = sv_verbose s" "sv_graph s1 = sv_graph s"
    "sv_buffer s1 = w" "sv_rcd s1 = sv_rcd s + 1" "sv_active s1 = sv_active s" "sv_run s1 = sv_run s"
    "map_of (sv_testers s1) pid = Some (tester_session pid q w s)"
  proof (cases "map_of (sv_testers s) pid")
    case None
    have n: "new_session ke pid ?s = Inr (?s\<lparr> sv_testers := table_put pid
        \<lparr> ts_queueName = w, ts_pid = pid, ts_queue = q, ts_rcd_count = 0, ts_acc_count = 0 \<rparr> (sv_testers s) \<rparr>)" (is "_ = Inr ?s1")
      using new_session_result [of ke ?s pid] g ke(1) pid by (simp add: good_request_def)
    with None pid new_session_due [OF due n] show ?thesis
      by (intro that [of ?s1]) (simp_all add: tester_session_def map_of_put)
  next
    case (Some t)
    then have "pid \<in> keys (sv_testers s)" using map_of_SomeD by force
    with Some pid due show ?thesis by (intro that [of ?s]) (simp_all add: tester_session_def)
  qed
  let ?r = "requested pid s1"
  have rok: "server_ok ?r" using s1(2) by (intro requested_ok) (simp_all add: request_due_def)
  have "sessions_ok ?r" "counters_ok ?r" "pipes_ok (sv_run ?r) (sv_fds ?r)" using rok by (simp_all add: server_ok_def)
  moreover have "sv_snt ?r + int (length (sv_run ?r)) + 1 \<le> sv_rcd ?r" using s1(2) by (simp add: requested_def request_due_def)
  moreover have "wrap32 pid \<in> keys (sv_testers ?r)" using s1(3) pid by (simp add: requested_def)
  ultimately obtain s' rs i where s': "start_worker ke pid loc ?r = Inr s'" "sv_testers s' = sv_testers ?r" "sv_rcd s' = sv_rcd ?r"
    "sv_active s' = sv_active ?r + 1" "sv_run s' = table_put wp rs (sv_run ?r)" "rs_testerSourcePid rs = wrap32 pid"
    "rs_loc_id rs = loc" "sv_log s' = sv_log ?r @ [Spawned wp (worker_argv ?r (snd (msgPipeIDToStr i)))]"
    "holds_graph (sv_fds s') i (sv_graph ?r)"
    using start_worker_ok [of ?r pid ke loc] ke(2,3) by auto
  have "handle_report ke (write_parse pid q loc w) s = Inr s'"
    using request_read_write [OF g] s1(1) s'(1) by (simp add: handle_report_cases handle_parse_split)
  moreover have "map_of (sv_testers s') pid = Some (let t = tester_session pid q w s in t\<lparr> ts_rcd_count := ts_rcd_count t + 1 \<rparr>)"
    using s'(2) s1(11) pid by (simp add: requested_def map_of_upd Let_def)
  ultimately show ?thesis
    using s' s1 pid by (intro exI [of _ s'] exI [of _ rs] exI [of _ i]) (simp add: requested_def map_of_put worker_argv_def)
qed

text \<open>What a request leads to, whatever the kernel answers, when the server survives it.\<close>

lemma request_outcome:
  assumes ok: "server_ok s" and g: "good_request pid q loc w" and h: "handle_report ke (write_parse pid q loc w) s = Inr s'"
  shows "(\<forall>kt \<in> set (sv_testers s'). fst kt = pid \<and> ts_queue (snd kt) = q \<or>
      (\<exists>kt' \<in> set (sv_testers s). fst kt = fst kt' \<and> ts_queue (snd kt) = ts_queue (snd kt'))) \<and>
    sv_graph s' = sv_graph s \<and> k_capacity (sv_fds s') = k_capacity (sv_fds s) \<and>
    k_next_fd (sv_fds s') = k_next_fd (sv_fds s) + 2 \<and>
    (case worker_pid ke of
       None \<Rightarrow> sv_run s' = sv_run s \<and> sv_log s' = sv_log s
     | Some wp \<Rightarrow> \<exists>rs i flags. sv_run s' = table_put wp rs (sv_run s) \<and> rs_testerSourcePid rs = pid \<and> rs_loc_id rs = loc \<and>
         sv_log s' = sv_log s @ [Spawned wp ([''run'', snd (msgPipeIDToStr i), w] @ flags)] \<and>
         id_read i = k_next_fd (sv_fds s) \<and> id_write i = k_next_fd (sv_fds s) + 1 \<and> holds_graph (sv_fds s') i (sv_graph s))"
proof -
  let ?s = "s\<lparr> sv_buffer_pid := Some pid, sv_buffer2 := q, sv_loc_id := Some loc, sv_buffer := w, sv_rcd := sv_rcd s + 1 \<rparr>"
  have pid: "wrap32 pid = pid" using g by (simp add: good_request_def)
  have due: "request_due ?s" using request_due_counted [OF ok] by (simp add: request_due_def ok_defs)
  have "handle_parse ke pid loc ?s = Inr s'"
    using h request_read_write [OF g] by (simp add: handle_report_cases Let_def)
  then obtain s1 where s1: "(if map_of (sv_testers ?s) pid = None then new_session ke pid ?s else Inr ?s) = Inr s1"
    "start_worker ke pid loc (requested pid s1) = Inr s'" by (auto simp: handle_parse_split and_then_Inr pid)
  have n: "request_due s1 \<and> sv_run s1 = sv_run s \<and> sv_log s1 = sv_log s \<and> sv_graph s1 = sv_graph s \<and> sv_fds s1 = sv_fds s \<and>
    sv_buffer s1 = w \<and> pid \<in> keys (sv_testers s1) \<and> (\<forall>kt \<in> set (sv_testers s1). fst kt = pid \<and> ts_queue (snd kt) = q \<or> kt \<in> set (sv_testers s))"
  proof (cases "map_of (sv_testers s) pid")
    case None
    with s1(1) have "new_session ke pid ?s = Inr s1" by simp
    from new_session_due [OF due this] new_session_ok [OF _ this] due pid show ?thesis
      by (auto simp: request_due_def set_put)
  next
    case (Some t)
    then have "pid \<in> keys (sv_testers s)" using map_of_SomeD by force
    with Some s1(1) due show ?thesis by auto
  qed
  let ?r = "requested pid s1"
  have "server_ok ?r" using n by (intro requested_ok) (simp_all add: request_due_def)
  then have rok: "sessions_ok ?r" "counters_ok ?r" "pipes_ok (sv_run ?r) (sv_fds ?r)" by (simp_all add: server_ok_def)
  moreover have "request_due s1" using n by blast
  then have "sv_snt ?r + int (length (sv_run ?r)) + 1 \<le> sv_rcd ?r" by (simp add: requested_def request_due_def)
  moreover have "wrap32 pid \<in> keys (sv_testers ?r)" using n pid by (simp add: requested_def)
  moreover have "ke_pipe ke" using s1(2) start_worker_no_pipe by (cases "ke_pipe ke") auto
  ultimately obtain s2 where s2: "start_worker ke pid loc ?r = Inr s2" "sv_testers s2 = sv_testers ?r" "sv_graph s2 = sv_graph ?r"
    "k_capacity (sv_fds s2) = k_capacity (sv_fds ?r)" "k_next_fd (sv_fds s2) = k_next_fd (sv_fds ?r) + 2"
    "case worker_pid ke of None \<Rightarrow> sv_run s2 = sv_run ?r \<and> sv_log s2 = sv_log ?r \<and> sv_active s2 = sv_active ?r
     | Some wp \<Rightarrow> sv_active s2 = sv_active ?r + 1 \<and> (\<exists>rs i. sv_run s2 = table_put wp rs (sv_run ?r) \<and>
         rs_testerSourcePid rs = wrap32 pid \<and> rs_loc_id rs = loc \<and>
         sv_log s2 = sv_log ?r @ [Spawned wp (worker_argv ?r (snd (msgPipeIDToStr i)))] \<and>
         id_read i = k_next_fd (sv_fds ?r) \<and> id_write i = k_next_fd (sv_fds ?r) + 1 \<and> holds_graph (sv_fds s2) i (sv_graph ?r))"
    using start_worker_ok [of ?r pid ke loc] by auto
  then have s': "s2 = s'" using s1(2) by simp
  have t: "\<forall>kt \<in> set (sv_testers ?r). \<exists>kt' \<in> set (sv_testers s1). fst kt = fst kt' \<and> ts_queue (snd kt) = ts_queue (snd kt')"
    by (force simp: requested_def table_upd_def)
  have testers: "\<forall>kt \<in> set (sv_testers s'). fst kt = pid \<and> ts_queue (snd kt) = q \<or>
      (\<exists>kt' \<in> set (sv_testers s). fst kt = fst kt' \<and> ts_queue (snd kt) = ts_queue (snd kt'))"
  proof
    fix kt assume "kt \<in> set (sv_testers s')"
    then obtain kt1 where "kt1 \<in> set (sv_testers s1)" "fst kt = fst kt1" "ts_queue (snd kt) = ts_queue (snd kt1)"
      using t s2(2) s' by auto
    with n show "fst kt = pid \<and> ts_queue (snd kt) = q \<or>
      (\<exists>kt' \<in> set (sv_testers s). fst kt = fst kt' \<and> ts_queue (snd kt) = ts_queue (snd kt'))" by metis
  qed
  have same: "sv_graph s' = sv_graph s" "k_capacity (sv_fds s') = k_capacity (sv_fds s)"
    "k_next_fd (sv_fds s') = k_next_fd (sv_fds s) + 2" "sv_run ?r = sv_run s" "sv_log ?r = sv_log s" "sv_fds ?r = sv_fds s"
    "sv_graph ?r = sv_graph s" "sv_buffer ?r = w"
    using s2(3-5) n s' by (simp_all add: requested_def)
  show ?thesis
  proof (cases "worker_pid ke")
    case None
    with s2(6) s' same testers show ?thesis by simp
  next
    case (Some wp)
    with s2(6) s' same pid obtain rs i where "sv_run s' = table_put wp rs (sv_run s)" "rs_testerSourcePid rs = pid"
      "rs_loc_id rs = loc" "sv_log s' = sv_log s @ [Spawned wp (worker_argv ?r (snd (msgPipeIDToStr i)))]"
      "id_read i = k_next_fd (sv_fds s)" "id_write i = k_next_fd (sv_fds s) + 1" "holds_graph (sv_fds s') i (sv_graph s)" by auto
    moreover have "worker_argv ?r (snd (msgPipeIDToStr i)) =
        [''run'', snd (msgPipeIDToStr i), w] @ (if sv_verbose ?r then [''-v''] else [])" using same(8) by (simp add: worker_argv_def)
    ultimately show ?thesis using Some same testers
      by (simp only: option.case) (intro conjI exI [of _ rs] exI [of _ i] exI [of _ "if sv_verbose ?r then [''-v''] else []"], simp_all)
  qed
qed

lemma answer_outcome:
  assumes ok: "server_ok s" and "in_int wp" "in_int r" "map_of (sv_run s) wp = Some rs"
    and h: "handle_run_terminate ke (write_run_terminate wp r) s = Inr s'"
  shows "\<exists>ts. map_of (sv_testers s) (rs_testerSourcePid rs) = Some ts \<and>
    sv_log s' = sv_log s @ [SentTo (ts_queue ts) (write_answer (rs_loc_id rs) r)] \<and>
    sv_run s' = table_del wp (sv_run s) \<and> sv_graph s' = sv_graph s \<and>
    k_capacity (sv_fds s') = k_capacity (sv_fds s) \<and> k_next_fd (sv_fds s') = k_next_fd (sv_fds s) \<and>
    sv_testers s' = (if r = 1 then table_upd (rs_testerSourcePid rs) (\<lambda>t. t\<lparr> ts_acc_count := ts_acc_count t + 1 \<rparr>) (sv_testers s)
      else sv_testers s)"
proof -
  have m: "read_run_terminate (write_run_terminate wp r) = (2, [AInt wp, AInt r])"
    using assms(2,3) by (simp add: read_write_run_terminate in_int_llong)
  let ?s = "result_read [AInt wp, AInt r] s"
  have rd: "sv_buffer_pid ?s = Some wp" "sv_buffer_result ?s = Some r" "server_ok ?s"
    using ok by (simp_all add: result_read_def got_defs)
  have wp: "wrap32 wp = wp" using assms(2) by simp
  obtain s1 where s1: "throttle_unlock ke ?s = Inr s1"
    "(case map_of (sv_run s1) (wrap32 wp) of None \<Rightarrow> Inr s1 | Some rs \<Rightarrow> finish_run (wrap32 wp) rs r s1) = Inr s'"
    using h m rd(1,2) wp by (auto simp: handle_run_terminate_cases and_then_Inr)
  note u = throttle_unlock_result [OF s1(1)]
  then have s1': "server_ok s1" "map_of (sv_run s1) wp = Some rs" using rd(3) assms(4) by (simp_all add: result_read_def)
  then have f: "finish_run wp rs r s1 = Inr s'" using s1(2) wp by simp
  have same: "sv_testers s1 = sv_testers s" "sv_log s1 = sv_log s" "sv_run s1 = sv_run s" "sv_graph s1 = sv_graph s" "sv_fds s1 = sv_fds s"
    using u by (simp_all add: result_read_def)
  from finish_run_ok [OF s1', of r] obtain ts where "map_of (sv_testers s1) (rs_testerSourcePid rs) = Some ts"
    "sv_log s' = sv_log s1 @ [SentTo (ts_queue ts) (write_answer (rs_loc_id rs) r)]" "sv_run s' = table_del wp (sv_run s1)"
    "sv_graph s' = sv_graph s1" "k_capacity (sv_fds s') = k_capacity (sv_fds s1)" "k_next_fd (sv_fds s') = k_next_fd (sv_fds s1)"
    "sv_testers s' = (if r = 1 then table_upd (rs_testerSourcePid rs) (\<lambda>t. t\<lparr> ts_acc_count := ts_acc_count t + 1 \<rparr>) (sv_testers s1)
      else sv_testers s1)" unfolding f sum.inject by blast
  then show ?thesis unfolding same by blast
qed

lemma handle_answer:
  assumes ok: "server_ok s" and "in_int wp" "in_int r" "map_of (sv_run s) wp = Some rs" "ke_mq ke"
  shows "\<exists>s' ts. handle_run_terminate ke (write_run_terminate wp r) s = Inr s' \<and>
    map_of (sv_testers s) (rs_testerSourcePid rs) = Some ts \<and>
    sv_log s' = sv_log s @ [SentTo (ts_queue ts) (write_answer (rs_loc_id rs) r)] \<and>
    sv_run s' = table_del wp (sv_run s) \<and> sv_snt s' = sv_snt s + 1 \<and> sv_acc s' = sv_acc s + of_bool (r = 1) \<and>
    map_of (sv_testers s') (rs_testerSourcePid rs) = Some (ts\<lparr> ts_acc_count := ts_acc_count ts + of_bool (r = 1) \<rparr>)"
proof -
  have m: "read_run_terminate (write_run_terminate wp r) = (2, [AInt wp, AInt r])"
    using assms(2,3) by (simp add: read_write_run_terminate in_int_llong)
  let ?s = "result_read [AInt wp, AInt r] s"
  have rd: "sv_buffer_pid ?s = Some wp" "sv_buffer_result ?s = Some r" "sv_run ?s = sv_run s" "server_ok ?s"
    using ok by (simp_all add: result_read_def got_defs)
  obtain s1 where s1: "throttle_unlock ke ?s = Inr s1" 
    using assms(5) by (cases "throttle_unlock ke ?s") (simp_all add: throttle_unlock_def split: if_splits)
  note u = throttle_unlock_result [OF s1]
  then have s1': "server_ok s1" "map_of (sv_run s1) wp = Some rs" using rd assms(4) by simp_all
  obtain s' ts where f: "finish_run wp rs r s1 = Inr s'" "map_of (sv_testers s1) (rs_testerSourcePid rs) = Some ts"
    "sv_log s' = sv_log s1 @ [SentTo (ts_queue ts) (write_answer (rs_loc_id rs) r)]" "sv_run s' = table_del wp (sv_run s1)"
    "sv_snt s' = sv_snt s1 + 1" "sv_acc s' = sv_acc s1 + of_bool (r = 1)"
    "map_of (sv_testers s') (rs_testerSourcePid rs) = Some (ts\<lparr> ts_acc_count := ts_acc_count ts + of_bool (r = 1) \<rparr>)"
    using finish_run_ok [OF s1', of r] by blast
  have "handle_run_terminate ke (write_run_terminate wp r) s = Inr s'"
    using m rd(1,2) s1 s1'(2) f(1) assms(2) by (simp add: handle_run_terminate_cases)
  moreover have "sv_testers s1 = sv_testers s" "sv_log s1 = sv_log s" "sv_run s1 = sv_run s" "sv_snt s1 = sv_snt s" "sv_acc s1 = sv_acc s"
    using u by (simp_all add: result_read_def)
  ultimately show ?thesis using f by (intro exI [of _ s'] exI [of _ ts]) simp
qed

section \<open>A run\<close>

text \<open>
  A first request, served on a system that grants everything; the worker has answered and the server
  is about to read the result.
\<close>

definition granting :: kernel where
  "granting = \<lparr> ke_mq = True, ke_pipe = True, ke_fork = (\<lambda>_. Some 77), ke_wait = NoneEnded \<rparr>"

definition idle_server :: server where
  "idle_server = server_start [] []
     \<lparr> k_open = [], k_data = (\<lambda>_. []), k_capacity = 65536, k_next_pipe = 0, k_next_fd = 3 \<rparr> ''graph'' False"

lemma idle_server_sel [simp]:
  "sv_throttled idle_server = False" "sv_active idle_server = 0" "sv_run_blocking idle_server = False"
  "sv_report_blocking idle_server = True" "sv_shouldTerminate idle_server = False" "sv_forceTermination idle_server = False"
  "sv_testers idle_server = []" "sv_log idle_server = []" "sv_verbose idle_server = False" "sv_graph idle_server = ''graph''"
  "sv_rcd idle_server = 0" "sv_buffer idle_server = []" "sv_run idle_server = []"
  by (simp_all add: idle_server_def server_start_def)

lemma idle_server_ok: "server_ok idle_server"
  by (simp add: idle_server_def server_ok_start)

lemma good_request_demo: "good_request 5 ''/q'' 1 ''ab''"
  by (simp add: good_request_def token_def plain_word_def in_scan_set_def in_int_def)

lemma reads_report:
  assumes "P m"
  shows "moves R W P (boot idle_server) ((boot idle_server)\<lparr> sy_phase := ReadingReport, sy_report := [m] \<rparr>)"
proof -
  let ?y = "boot idle_server"
  have "moves R W P ?y (?y\<lparr> sy_report := sy_report ?y @ [m] \<rparr>)" by (rule moves.reports) (rule moves.start, rule assms)
  then have "moves R W P ?y (?y\<lparr> sy_report := [m] \<rparr>)" by (simp add: boot_def)
  moreover have "server_step granting (?y\<lparr> sy_report := [m] \<rparr>) = Some (?y\<lparr> sy_phase := ReadingResult, sy_report := [m] \<rparr>)"
    by (simp add: server_step_def boot_def continue_with_def throttle_lock_def config)
  ultimately have "moves R W P ?y (?y\<lparr> sy_phase := ReadingResult, sy_report := [m] \<rparr>)" by (rule moves.serves)
  moreover have "server_step granting (?y\<lparr> sy_phase := ReadingResult, sy_report := [m] \<rparr>) =
      Some (?y\<lparr> sy_phase := Children True, sy_report := [m] \<rparr>)"
    by (simp add: server_step_def boot_def)
  ultimately have "moves R W P ?y (?y\<lparr> sy_phase := Children True, sy_report := [m] \<rparr>)" by (rule moves.serves)
  moreover have "server_step granting (?y\<lparr> sy_phase := Children True, sy_report := [m] \<rparr>) =
      Some (?y\<lparr> sy_phase := ReadingReport, sy_report := [m] \<rparr>)"
    by (simp add: server_step_def boot_def after_children_def reap_children_def processWaitForAllNonBlocking_def granting_def
        check_force_def Let_def)
  ultimately show ?thesis by (rule moves.serves)
qed

lemma reads_result:
  assumes "P (write_parse 5 ''/q'' 1 ''ab'')" "W (write_run_terminate 77 1)"
  shows "\<exists>s rs. moves R W P (boot idle_server) \<lparr> sy_server = s, sy_phase = ReadingResult, sy_register = [],
      sy_result = [write_run_terminate 77 1], sy_report = [] \<rparr> \<and>
    map_of (sv_run s) 77 = Some rs \<and> rs_testerSourcePid rs = 5 \<and> rs_loc_id rs = 1 \<and>
    (\<exists>t. map_of (sv_testers s) 5 = Some t \<and> ts_queue t = ''/q'' \<and> ts_rcd_count t = 1) \<and> sv_rcd s = 1 \<and> sv_active s = 1"
proof -
  let ?m = "write_parse 5 ''/q'' 1 ''ab''" let ?r = "write_run_terminate 77 1"
  have "worker_pid granting = Some 77" "ke_mq granting" "ke_pipe granting" by (simp_all add: worker_pid_def granting_def)
  then obtain s rs where s: "handle_report granting ?m idle_server = Inr s" "map_of (sv_run s) 77 = Some rs"
    "rs_testerSourcePid rs = 5" "rs_loc_id rs = 1" "sv_rcd s = 1" "sv_active s = 1"
    "map_of (sv_testers s) 5 = Some (let t = tester_session 5 ''/q'' ''ab'' idle_server in t\<lparr> ts_rcd_count := ts_rcd_count t + 1 \<rparr>)"
    using handle_request [OF idle_server_ok good_request_demo, of granting 77] by auto
  have "sv_throttled s = False" using handle_report_ok [OF idle_server_ok s(1)] by simp
  let ?y = "\<lparr> sy_server = s, sy_phase = Registering, sy_register = [], sy_result = [], sy_report = [] \<rparr>"
  have "server_step granting ((boot idle_server)\<lparr> sy_phase := ReadingReport, sy_report := [?m] \<rparr>) = Some ?y"
    using s(1) by (simp add: server_step_def boot_def continue_with_def)
  with reads_report [of P "write_parse 5 ''/q'' 1 ''ab''", OF assms(1)] have "moves R W P (boot idle_server) ?y" by (rule moves.serves)
  then have "moves R W P (boot idle_server) (?y\<lparr> sy_result := sy_result ?y @ [?r] \<rparr>)" by (rule moves.results) (rule assms(2))
  moreover have "server_step granting (?y\<lparr> sy_result := sy_result ?y @ [?r] \<rparr>) =
      Some (?y\<lparr> sy_phase := ReadingResult, sy_result := [?r] \<rparr>)"
    using \<open>sv_throttled s = False\<close> s(6) by (simp add: server_step_def continue_with_def throttle_lock_def config)
  ultimately have "moves R W P (boot idle_server) (?y\<lparr> sy_phase := ReadingResult, sy_result := [?r] \<rparr>)" by (rule moves.serves)
  moreover have "\<exists>t. map_of (sv_testers s) 5 = Some t \<and> ts_queue t = ''/q'' \<and> ts_rcd_count t = 1"
    using s(7) by (simp add: tester_session_def Let_def)
  ultimately show ?thesis using s by auto
qed

section \<open>Properties\<close>



text \<open>
  C5: answers are routed by session. When the server reads the result of a worker it started, it sends
  exactly one message, the answer with the local id the request came with, to the queue of the session of
  the tester that sent the request, removes the worker's session and counts the answer; the fall-back of
  the search to the last tester is never taken.
\<close>

theorem server_routes_answer:
  assumes "moves R W P (boot (server_start g g2 fds graph verbose)) y"
    and "sy_phase y = ReadingResult" "sy_result y = write_run_terminate wp r # ms" "in_int wp" "in_int r"
    and "map_of (sv_run (sy_server y)) wp = Some rs" "ke_mq ke"
  shows "\<exists>s' ts. server_step ke y = Some (y\<lparr> sy_server := s', sy_phase := Children False, sy_result := ms \<rparr>) \<and>
    map_of (sv_testers (sy_server y)) (rs_testerSourcePid rs) = Some ts \<and>
    sv_log s' = sv_log (sy_server y) @ [SentTo (ts_queue ts) (write_answer (rs_loc_id rs) r)] \<and>
    sv_run s' = table_del wp (sv_run (sy_server y)) \<and> sv_snt s' = sv_snt (sy_server y) + 1 \<and>
    sv_acc s' = sv_acc (sy_server y) + of_bool (r = 1) \<and>
    map_of (sv_testers s') (rs_testerSourcePid rs) = Some (ts\<lparr> ts_acc_count := ts_acc_count ts + of_bool (r = 1) \<rparr>)"
proof -
  have "server_ok (sy_server y)" using reached_consistent [OF assms(1)] by (simp add: consistent_def)
  from handle_answer [OF this assms(4-7)] obtain s' ts where
    s': "handle_run_terminate ke (write_run_terminate wp r) (sy_server y) = Inr s'" and rest:
    "map_of (sv_testers (sy_server y)) (rs_testerSourcePid rs) = Some ts"
    "sv_log s' = sv_log (sy_server y) @ [SentTo (ts_queue ts) (write_answer (rs_loc_id rs) r)]"
    "sv_run s' = table_del wp (sv_run (sy_server y))" "sv_snt s' = sv_snt (sy_server y) + 1"
    "sv_acc s' = sv_acc (sy_server y) + of_bool (r = 1)"
    "map_of (sv_testers s') (rs_testerSourcePid rs) = Some (ts\<lparr> ts_acc_count := ts_acc_count ts + of_bool (r = 1) \<rparr>)" by blast
  have "server_step ke y = Some (y\<lparr> sy_server := s', sy_phase := Children False, sy_result := ms \<rparr>)"
    using assms(2,3) s' by (simp add: server_step_def continue_with_def)
  with rest show ?thesis by blast
qed

theorem server_routes_answer_witness:
  "\<exists>y y'. moves (\<lambda>_. True) (\<lambda>_. True) (\<lambda>_. True) (boot idle_server) y \<and> server_step granting y = Some y' \<and>
     sv_log (sy_server y') = sv_log (sy_server y) @ [SentTo ''/q'' (write_answer 1 1)] \<and> sv_snt (sy_server y') = sv_snt (sy_server y) + 1"
proof -
  obtain s rs t where s: "moves (\<lambda>_. True) (\<lambda>_. True) (\<lambda>_. True) (boot idle_server) \<lparr> sy_server = s, sy_phase = ReadingResult,
      sy_register = [], sy_result = [write_run_terminate 77 1], sy_report = [] \<rparr>" (is "moves _ _ _ _ ?y")
    "map_of (sv_run s) 77 = Some rs" "rs_testerSourcePid rs = 5" "rs_loc_id rs = 1" "map_of (sv_testers s) 5 = Some t"
    "ts_queue t = ''/q''" using reads_result [of "\<lambda>_. True" "\<lambda>_. True" "\<lambda>_. True"] by auto
  have "in_int 77" "in_int 1" "ke_mq granting" by (simp_all add: in_int_def granting_def)
  with server_routes_answer [OF s(1) [unfolded idle_server_def], of 77 1 "[]" rs granting] s(2)
  obtain s' ts where "server_step granting ?y = Some (?y\<lparr> sy_server := s', sy_phase := Children False, sy_result := [] \<rparr>)"
    "map_of (sv_testers s) (rs_testerSourcePid rs) = Some ts"
    "sv_log s' = sv_log s @ [SentTo (ts_queue ts) (write_answer (rs_loc_id rs) 1)]" "sv_snt s' = sv_snt s + 1" by auto
  with s show ?thesis
    by (intro exI [of _ ?y] exI [of _ "?y\<lparr> sy_server := s', sy_phase := Children False, sy_result := [] \<rparr>"]) simp
qed

end
