(* ===== verification/ServerProperties.thy ===== *)
theory ServerProperties
  imports ServerCorrect
begin

text \<open>
  The properties of the event loop that rest on its invariants: the counters, the throttle, leaving,
  safety on well-formed messages, and the two places where the server does not do what it should:
  it waits for a report while results wait for it, and the request of an unregistered tester can
  overflow the name in its session.
\<close>

section \<open>Counters, throttle and exit\<close>

text \<open>
  C7: the statistics are consistent. In every state the server reaches, whatever messages it is sent,
  the answers sent and the workers it still has sessions for are at most the requests received, the
  accepted words are among the answers sent, and the figures printed for the testers add up to at most
  the figures printed for the server.
\<close>

theorem server_counters:
  assumes "moves R W P (boot (server_start g g2 fds graph verbose)) y"
  shows "sv_snt (sy_server y) + int (length (sv_run (sy_server y))) \<le> sv_rcd (sy_server y) \<and>
    0 \<le> sv_acc (sy_server y) \<and> sv_acc (sy_server y) \<le> sv_snt (sy_server y) \<and>
    (\<Sum>(_, t) \<leftarrow> sv_testers (sy_server y). ts_rcd_count t) \<le> sv_rcd (sy_server y) \<and>
    (\<Sum>(_, t) \<leftarrow> sv_testers (sy_server y). ts_acc_count t) \<le> sv_acc (sy_server y)"
proof -
  have "counters_ok (sy_server y)"
    using reached_consistent [OF assms] by (simp add: consistent_def server_ok_def)
  then show ?thesis by (simp add: counters_ok_def tally_def case_prod_unfold)
qed

theorem server_counters_witness:
  "\<exists>y. moves (\<lambda>_. True) (\<lambda>_. True) (\<lambda>_. True) (boot idle_server) y \<and> sv_rcd (sy_server y) = 1 \<and>
     sv_snt (sy_server y) + int (length (sv_run (sy_server y))) \<le> 1 \<and> sv_run (sy_server y) \<noteq> []"
proof -
  obtain s rs where s: "moves (\<lambda>_. True) (\<lambda>_. True) (\<lambda>_. True) (boot idle_server) \<lparr> sy_server = s, sy_phase = ReadingResult,
      sy_register = [], sy_result = [write_run_terminate 77 1], sy_report = [] \<rparr>" (is "moves _ _ _ _ ?y")
    "map_of (sv_run s) 77 = Some rs" "sv_rcd s = 1" using reads_result [of "\<lambda>_. True" "\<lambda>_. True" "\<lambda>_. True"] by auto
  from s(2) have "sv_run s \<noteq> []" by auto
  with server_counters [OF s(1) [unfolded idle_server_def]] s show ?thesis by (intro exI [of _ ?y]) simp
qed

lemma throttled_well_start: "throttled_well Registering (server_start g g2 fds graph verbose)"
  using consistent_start by (simp add: throttled_well_def active_bound_def server_start_def)

text \<open>
  C8: the throttle works. As long as the result queue carries only what workers write, at most
  SERVER_PROCESS_LIMIT + 1 workers count as active, and the queues are in the modes of the throttle:
  throttled the server waits for results and only polls for requests, otherwise the other way round.
\<close>

theorem server_throttle_bound:
  assumes "moves (\<lambda>_. True) result_message (\<lambda>_. True) (boot (server_start g g2 fds graph verbose)) y"
  shows "sv_active (sy_server y) \<le> SERVER_PROCESS_LIMIT + 1 \<and>
    sv_run_blocking (sy_server y) = sv_throttled (sy_server y) \<and>
    sv_report_blocking (sy_server y) = (\<not> sv_throttled (sy_server y))"
proof -
  have t: "throttled_well (sy_phase y) (sy_server y)" using throttle.reached [OF assms throttled_well_start] .
  have "active_bound (sy_phase y) \<le> 21" by (simp add: active_bound_def split: phase.split)
  with t show ?thesis by (simp add: throttled_well_def consistent_def config)
qed

theorem server_throttle_bound_witness:
  "\<exists>y. moves (\<lambda>_. True) result_message (\<lambda>_. True) (boot idle_server) y \<and> sv_active (sy_server y) = 1 \<and>
     sv_active (sy_server y) \<le> SERVER_PROCESS_LIMIT + 1"
proof -
  have "result_message (write_run_terminate 77 1)"
    unfolding result_message_def by (rule exI [of _ 77], rule exI [of _ 1]) (simp add: in_llong_def in_int_def)
  then obtain s where s: "moves (\<lambda>_. True) result_message (\<lambda>_. True) (boot idle_server) \<lparr> sy_server = s, sy_phase = ReadingResult,
      sy_register = [], sy_result = [write_run_terminate 77 1], sy_report = [] \<rparr>" (is "moves _ _ _ _ ?y")
    "sv_active s = 1" using reads_result [of "\<lambda>_. True" result_message "\<lambda>_. True"] by auto
  with server_throttle_bound [OF s(1) [unfolded idle_server_def]] show ?thesis by (intro exI [of _ ?y]) simp
qed

lemma leaves_well_start: "leaves_well Registering (server_start g g2 fds graph verbose)"
  using consistent_start by (simp add: leaves_well_def) (simp add: server_start_def)



section \<open>Where the server stops and where it waits\<close>

text \<open>\<open>n\<close> moves of the server, with the kernel always giving the same answers and nothing sent meanwhile.\<close>

fun serve :: "nat \<Rightarrow> kernel \<Rightarrow> system \<Rightarrow> system option" where
  "serve 0 ke y = Some y"
| "serve (Suc n) ke y = (case server_step ke y of None \<Rightarrow> None | Some y' \<Rightarrow> serve n ke y')"

lemma serve_moves: "serve n ke z = Some z' \<Longrightarrow> moves R W P y z \<Longrightarrow> moves R W P y z'"
  by (induction n ke z rule: serve.induct) (auto split: option.splits intro: moves.serves)

text \<open>No child has ended, or there is none.\<close>

definition no_child_ended :: "kernel \<Rightarrow> bool" where
  "no_child_ended ke \<longleftrightarrow> ke_wait ke = NoneEnded \<or> ke_wait ke = NoChildren"

lemma reap_none: "no_child_ended ke \<Longrightarrow> reap_children ke s = Inr (0, s)"
  by (auto simp: no_child_ended_def reap_children_def processWaitForAllNonBlocking_def)

lemma throttle_lock_off: "sv_active s \<le> SERVER_PROCESS_LIMIT \<Longrightarrow> throttle_lock ke s = Inr s"
  by (simp add: throttle_lock_def)

text \<open>
  An idle server obeys. Once a termination request was read, with no message waiting and no worker
  session left, the server reaches the end of its loop in three moves, having told every tester to exit.
\<close>

theorem server_stops_when_idle:
  assumes "moves R W P (boot (server_start g g2 fds graph verbose)) y" "sy_phase y = Registering"
    and "sv_shouldTerminate (sy_server y)" "sv_run (sy_server y) = []" "sv_active (sy_server y) \<le> SERVER_PROCESS_LIMIT"
    and "\<not> sv_throttled (sy_server y)" "sy_register y = []" "sy_result y = []" "no_child_ended ke"
  shows "\<exists>s. serve 3 ke y = Some (y\<lparr> sy_server := s, sy_phase := Left \<rparr>) \<and>
    sv_log s = sv_log (sy_server y) @ exit_notices (sy_server y)"
proof -
  let ?s = "sy_server y" let ?s' = "?s\<lparr> sv_forceTermination := True \<rparr>"
  have "\<not> sv_run_blocking ?s" using reached_consistent [OF assms(1)] assms(6) by (simp add: consistent_def)
  then have "server_step ke y = Some (y\<lparr> sy_phase := ReadingResult \<rparr>)"
    "server_step ke (y\<lparr> sy_phase := ReadingResult \<rparr>) = Some (y\<lparr> sy_phase := Children True \<rparr>)"
    using assms by (simp_all add: server_step_def continue_with_def throttle_lock_off)
  moreover have "server_step ke (y\<lparr> sy_phase := Children True \<rparr>) =
      Some (y\<lparr> sy_phase := Left, sy_server := broadcast_exit ?s' \<rparr>)"
    using assms by (simp add: server_step_def after_children_def reap_none check_force_def)
  ultimately have "serve 3 ke y = Some (y\<lparr> sy_server := broadcast_exit ?s', sy_phase := Left \<rparr>)"
    by (simp add: numeral_3_eq_3)
  moreover have "sv_log (broadcast_exit ?s') = sv_log ?s @ exit_notices ?s"
    by (simp add: broadcast_exit_def exit_notices_def case_prod_unfold)
  ultimately show ?thesis by blast
qed

theorem server_stops_when_idle_witness:
  "\<exists>y s. moves (\<lambda>_. True) (\<lambda>_. True) (\<lambda>_. True) (boot idle_server) y \<and> serve 3 granting y = Some (y\<lparr> sy_server := s, sy_phase := Left \<rparr>)"
proof -
  let ?y = "(boot idle_server)\<lparr> sy_phase := ReadingReport, sy_report := [''exit''] \<rparr>"
  let ?z = "boot (idle_server\<lparr> sv_shouldTerminate := True \<rparr>)"
  have "moves (\<lambda>_. True) (\<lambda>_. True) (\<lambda>_. True) (boot idle_server) ?y" using reads_report by simp
  moreover have "server_step granting ?y = Some ?z"
    by (simp add: server_step_def continue_with_def boot_def handle_report_def idle_server_def server_start_def)
  ultimately have m: "moves (\<lambda>_. True) (\<lambda>_. True) (\<lambda>_. True) (boot idle_server) ?z" by (rule moves.serves)
  have "no_child_ended granting" by (simp add: no_child_ended_def granting_def)
  with server_stops_when_idle [OF m [unfolded idle_server_def], of granting] m show ?thesis
    by (auto simp: boot_def idle_server_def server_start_def config)
qed

lemma waiting_moves:
  "moves R W (\<lambda>_. False) y z \<Longrightarrow> sy_phase y = ReadingReport \<Longrightarrow> sy_report y = [] \<Longrightarrow> sv_report_blocking (sy_server y) \<Longrightarrow>
   sy_phase z = ReadingReport \<and> sy_report z = [] \<and> sy_server z = sy_server y \<and> (\<exists>ms. sy_result z = sy_result y @ ms)"
proof (induction rule: moves.induct)
  case (serves y z ke z')
  then show ?case by (simp add: server_step_def)
next
  case (results y z m)
  then show ?case by (simp, elim conjE exE) simp
qed simp_all

text \<open>
  While the server waits for a report it does nothing else. In its normal mode, with the report queue
  empty, results may arrive and testers may register: until a further report is sent the server makes
  no move, sends nothing, and the results wait. (So the answer to the last word of all testers is delivered
  only when a later report, such as the request to terminate, wakes the server.)
\<close>

theorem server_waits_for_reports:
  assumes "moves R W P (boot (server_start g g2 fds graph verbose)) y" "sy_phase y = ReadingReport"
    and "\<not> sv_throttled (sy_server y)" "sy_report y = []" "moves R' W' (\<lambda>_. False) y z"
  shows "sy_server z = sy_server y \<and> sy_phase z = ReadingReport \<and> server_step ke z = None \<and>
    (\<exists>ms. sy_result z = sy_result y @ ms)"
proof -
  have "sv_report_blocking (sy_server y)" using reached_consistent [OF assms(1)] assms(3) by (simp add: consistent_def)
  with waiting_moves [OF assms(5,2,4)] show ?thesis by (simp add: server_step_def)
qed

theorem server_waits_for_reports_witness:
  "\<exists>y z. moves (\<lambda>_. True) (\<lambda>_. True) (\<lambda>_. True) (boot idle_server) y \<and> moves (\<lambda>_. True) (\<lambda>_. True) (\<lambda>_. False) y z \<and>
     sy_result z = [write_run_terminate 77 1] \<and> sv_log (sy_server z) = [] \<and> server_step granting z = None"
proof -
  let ?y = "(boot idle_server)\<lparr> sy_phase := ReadingReport \<rparr>"
  have "serve 3 granting (boot idle_server) = Some ?y"
    by (simp add: numeral_3_eq_3 server_step_def boot_def continue_with_def throttle_lock_off config after_children_def
        reap_none no_child_ended_def granting_def check_force_def Let_def)
  then have y: "moves (\<lambda>_. True) (\<lambda>_. True) (\<lambda>_. True) (boot idle_server) ?y"
    using serve_moves moves.start by blast
  have z: "moves (\<lambda>_. True) (\<lambda>_. True) (\<lambda>_. False) ?y (?y\<lparr> sy_result := sy_result ?y @ [write_run_terminate 77 1] \<rparr>)"
    by (intro moves.results moves.start) simp
  from server_waits_for_reports [OF y [unfolded idle_server_def] _ _ _ z [unfolded idle_server_def], of granting] y z
  show ?thesis
    by (intro exI [of _ ?y] exI [of _ "?y\<lparr> sy_result := sy_result ?y @ [write_run_terminate 77 1] \<rparr>"])
       (simp add: boot_def idle_server_def server_start_def)
qed

section \<open>Safety\<close>

text \<open>The messages testers send.\<close>

definition register_message :: "string \<Rightarrow> bool" where
  "register_message m \<longleftrightarrow> (\<exists>pid q. in_int pid \<and> token q \<and> mq_name_ok q \<and> length q < 50 \<and> m = write_register pid q)"

definition report_message :: "string \<Rightarrow> bool" where
  "report_message m \<longleftrightarrow> m = ''exit'' \<or> (\<exists>pid q loc w. good_request pid q loc w \<and> m = write_parse pid q loc w)"

text \<open>The invariant: the text in \<open>buffer\<close> fits the name of a session.\<close>

definition runs_well :: "phase \<Rightarrow> server \<Rightarrow> bool" where
  "runs_well p s \<longleftrightarrow> consistent p s \<and> length (sv_buffer s) < 100 \<and> p \<noteq> Dead Undefined"

lemma opens_defined: "length n < 50 \<Longrightarrow> opens b n \<noteq> Inl Undefined"
  by (auto simp: opens_def config split: if_splits)

lemma new_session_defined:
  "length (sv_buffer2 s) < 50 \<Longrightarrow> length (sv_buffer s) < 100 \<Longrightarrow> new_session ke pid s \<noteq> Inl Undefined"
  using opens_defined [of "sv_buffer2 s" "ke_mq ke"] by (cases "opens (ke_mq ke) (sv_buffer2 s)") (simp_all add: new_session_def)

lemma register_defined:
  assumes "register_message m" "length (sv_buffer s) < 100"
  shows "handle_register ke m s \<noteq> Inl Undefined"
proof -
  obtain pid q where m: "in_int pid" "token q" "length q < 50" "m = write_register pid q"
    using assms(1) by (auto simp: register_message_def)
  then have "read_register m = (2, [AInt pid, AStr q])" using read_write_register [of pid q] in_int_llong by simp
  then have "handle_register ke m s = new_session ke pid (s\<lparr> sv_buffer_pid := Some pid, sv_buffer2 := q \<rparr>)"
    by (simp add: handle_register_def got_defs)
  then show ?thesis using new_session_defined m(3) assms(2) by simp
qed

lemma throttle_defined: "throttle_lock ke s \<noteq> Inl Undefined" "throttle_unlock ke s \<noteq> Inl Undefined"
  by (simp_all add: throttle_lock_def throttle_unlock_def)

lemma result_defined:
  assumes "result_message m" "server_ok s"
  shows "handle_run_terminate ke m s \<noteq> Inl Undefined"
proof -
  obtain pid r where m: "in_llong pid" "in_int r" "m = write_run_terminate pid r"
    using assms(1) by (auto simp: result_message_def)
  let ?s = "result_read [AInt pid, AInt r] s"
  have h: "handle_run_terminate ke m s = and_then (throttle_unlock ke ?s) (\<lambda>s. case map_of (sv_run s) (wrap32 pid) of
      None \<Rightarrow> Inr s | Some rs \<Rightarrow> finish_run (wrap32 pid) rs r s)"
    using m by (simp add: handle_run_terminate_cases read_write_run_terminate result_read_def got_defs)
  show ?thesis
  proof (cases "throttle_unlock ke ?s")
    case (Inl e)
    with h throttle_defined(2) [of ke ?s] show ?thesis by simp
  next
    case (Inr s1)
    then have "server_ok s1" using throttle_unlock_result [OF Inr] assms(2) by (simp add: result_read_def)
    with finish_run_ok [of s1 "wrap32 pid" _ r] h Inr show ?thesis
      by (cases "map_of (sv_run s1) (wrap32 pid)") (simp, force)
  qed
qed

lemma parse_defined:
  assumes "request_due s"
    and "map_of (sv_testers s) (wrap32 bp) = None \<Longrightarrow> length (sv_buffer2 s) < 50 \<and> length (sv_buffer s) < 100"
  shows "handle_parse ke bp loc s \<noteq> Inl Undefined"
proof (cases "if map_of (sv_testers s) (wrap32 bp) = None then new_session ke bp s else Inr s")
  case (Inl e)
  with new_session_defined [of s ke bp] assms(2) show ?thesis by (auto simp: handle_parse_split split: if_splits)
next
  case (Inr s1)
  have n: "request_due s1 \<and> wrap32 bp \<in> keys (sv_testers s1)"
  proof (cases "map_of (sv_testers s) (wrap32 bp)")
    case None
    with Inr have "new_session ke bp s = Inr s1" by simp
    from new_session_due [OF assms(1) this] show ?thesis by blast
  next
    case (Some t)
    then have "wrap32 bp \<in> keys (sv_testers s)" using map_of_SomeD by force
    with Some Inr assms(1) show ?thesis by simp
  qed
  have "start_worker ke bp loc (requested bp s1) \<noteq> Inl Undefined"
    using start_worker_requested [of s1 bp ke loc] start_worker_no_pipe [of ke bp loc] n by (cases "ke_pipe ke") auto
  with Inr show ?thesis by (simp add: handle_parse_split)
qed

lemma report_defined:
  assumes "report_message m" "server_ok s"
  shows "handle_report ke m s \<noteq> Inl Undefined"
proof (cases "m = ''exit''")
  case True
  then show ?thesis by (simp add: handle_report_def)
next
  case False
  then obtain pid q loc w where g: "good_request pid q loc w" "m = write_parse pid q loc w"
    using assms(1) by (auto simp: report_message_def)
  let ?s = "request_read (snd (read_parse m)) s"
  have h: "handle_report ke m s = handle_parse ke pid loc ?s"
    using g request_read_write [OF g(1)] False by (simp add: handle_report_cases Let_def)
  have "length (sv_buffer2 ?s) < 50 \<and> length (sv_buffer ?s) < 100"
    using g request_read_write(1) [OF g(1), of s] by (simp add: good_request_def)
  then have "handle_parse ke pid loc ?s \<noteq> Inl Undefined"
    by (intro parse_defined request_read_due assms(2)) simp
  with h show ?thesis by simp
qed

lemma report_buffer:
  assumes "report_message m" "server_ok s" "handle_report ke m s = Inr s'"
  shows "length (sv_buffer s') < 100"
proof (cases "m = ''exit''")
  case True
  then show ?thesis using assms(3) by (auto simp: handle_report_def Let_def)
next
  case False
  then obtain pid q loc w where g: "good_request pid q loc w" "m = write_parse pid q loc w"
    using assms(1) by (auto simp: report_message_def)
  let ?s = "request_read (snd (read_parse m)) s"
  have s: "?s = s\<lparr> sv_buffer_pid := Some pid, sv_buffer2 := q, sv_loc_id := Some loc, sv_buffer := w, sv_rcd := sv_rcd s + 1 \<rparr>"
    using request_read_write(1) [OF g(1), of s] g(2) by simp
  have "handle_report ke m s = handle_parse ke pid loc ?s"
    using request_read_write(2) [OF g(1)] False g(2) s by (simp add: handle_report_cases Let_def)
  with assms(3) have "handle_parse ke pid loc ?s = Inr s'" by simp
  with handle_parse_ok [OF request_read_due [OF assms(2)] this] s g(1)
  show ?thesis by (simp add: good_request_def)
qed

lemma runs_well_Dead:
  "runs_well Registering s \<Longrightarrow> e \<noteq> Undefined \<Longrightarrow> runs_well (Dead e) s"
  "runs_well ReadingResult s \<Longrightarrow> e \<noteq> Undefined \<Longrightarrow> runs_well (Dead e) s"
  "runs_well (Children b) s \<Longrightarrow> e \<noteq> Undefined \<Longrightarrow> runs_well (Dead e) s"
  "runs_well ReadingReport s \<Longrightarrow> e \<noteq> Undefined \<Longrightarrow> runs_well (Dead e) s"
  using consistent_Dead by (auto simp: runs_well_def)

lemma runs_well_ok: "runs_well p s \<Longrightarrow> server_ok s"
  by (simp add: runs_well_def consistent_def)

lemma runs_well_buffer: "runs_well p s \<Longrightarrow> length (sv_buffer s) < 100"
  by (simp add: runs_well_def)

lemma runs_well_register:
  "runs_well Registering s \<Longrightarrow> handle_register ke m s = Inr s' \<Longrightarrow> runs_well Registering s'"
  using consistent_register [of s ke m s'] handle_register_result [of ke m s s'] by (simp add: runs_well_def)

lemma runs_well_lock:
  "runs_well Registering s \<Longrightarrow> throttle_lock ke s = Inr s' \<Longrightarrow> runs_well ReadingResult s'"
  using consistent_lock [of s ke s'] throttle_lock_result [of ke s s']
  by (simp add: runs_well_def) (simp add: consistent_def)

lemma runs_well_result:
  "runs_well ReadingResult s \<Longrightarrow> handle_run_terminate ke m s = Inr s' \<Longrightarrow> runs_well (Children False) s'"
  using consistent_result [of s ke m s'] handle_run_terminate_ok [of s ke m s']
  by (simp add: runs_well_def) (simp add: consistent_def)

lemma runs_well_reap:
  assumes "runs_well (Children b) s" "reap_children ke s = Inr (status, s')"
  shows "if \<not> sv_shouldTerminate (check_force status b s') then runs_well ReadingReport (check_force status b s')
    else if sv_forceTermination (check_force status b s') then runs_well Left (broadcast_exit (check_force status b s'))
    else runs_well Registering (check_force status b s')"
proof -
  have "length (sv_buffer s') < 100" using assms(1) reap_children_result [OF assms(2)] by (simp add: runs_well_def)
  with consistent_reap [OF _ assms(2), of b] assms(1) show ?thesis by (simp add: runs_well_def del: check_force_sel(12))
qed

lemma runs_well_report:
  "runs_well ReadingReport s \<Longrightarrow> report_message m \<Longrightarrow> handle_report ke m s = Inr s' \<Longrightarrow> runs_well Registering s'"
  using consistent_report [of s ke m s'] report_buffer [of m s ke s'] runs_well_ok [of ReadingReport s]
  by (simp add: runs_well_def)

interpretation safety: server_invariant runs_well register_message result_message report_message
proof unfold_locales
  fix ke m s
  show "runs_well Registering s \<Longrightarrow> register_message m \<Longrightarrow> ends_in runs_well Registering s (handle_register ke m s)"
    using register_defined [of m s ke] runs_well_buffer by (intro ends_inI) (auto intro: runs_well_Dead(1) runs_well_register)
  show "runs_well Registering s \<Longrightarrow> ends_in runs_well ReadingResult s (throttle_lock ke s)"
    using throttle_defined(1) [of ke s] by (intro ends_inI) (auto intro: runs_well_Dead(1) runs_well_lock)
  show "runs_well ReadingResult s \<Longrightarrow> result_message m \<Longrightarrow> ends_in runs_well (Children False) s (handle_run_terminate ke m s)"
    using result_defined [of m s ke] runs_well_ok by (intro ends_inI) (auto intro: runs_well_Dead(2) runs_well_result)
  show "runs_well ReadingReport s \<Longrightarrow> report_message m \<Longrightarrow> ends_in runs_well Registering s (handle_report ke m s)"
    using report_defined [of m s ke] runs_well_ok by (intro ends_inI) (auto intro: runs_well_Dead(4) runs_well_report)
  show "runs_well ReadingResult s \<Longrightarrow> runs_well (Children True) s" "runs_well ReadingReport s \<Longrightarrow> runs_well Registering s"
    by (simp_all add: runs_well_def consistent_def)
next
  fix ke s b e
  show "runs_well (Children b) s \<Longrightarrow> reap_children ke s = Inl e \<Longrightarrow> runs_well (Dead e) s"
    using reap_children_error [of ke s e] runs_well_Dead(3) [of b s e] by simp
qed (use runs_well_reap in blast)



text \<open>
  A long word of an unregistered tester kills the server. A parse request for a tester without a
  session, well-formed but with a word of 100 characters or more, makes the server copy the word into
  the 100 bytes for the queue name of the new session; with a session the same request is harmless.
\<close>

theorem server_long_word:
  assumes "in_int pid" "token q" "mq_name_ok q" "length q < 50" "in_int loc" "plain_word w" "100 \<le> length w"
    and "ke_mq ke" "server_ok s"
  shows "handle_report ke (write_parse pid q loc w) s = Inl Undefined \<longleftrightarrow> map_of (sv_testers s) pid = None"
proof -
  let ?s = "request_read (snd (read_parse (write_parse pid q loc w))) s"
  note r = request_read_any [OF assms(1,2,5,6)]
  have h: "handle_report ke (write_parse pid q loc w) s = handle_parse ke pid loc ?s"
    using r by (simp add: handle_report_cases Let_def)
  show ?thesis
  proof (cases "map_of (sv_testers s) pid")
    case None
    then have "handle_parse ke pid loc ?s = Inl Undefined"
      using assms r(1) [of s] by (simp add: handle_parse_split new_session_def opens_def config)
    with None h show ?thesis by simp
  next
    case (Some t)
    then have "map_of (sv_testers ?s) (wrap32 pid) \<noteq> None" using assms(1) r(1) [of s] by simp
    then have "handle_parse ke pid loc ?s \<noteq> Inl Undefined"
      by (intro parse_defined request_read_due assms(9)) simp
    with h Some show ?thesis by simp
  qed
qed

theorem server_long_word_witness:
  "handle_report granting (write_parse 5 ''/q'' 1 (replicate 100 CHR ''a'')) idle_server = Inl Undefined"
proof -
  have "plain_word (replicate 100 CHR ''a'')" by (simp add: plain_word_def in_scan_set_def)
  moreover have "in_int 5" "in_int 1" "token ''/q''" "mq_name_ok ''/q''" "ke_mq granting"
    using good_request_demo by (simp_all add: good_request_def granting_def)
  ultimately show ?thesis
    using server_long_word [of 5 "''/q''" 1 "replicate 100 CHR ''a''" granting idle_server] idle_server_ok by simp
qed

end
