(* ===== verification/Run.thy ===== *)
theory Run
  imports GraphLoaderCorrect Messages MsgPipe MsgQueue
begin

text \<open>
  The worker, run.c: it takes the identifier of a pipe and a word from its command line, reads the
  description of the automaton from the pipe, decides the word and reports the result to the server.

  What the kernel answers is a record: whether the calls for the signal at the death of the parent
  succeed, whether the handler has run at each of the three points where the worker looks, whether
  mq_open is served, the process id, and what becomes of the processes the acceptance forks.
\<close>

record worker_kernel =
  wk_prctl :: bool
  wk_sigaction :: bool
  wk_parent_killed :: "nat \<Rightarrow> bool"
  wk_mq :: bool
  wk_pid :: int
  wk_fates :: fates

definition parent_check :: "worker_kernel \<Rightarrow> nat \<Rightarrow> stop + unit" where
  "parent_check ke i = (if wk_parent_killed ke i then Inl (Exited (-1)) else Inr ())"

text \<open>\<open>argv[argc]\<close> is the null pointer.\<close>

definition argv_at :: "string list \<Rightarrow> nat \<Rightarrow> string option" where
  "argv_at argv i = (if i < length argv then Some (argv ! i) else None)"

text \<open>
  Behind the start: the graph is read and loaded into memory that held \<open>memory\<close>, the word is decided.
\<close>

definition run_accept ::
  "worker_kernel \<Rightarrow> string option \<Rightarrow> TransitionGraph \<Rightarrow> string option \<Rightarrow> stop + int" where
  "run_accept ke transitionGraphDesc memory word_to_parse = (case transitionGraphDesc of
     None \<Rightarrow> Inl (Exited (-1))
   | Some desc \<Rightarrow>
       and_then (or_undefined (loadTransitionGraph (Some (Some desc)) (initTransitionGraph (newTransitionGraph memory)))) (\<lambda>(tg, _).
       and_then (or_undefined word_to_parse) (\<lambda>word.
       and_then (acceptAsync (wk_fates ke) tg word) (\<lambda>(result, _, _). Inr result))))"

text \<open>The result is the system of queues and the descriptors at the end, where the code is 0.\<close>

definition run_main ::
  "worker_kernel \<Rightarrow> string list \<Rightarrow> TransitionGraph \<Rightarrow> descriptors \<Rightarrow> mq_system \<Rightarrow>
   stop + (mq_system \<times> descriptors) option" where
  "run_main ke argv memory k s =
     (if \<not> wk_prctl ke \<or> \<not> wk_sigaction ke then Inl (Exited (-1))
      else if length argv < 2 then Inl (Exited (-1))
      else
        and_then (parent_check ke 0) (\<lambda>_.
        and_then (msgQueueOpen (wk_mq ke) (Some ''/FinAutomRunOutQueue'') MSG_SIZE MSG_QUEUE_SIZE s) (\<lambda>(runOutputQueue, s).
        and_then (msgPipeIDFromStr (argv_at argv 1)) (\<lambda>graphDataPipeID.
        and_then (msgPipeOpen graphDataPipeID) (\<lambda>graphDataPipe.
        and_then (parent_check ke 1) (\<lambda>_.
        when_done (msgPipeRead graphDataPipe k) (\<lambda>(transitionGraphDesc, graphDataPipe, k).
        and_then (run_accept ke transitionGraphDesc memory (argv_at argv 2)) (\<lambda>result.
        and_then (parent_check ke 2) (\<lambda>_.
        when_done (msgQueueWritef runOutputQueue ''run-terminate: %lld %d'' [AInt (wk_pid ke), AInt result] s) (\<lambda>(_, s).
        and_then (msgQueueClose runOutputQueue s) (\<lambda>(_, _, s).
        and_then (msgPipeClose graphDataPipe k) (\<lambda>(_, _, k). Inr (Some (s, k))))))))))))))"

section \<open>The decision\<close>

lemma run_accept_value:
  assumes "wf_description d" "wf_word w"
  shows "run_accept ke (Some (render d)) memory (Some w) = Inr (of_bool (ds_accepts d (ds_q0 d) w))"
proof -
  obtain tg where tg: "loadTransitionGraph (Some (Some (render d))) (newTransitionGraph (newTransitionGraph memory)) =
      Some (tg, Some (Some []))" "described d tg" using load_render [OF assms(1)] by blast
  have q0: "in_Q (ds_q0 d)" "tg_q0 tg = ds_q0 d"
    using assms(1) tg(2) by (simp_all add: wf_description_def described_def)
  have a: "accepts tg (ds_q0 d) w = ds_accepts d (ds_q0 d) w"
    using described_accepts [OF assms(1) tg(2) q0(1) assms(2)] .
  have "accept_value tg (tg_q0 tg) w = of_bool (ds_accepts d (ds_q0 d) w)"
  proof (cases w)
    case Nil
    with tg(2) q0 show ?thesis by (simp add: accept_value_def described_def)
  next
    case (Cons c v)
    with a q0(2) show ?thesis by (simp add: accept_value_def del: accepts.simps ds_accepts.simps)
  qed
  then have "acceptSync tg w = Some (of_bool (ds_accepts d (ds_q0 d) w))"
    using acceptSync_value [OF described_wf [OF assms(1) tg(2)] assms(2)] by simp
  moreover have "acceptAsync (wk_fates ke) tg w = or_undefined (map_option (\<lambda>v. (v, 2, 0)) (acceptSync tg w))"
    by (simp add: acceptAsync_def acceptSync_def acceptAsync_rec.simps [of _ _ _ _ _ _ 0]
        acceptSync_rec.simps [of _ _ _ _ 0] config numeral_2_eq_2)
  ultimately show ?thesis
    using tg(1) by (simp add: run_accept_def or_undefined_def newTransitionGraph_def)
qed

section \<open>The queue of results\<close>

text \<open>The worker finds the queue the server made, with room for its message.\<close>

definition result_queue :: "nat \<Rightarrow> mq_system \<Rightarrow> bool" where
  "result_queue i s \<longleftrightarrow> map_of (sys_names s) ''/FinAutomRunOutQueue'' = Some i \<and> mq_msgsize (sys_queue s i) = nat MSG_SIZE"

definition has_room :: "nat \<Rightarrow> mq_system \<Rightarrow> bool" where
  "has_room i s \<longleftrightarrow> length (mq_msgs (sys_queue s i)) < mq_maxmsg (sys_queue s i)"

lemma result_message_short: "in_int pid \<Longrightarrow> in_int r \<Longrightarrow> length (write_run_terminate pid r) \<le> 40"
  using length_show_int [of pid] length_show_int [of r] by (simp add: write_run_terminate_def sprintf_def formats)

lemma report_result:
  assumes "result_queue i s" "has_room i s" "in_int pid" "in_int r"
  shows "\<exists>q s1 s2 q' s3. msgQueueOpen True (Some ''/FinAutomRunOutQueue'') MSG_SIZE MSG_QUEUE_SIZE s = Inr (q, s1) \<and>
    msgQueueWritef q ''run-terminate: %lld %d'' [AInt pid, AInt r] s1 = Inr (Some (0, s2)) \<and>
    msgQueueClose q s2 = Inr (1, q', s3) \<and>
    sys_queue s3 = (sys_queue s)(i := (sys_queue s i)\<lparr> mq_msgs := mq_msgs (sys_queue s i) @ [write_run_terminate pid r] \<rparr>)"
proof -
  let ?m = "write_run_terminate pid r" and ?d = "sys_next_desc s"
  let ?s1 = "s\<lparr> sys_desc := (?d, i, False) # sys_desc s, sys_next_desc := ?d + 1 \<rparr>"
  let ?q = "\<lparr> q_maxmsg = mq_maxmsg (sys_queue s i), q_msgsize = 1020, q_desc = ?d, q_name = Some ''/FinAutomRunOutQueue'',
    q_buff_size = 1021, q_is_blocking = True \<rparr>"
  let ?s2 = "?s1\<lparr> sys_queue := (sys_queue s)(i := (sys_queue s i)\<lparr> mq_msgs := mq_msgs (sys_queue s i) @ [?m] \<rparr>) \<rparr>"
  have i: "map_of (sys_names s) ''/FinAutomRunOutQueue'' = Some i" "mq_msgsize (sys_queue s i) = 1020"
    using assms(1) by (simp_all add: result_queue_def config)
  have "msgQueueOpen True (Some ''/FinAutomRunOutQueue'') MSG_SIZE MSG_QUEUE_SIZE s = Inr (?q, ?s1)"
    using i by (simp add: msgQueueOpen_def msgQueueOpenEx_def sys_mq_open_def Let_def config)
  moreover have "length ?m \<le> 40" by (rule result_message_short [OF assms(3,4)])
  then have "msgQueueWrite ?q (Some ?m) ?s1 = Inr (Some (0, ?s2))"
    using i assms(2) by (simp add: msgQueueWrite_def sys_mq_send_def has_room_def Let_def)
  then have "msgQueueWritef ?q ''run-terminate: %lld %d'' [AInt pid, AInt r] ?s1 = Inr (Some (0, ?s2))"
    using \<open>length ?m \<le> 40\<close> by (simp add: msgQueueWritef_def write_run_terminate_def)
  moreover have "\<exists>q' s3. msgQueueClose ?q ?s2 = Inr (1, q', s3) \<and> sys_queue s3 = sys_queue ?s2"
    by (simp add: msgQueueClose_def msgQueueCloseEx_def sys_mq_close_def msgQueueAbandon_def)
  ultimately show ?thesis by fastforce
qed

text \<open>The pipe with the graph, as the worker has it from the server.\<close>

definition graph_pipe :: "MsgPipeID \<Rightarrow> string \<Rightarrow> descriptors \<Rightarrow> bool" where
  "graph_pipe i graph k \<longleftrightarrow> id_good i \<and> in_int (id_read i) \<and> in_int (id_write i) \<and> in_int (id_buff_size i) \<and>
     id_read i \<noteq> id_write i \<and> int (length graph) < id_buff_size i \<and> length graph \<le> k_capacity k \<and>
     (\<exists>p. map_of (k_open k) (id_read i) = Some (ReadEnd p) \<and> map_of (k_open k) (id_write i) = Some (WriteEnd p) \<and>
        k_data k p = graph)"

lemma read_graph:
  assumes "graph_pipe i graph k" "graph \<noteq> []"
  shows "\<exists>m m' k' m'' k''. msgPipeIDFromStr (Some (snd (msgPipeIDToStr i))) = Inr i \<and> msgPipeOpen i = Inr m \<and>
    msgPipeRead m k = Inr (Some (Some graph, m', k')) \<and> msgPipeClose m' k' = Inr (1, m'', k'') \<and>
    map_of (k_open k'') (id_read i) = None \<and> map_of (k_open k'') (id_write i) = None"
proof -
  obtain p where p: "map_of (k_open k) (id_read i) = Some (ReadEnd p)" "map_of (k_open k) (id_write i) = Some (WriteEnd p)"
    "k_data k p = graph" using assms(1) by (auto simp: graph_pipe_def)
  let ?m = "\<lparr> mp_read = id_read i, mp_write = id_write i, mp_good = True, mp_buff = Some [], mp_buff_size = id_buff_size i,
    mp_opened_read = True, mp_opened_write = True \<rparr>"
  let ?m' = "?m\<lparr> mp_buff := Some graph \<rparr>" let ?k' = "k\<lparr> k_data := (k_data k)(p := []) \<rparr>"
  have i: "id_good i" "in_int (id_read i)" "in_int (id_write i)" "in_int (id_buff_size i)" "id_read i \<noteq> id_write i"
    "int (length graph) < id_buff_size i" "length graph \<le> k_capacity k"
    using assms(1) by (simp_all add: graph_pipe_def)
  have o: "msgPipeOpen i = Inr ?m" using i by (simp add: msgPipeOpen_def)
  have "min (nat (id_buff_size i - 1)) (k_capacity k) \<ge> length graph" using i by linarith
  then have "msgPipeRead ?m k = Inr (Some (Some graph, ?m', ?k'))"
    using p i assms(2) by (simp add: msgPipeRead_def sys_read_def Let_def)
  note opened = this
  have "pipe_inv ?k' ?m' ?k'" using p i by (simp add: pipe_inv_def closed_ends_def)
  moreover have "mp_good ?m'" by simp
  ultimately obtain m'' k'' where c: "msgPipeClose ?m' ?k' = Inr (1, m'', k'')" "pipe_inv ?k' m'' k''"
    "same_ends ?m' m''" "\<not> mp_opened_read m''" "\<not> mp_opened_write m''" using msgPipeClose_ok by blast
  then have "closed_ends m'' = {id_read i, id_write i}" by (auto simp: closed_ends_def same_ends_def)
  with c(2) have k'': "k_open k'' = filter (\<lambda>e. fst e \<notin> {id_read i, id_write i}) (k_open k)" by (simp add: pipe_inv_def)
  have "map_of (k_open k'') (id_read i) = None" "map_of (k_open k'') (id_write i) = None"
    unfolding k'' map_of_eq_None_iff by auto
  with o opened read_written_id [OF i(1-4)] c(1) show ?thesis
    by (intro exI [of _ ?m] exI [of _ ?m'] exI [of _ ?k'] exI [of _ m''] exI [of _ k''] conjI) assumption+
qed

lemma render_nonempty: "render d \<noteq> []"
  by (simp add: render_def)

text \<open>A worker whose parent lives, on a system that serves it.\<close>

lemma run_main_answers:
  assumes "wf_description d" "wf_word w" "graph_pipe i (render d) k" "result_queue n s" "has_room n s"
    and "wk_prctl ke" "wk_sigaction ke" "\<not> wk_parent_killed ke 0" "\<not> wk_parent_killed ke 1" "\<not> wk_parent_killed ke 2" "wk_mq ke" "in_int (wk_pid ke)"
  shows "\<exists>s' k'. run_main ke ([''run'', snd (msgPipeIDToStr i), w] @ flags) memory k s = Inr (Some (s', k')) \<and>
    sys_queue s' = (sys_queue s)(n := (sys_queue s n)\<lparr> mq_msgs := mq_msgs (sys_queue s n) @
      [write_run_terminate (wk_pid ke) (of_bool (ds_accepts d (ds_q0 d) w))] \<rparr>) \<and>
    map_of (k_open k') (id_read i) = None \<and> map_of (k_open k') (id_write i) = None"
proof -
  let ?r = "of_bool (ds_accepts d (ds_q0 d) w) :: int"
  have "in_int ?r" by (simp add: in_int_def)
  from report_result [OF assms(4,5,12) this] obtain q s1 s2 q' s3 where
    q: "msgQueueOpen True (Some ''/FinAutomRunOutQueue'') MSG_SIZE MSG_QUEUE_SIZE s = Inr (q, s1)"
    "msgQueueWritef q ''run-terminate: %lld %d'' [AInt (wk_pid ke), AInt ?r] s1 = Inr (Some (0, s2))"
    "msgQueueClose q s2 = Inr (1, q', s3)" and s3: "sys_queue s3 = (sys_queue s)(n := (sys_queue s n)\<lparr> mq_msgs :=
      mq_msgs (sys_queue s n) @ [write_run_terminate (wk_pid ke) ?r] \<rparr>)" by blast
  from read_graph [OF assms(3) render_nonempty] obtain m m' k' m'' k'' where
    p: "msgPipeIDFromStr (Some (snd (msgPipeIDToStr i))) = Inr i" "msgPipeOpen i = Inr m"
    "msgPipeRead m k = Inr (Some (Some (render d), m', k'))" "msgPipeClose m' k' = Inr (1, m'', k'')" and
    k'': "map_of (k_open k'') (id_read i) = None" "map_of (k_open k'') (id_write i) = None" by blast
  have "run_main ke ([''run'', snd (msgPipeIDToStr i), w] @ flags) memory k s = Inr (Some (s3, k''))"
    using assms(6-11) q p run_accept_value [OF assms(1,2), of ke memory]
    by (simp add: run_main_def parent_check_def argv_at_def)
  with s3 k'' show ?thesis by blast
qed

text \<open>Whatever the kernel answers: a worker that ends with success found room, sent the right message, and nothing else.\<close>

lemma msgQueueOpen_refused: "\<exists>e. msgQueueOpen False name a b s = Inl e"
  by (simp add: msgQueueOpen_def msgQueueOpenEx_def sys_mq_open_def split: option.split)

lemma full_queue_waits:
  assumes "result_queue i s" "\<not> has_room i s" "in_int pid" "in_int r"
    and "msgQueueOpen True (Some ''/FinAutomRunOutQueue'') MSG_SIZE MSG_QUEUE_SIZE s = Inr (q, s1)"
  shows "msgQueueWritef q ''run-terminate: %lld %d'' [AInt pid, AInt r] s1 = Inr None"
proof -
  let ?m = "write_run_terminate pid r"
  have i: "map_of (sys_names s) ''/FinAutomRunOutQueue'' = Some i" "mq_msgsize (sys_queue s i) = 1020"
    "mq_maxmsg (sys_queue s i) \<le> length (mq_msgs (sys_queue s i))"
    using assms(1,2) by (simp_all add: result_queue_def has_room_def config)
  have "length ?m \<le> 40" by (rule result_message_short [OF assms(3,4)])
  then have "length ?m + 1 \<le> 1020" by linarith
  moreover have "map_of (sys_desc s1) (q_desc q) = Some (i, False)" "sys_queue s1 = sys_queue s" "q_name q \<noteq> None"
    "q_buff_size q = 1021"
    using assms(5) i by (auto simp: msgQueueOpen_def msgQueueOpenEx_def sys_mq_open_def Let_def config)
  ultimately show ?thesis
    using i by (simp add: msgQueueWritef_def msgQueueWrite_def sys_mq_send_def Let_def write_run_terminate_def)
qed

lemma run_main_success:
  assumes "wf_description d" "wf_word w" "graph_pipe i (render d) k" "result_queue n s" "in_int (wk_pid ke)"
    and run: "run_main ke ([''run'', snd (msgPipeIDToStr i), w] @ flags) memory k s = Inr (Some (s', k'))"
  shows "has_room n s \<and> sys_queue s' = (sys_queue s)(n := (sys_queue s n)\<lparr> mq_msgs := mq_msgs (sys_queue s n) @
      [write_run_terminate (wk_pid ke) (of_bool (ds_accepts d (ds_q0 d) w))] \<rparr>)"
proof -
  let ?r = "of_bool (ds_accepts d (ds_q0 d) w) :: int"
  have r: "in_int ?r" by (simp add: in_int_def)
  obtain m m' k1 where p: "msgPipeIDFromStr (Some (snd (msgPipeIDToStr i))) = Inr i" "msgPipeOpen i = Inr m"
    "msgPipeRead m k = Inr (Some (Some (render d), m', k1))" using read_graph [OF assms(3) render_nonempty] by blast
  have start: "wk_prctl ke" "wk_sigaction ke" "\<not> wk_parent_killed ke 0"
    using run by (auto simp: run_main_def parent_check_def split: if_splits)
  have mq: "wk_mq ke"
  proof (rule ccontr)
    assume "\<not> wk_mq ke"
    moreover obtain e where "msgQueueOpen False (Some ''/FinAutomRunOutQueue'') MSG_SIZE MSG_QUEUE_SIZE s = Inl e"
      using msgQueueOpen_refused by blast
    ultimately show False using run start by (simp add: run_main_def parent_check_def)
  qed
  obtain q s1 where q: "msgQueueOpen True (Some ''/FinAutomRunOutQueue'') MSG_SIZE MSG_QUEUE_SIZE s = Inr (q, s1)"
    using assms(4) by (simp add: msgQueueOpen_def msgQueueOpenEx_def sys_mq_open_def result_queue_def Let_def config)
  have rest: "\<not> wk_parent_killed ke 1"
    using run start mq q p by (auto simp: run_main_def parent_check_def argv_at_def)
  have acc: "run_accept ke (Some (render d)) memory (Some w) = Inr ?r" using run_accept_value [OF assms(1,2)] .
  have last: "\<not> wk_parent_killed ke 2"
    using run start mq q p rest acc by (auto simp: run_main_def parent_check_def argv_at_def)
  have room: "has_room n s"
  proof (rule ccontr)
    assume "\<not> has_room n s"
    from full_queue_waits [OF assms(4) this assms(5) r q] show False
      using run start mq q p rest last acc by (simp add: run_main_def parent_check_def argv_at_def)
  qed
  from run_main_answers [OF assms(1-4) room start rest last mq assms(5), of flags memory] run room show ?thesis
    by (elim exE conjE) simp
qed

section \<open>Properties\<close>

text \<open>
  C11: a worker answers, and answers right. Started with the text of a pipe identifier and a word, as the
  server starts it, over a pipe that holds a description of an automaton, and with room in the queue, the
  worker neither fails nor waits: it puts exactly one message into the queue of results, its process id
  and 1 if the automaton accepts the word in the sense of the README, 0 if not, and leaves the pipe closed.
\<close>

theorem run_answers:
  assumes "wf_description d" "wf_word w" "graph_pipe i (render d) k" "result_queue n s" "has_room n s"
    and "wk_prctl ke" "wk_sigaction ke" "\<And>j. \<not> wk_parent_killed ke j" "wk_mq ke" "in_int (wk_pid ke)"
  shows "\<exists>s' k'. run_main ke ([''run'', snd (msgPipeIDToStr i), w] @ flags) memory k s = Inr (Some (s', k')) \<and>
    sys_queue s' = (sys_queue s)(n := (sys_queue s n)\<lparr> mq_msgs := mq_msgs (sys_queue s n) @
      [write_run_terminate (wk_pid ke) (of_bool (ds_accepts d (ds_q0 d) w))] \<rparr>) \<and>
    map_of (k_open k') (id_read i) = None \<and> map_of (k_open k') (id_write i) = None"
  using run_main_answers [OF assms(1-7) assms(8,8,8) assms(9,10)] .

text \<open>A worker of the server, with the automaton of the loader's example in its pipe.\<close>

definition demo_id :: MsgPipeID where
  "demo_id = \<lparr> id_read = 3, id_write = 4, id_good = True, id_buff_size = 3000014 \<rparr>"

definition demo_descriptors :: descriptors where
  "demo_descriptors = \<lparr> k_open = [(3, ReadEnd 0), (4, WriteEnd 0)], k_data = (\<lambda>_. render demo_description),
     k_capacity = 65536, k_next_pipe = 1, k_next_fd = 5 \<rparr>"

definition demo_queues :: mq_system where
  "demo_queues = \<lparr> sys_names = [(''/FinAutomRunOutQueue'', 0)],
     sys_queue = (\<lambda>_. \<lparr> mq_maxmsg = 10, mq_msgsize = 1020, mq_msgs = [] \<rparr>), sys_desc = [], sys_next_queue = 1, sys_next_desc = 3 \<rparr>"

definition demo_worker :: worker_kernel where
  "demo_worker = \<lparr> wk_prctl = True, wk_sigaction = True, wk_parent_killed = (\<lambda>_. False), wk_mq = True, wk_pid = 77,
     wk_fates = (\<lambda>_. Finishes) \<rparr>"

lemma demo_worker_ok:
  "graph_pipe demo_id (render demo_description) demo_descriptors" "result_queue 0 demo_queues" "has_room 0 demo_queues"
  "wk_prctl demo_worker" "wk_sigaction demo_worker" "\<not> wk_parent_killed demo_worker j" "wk_mq demo_worker"
  "in_int (wk_pid demo_worker)"
proof -
  have "length (render demo_description) < 100" by code_simp
  then show "graph_pipe demo_id (render demo_description) demo_descriptors"
    by (simp add: graph_pipe_def demo_id_def demo_descriptors_def in_int_def)
qed (simp_all add: result_queue_def has_room_def demo_queues_def demo_worker_def config in_int_def)

theorem run_answers_witness:
  "\<exists>s' k'. run_main demo_worker [''run'', snd (msgPipeIDToStr demo_id), ''a''] demo_graph demo_descriptors demo_queues =
     Inr (Some (s', k')) \<and> mq_msgs (sys_queue s' 0) = [write_run_terminate 77 1]"
proof -
  have "ds_accepts demo_description (ds_q0 demo_description) ''a''"
    by (simp add: demo_description_def successors_def letter_def)
  moreover have "wk_pid demo_worker = 77" "mq_msgs (sys_queue demo_queues 0) = []"
    by (simp_all add: demo_worker_def demo_queues_def)
  ultimately show ?thesis
    using run_answers [OF demo_description_wf demo_word(1) demo_worker_ok, of "[]" demo_graph]
    by (auto simp del: ds_accepts.simps)
qed

text \<open>
  A missing word is not noticed. The worker checks for fewer than two arguments although the word is
  the third: with the identifier alone it goes all the way to the decision and then reads the null pointer
  behind its arguments.
\<close>

theorem run_missing_word:
  assumes "wf_description d" "graph_pipe i (render d) k" "result_queue n s"
    and "wk_prctl ke" "wk_sigaction ke" "\<And>j. \<not> wk_parent_killed ke j" "wk_mq ke"
  shows "run_main ke [''run'', snd (msgPipeIDToStr i)] memory k s = Inl Undefined \<and>
    run_main ke [''run''] memory k s = Inl (Exited (-1))"
proof -
  obtain q s1 where "msgQueueOpen True (Some ''/FinAutomRunOutQueue'') MSG_SIZE MSG_QUEUE_SIZE s = Inr (q, s1)"
    using assms(3) by (simp add: msgQueueOpen_def msgQueueOpenEx_def sys_mq_open_def result_queue_def Let_def config)
  moreover obtain m m' k' where "msgPipeIDFromStr (Some (snd (msgPipeIDToStr i))) = Inr i" "msgPipeOpen i = Inr m"
    "msgPipeRead m k = Inr (Some (Some (render d), m', k'))" using read_graph [OF assms(2) render_nonempty] by blast
  moreover have "run_accept ke (Some (render d)) memory None = Inl Undefined"
    using load_render [OF assms(1), of "newTransitionGraph memory"]
    by (auto simp: run_accept_def or_undefined_def newTransitionGraph_def)
  ultimately show ?thesis
    using assms(4-7) by (simp add: run_main_def parent_check_def argv_at_def)
qed

theorem run_missing_word_witness:
  "run_main demo_worker [''run'', snd (msgPipeIDToStr demo_id)] demo_graph demo_descriptors demo_queues = Inl Undefined"
  using run_missing_word [OF demo_description_wf demo_worker_ok(1,2,4-7), of demo_graph] by blast

end
