(* ===== verification/Tester.thy ===== *)
theory Tester
  imports ArrayListCorrect Messages Getline MsgQueue
begin

text \<open>
  The client, tester.c: it reads words from its standard input, numbers them, sends them to the server
  and prints the answers as they arrive. The words are kept in an array list under their numbers.

  What the tester sends is a log of messages; a write into a full queue waits for room and then goes on,
  so it leaves no trace of its own. The queue of answers is non-blocking: a call of msgQueueRead delivers
  the first message that has arrived, or NULL. The counters are bounded by the number of the last word,
  whose increment is checked.
\<close>

section \<open>The state\<close>

record tester =
  tt_line :: line_buffer
  tt_stdin :: FILE
  tt_results :: "string ArrayList"
  tt_req :: int
  tt_ans :: int
  tt_acc :: int
  tt_loc :: int
  tt_read_input :: bool
  tt_sent :: "string list"
  tt_out :: string

definition TESTER_LINE_SIZE :: nat where
  "TESTER_LINE_SIZE = 1020"

text \<open>The line buffer comes zeroed from MALLOCATE_ARRAY.\<close>

definition tester_start :: "int \<Rightarrow> FILE \<Rightarrow> tester" where
  "tester_start pid stdin =
     \<lparr> tt_line = \<lparr> lb_text = [], lb_size = TESTER_LINE_SIZE \<rparr>, tt_stdin = stdin, tt_results = ArrayListNew, tt_req = 0,
        tt_ans = 0, tt_acc = 0, tt_loc = 0, tt_read_input = True, tt_sent = [],
        tt_out = sprintf ''PID: %d'' [AInt pid] @ [NEWLINE] \<rparr>"

text \<open>Registration, and the two queues the loop works with.\<close>

definition tester_setup ::
  "bool \<Rightarrow> int \<Rightarrow> mq_system \<Rightarrow> stop + (MsgQueue \<times> MsgQueue \<times> mq_system) option" where
  "tester_setup available pid s =
     and_then (msgQueueOpen available (Some ''/FinAutomRegisterQueue'') MSG_SIZE MSG_QUEUE_SIZE s) (\<lambda>(registerQueue, s).
     when_done (msgQueueWritef registerQueue ''register_tester: %lld %s'' [AInt pid, AStr (inputQueueName pid)] s) (\<lambda>(_, s).
     and_then (msgQueueClose registerQueue s) (\<lambda>(_, _, s).
     and_then (msgQueueOpen available (Some ''/FinAutomReportQueue'') MSG_SIZE MSG_QUEUE_SIZE s) (\<lambda>(reportQueue, s).
     and_then (msgQueueOpenNonBlocking available (Some (inputQueueName pid)) MSG_SIZE MSG_QUEUE_SIZE s) (\<lambda>(inputQueue, s).
       Inr (Some (reportQueue, inputQueue, s)))))))"

section \<open>One round\<close>

definition tester_send_word :: "int \<Rightarrow> tester \<Rightarrow> stop + tester" where
  "tester_send_word pid t = (case al_put (tt_results t) (tt_loc t) (Some (lb_text (tt_line t))) of
     None \<Rightarrow> Inl Undefined
   | Some (_, l) \<Rightarrow> Inr (t\<lparr> tt_results := l,
       tt_sent := tt_sent t @ [write_parse pid (inputQueueName pid) (tt_loc t) (lb_text (tt_line t))],
       tt_req := tt_req t + 1 \<rparr>))"

definition tester_read :: "int \<Rightarrow> tester \<Rightarrow> stop + tester" where
  "tester_read pid t =
     (if \<not> tt_read_input t then Inr t
      else case cint (tt_loc t + 1) of
        None \<Rightarrow> Inl Undefined
      | Some loc \<Rightarrow>
          (case getline (Some (tt_line t)) (tt_stdin t) of
             Some (getline_size, Some lb, f) \<Rightarrow>
               (let t = t\<lparr> tt_loc := loc, tt_line := lb, tt_stdin := f \<rparr> in
                if getline_size \<ge> 0 then
                  (if lb_text lb = ''!'' then Inr (t\<lparr> tt_sent := tt_sent t @ [''exit''], tt_read_input := False \<rparr>)
                   else tester_send_word pid t)
                else if getline_size = -1 then Inr (t\<lparr> tt_read_input := False \<rparr>)
                else Inr t)
           | _ \<Rightarrow> Inl Undefined))"

definition answer_line :: "string \<Rightarrow> int \<Rightarrow> string" where
  "answer_line word ans = sprintf ''%s %s'' [AStr word, AStr (if ans \<noteq> 0 then ''A'' else ''N'')] @ [NEWLINE]"

text \<open>An answer: the second result says whether the loop is left. sscanf returning EOF counts as a match.\<close>

definition tester_answer :: "string \<Rightarrow> tester \<Rightarrow> stop + (tester \<times> bool)" where
  "tester_answer msg t =
     (let (k, as) = read_answer msg; loc_id = the (got_int as 0 (Some 0)); ans = the (got_int as 1 (Some 0)) in
      if k \<noteq> 0 then
        (case al_get (tt_results t) loc_id of
           None \<Rightarrow> Inl Undefined
         | Some (None, l) \<Rightarrow> Inr (t\<lparr> tt_results := l \<rparr>, False)
         | Some (Some saved_word, l) \<Rightarrow>
             (case al_put l loc_id None of
                None \<Rightarrow> Inl Undefined
              | Some (_, l) \<Rightarrow> Inr (t\<lparr> tt_results := l, tt_out := tt_out t @ answer_line saved_word ans,
                  tt_acc := tt_acc t + (if ans \<noteq> 0 then 1 else 0), tt_ans := tt_ans t + 1 \<rparr>, False)))
      else Inr (t, msg = ''exit''))"

definition tester_receive :: "string list \<Rightarrow> tester \<Rightarrow> stop + (tester \<times> string list \<times> bool)" where
  "tester_receive q t =
     (if tt_ans t < tt_req t then
        (case q of
           [] \<Rightarrow> Inr (t, [], False)
         | msg # q \<Rightarrow> and_then (tester_answer msg t) (\<lambda>(t, exits). Inr (t, q, exits)))
      else Inr (t, q, False))"

text \<open>A round; the last result says whether the loop is left.\<close>

definition tester_round :: "int \<Rightarrow> string list \<Rightarrow> tester \<Rightarrow> stop + (tester \<times> string list \<times> bool)" where
  "tester_round pid q t =
     and_then (tester_read pid t) (\<lambda>t.
     and_then (tester_receive q t) (\<lambda>(t, q, exits).
       Inr (t, q, exits \<or> (\<not> tt_read_input t \<and> \<not> tt_ans t < tt_req t))))"

text \<open>
  Rounds of the loop: in front of each round some messages arrive in the queue of the tester.
\<close>

fun tester_run :: "int \<Rightarrow> string list list \<Rightarrow> string list \<Rightarrow> tester \<Rightarrow> stop + (tester \<times> string list \<times> bool)" where
  "tester_run pid [] q t = Inr (t, q, False)"
| "tester_run pid (arrived # later) q t =
     and_then (tester_round pid (q @ arrived) t) (\<lambda>(t, q, left).
       if left then Inr (t, q, True) else tester_run pid later q t)"

text \<open>Behind the loop: the report, and the words that are freed because no answer came.\<close>

definition tester_report_text :: "tester \<Rightarrow> string" where
  "tester_report_text t =
     sprintf ''Snt: %d'' [AInt (tt_req t)] @ [NEWLINE] @ sprintf ''Rcd: %d'' [AInt (tt_ans t)] @ [NEWLINE] @
     sprintf ''Acc: %d'' [AInt (tt_acc t)] @ [NEWLINE]"

definition tester_finish :: "tester \<Rightarrow> (string \<times> string list \<times> string ArrayList option) option" where
  "tester_finish t = do {
     (l, values) \<leftarrow> al_map_loop (tt_results t) (ArrayListBegin (Some (tt_results t))) id True;
     Some (tester_report_text t, List.map_filter id values, ArrayListDestroy (Some l)) }"

definition tester_close :: "MsgQueue \<Rightarrow> MsgQueue \<Rightarrow> mq_system \<Rightarrow> stop + mq_system" where
  "tester_close reportQueue inputQueue s =
     and_then (msgQueueClose reportQueue s) (\<lambda>(_, _, s).
     and_then (msgQueueRemove inputQueue s) (\<lambda>(_, _, s). Inr s))"

section \<open>The name of the queue\<close>

lemma own_queue_name: "in_int pid \<Longrightarrow> mq_name_ok (inputQueueName pid) \<and> length (inputQueueName pid) < 40"
proof -
  assume i: "in_int pid"
  have "CHR ''/'' \<notin> set (show_nat n)" for n using show_nat_digits [of n] by auto
  then have "CHR ''/'' \<notin> set (show_int pid)" by (simp add: show_int_def)
  with length_show_int [OF i] show ?thesis by (simp add: inputQueueName_def sprintf_def formats)
qed

lemma write_register_length: "in_int pid \<Longrightarrow> length (write_register pid (inputQueueName pid)) < 1020"
  using own_queue_name [of pid] length_show_int [of pid] by (simp add: write_register_def sprintf_def formats)

section \<open>Reading a word never fails\<close>

lemma fgets_chars_bound: "fgets_chars k s = (l, r, e) \<Longrightarrow> length l \<le> k"
  by (induction k s arbitrary: l r e rule: fgets_chars.induct) (auto split: prod.splits if_splits)

lemma upto_newline_length: "length (upto_newline s) \<le> length s"
  by (simp add: upto_newline_def length_takeWhile_le)

lemma getline_total:
  assumes "256 \<le> lb_size lb"
  shows "\<exists>len lb' f'. getline (Some lb) f = Some (len, Some lb', f') \<and> 256 \<le> lb_size lb' \<and> (len = -1 \<or> 0 \<le> len) \<and>
    length (f_rest f') \<le> length (f_rest f) \<and> (len \<ge> 0 \<longrightarrow> length (f_rest f') < length (f_rest f) \<and> length (lb_text lb') \<le> 255)"
proof (cases "f_error f \<or> f_eof f")
  case True
  with assms show ?thesis by (auto simp: getline_def)
next
  case False
  obtain l r e where c: "fgets_chars 255 (f_rest f) = (l, r, e)" by (rule prod_cases3)
  note len = fgets_chars_length [OF c]
  have b: "length (upto_newline l) \<le> 255" using fgets_chars_bound [OF c] upto_newline_length [of l] by linarith
  show ?thesis
  proof (cases "l = []")
    case True
    with False c assms len show ?thesis by (simp add: getline_def fgets_def LINE_ARRAY_def Let_def)
  next
    case ne: False
    then have "length r < length (f_rest f)" using len by (cases l) auto
    with False c assms b ne show ?thesis
      by (auto simp: getline_def fgets_def LINE_ARRAY_def store_line_def Let_def)
  qed
qed

end
