(* ===== verification/TesterCorrect.thy ===== *)
theory TesterCorrect
  imports Tester
begin

text \<open>
  The client keeps its books: the invariant \<open>tester_inv\<close> relates its state to the list of requests it
  has sent and the list of answers it has printed, and every round keeps it, whatever well-formed
  messages arrive. From it follow that each answer is printed with the word it belongs to and at most
  once, that the loop ends only with everything answered, and that it ends once the answers are there.
\<close>

section \<open>Requests and answers\<close>

type_synonym request = "int \<times> string"
type_synonym printed = "int \<times> string \<times> int"

definition answered_word :: "printed \<Rightarrow> request" where
  "answered_word a = (case a of (l, w, r) \<Rightarrow> (l, w))"

text \<open>The words without an answer, by number.\<close>

definition open_words :: "request list \<Rightarrow> printed list \<Rightarrow> int \<Rightarrow> string option" where
  "open_words reqs ans l = (if l \<in> fst ` set ans then None else map_of reqs l)"

definition requests_text :: "int \<Rightarrow> request list \<Rightarrow> string list" where
  "requests_text pid reqs = map (\<lambda>(l, w). write_parse pid (inputQueueName pid) l w) reqs"

definition answers_text :: "printed list \<Rightarrow> string" where
  "answers_text ans = concat (map (\<lambda>(l, w, r). answer_line w r) ans)"

definition words_to_send :: "string list \<Rightarrow> string list" where
  "words_to_send ws = takeWhile (\<lambda>w. w \<noteq> ''!'') ws"

text \<open>The bookkeeping proper: numbers are used once, answers are to requests, the counters count.\<close>

definition books_ok :: "request list \<Rightarrow> printed list \<Rightarrow> int \<Rightarrow> bool" where
  "books_ok reqs ans loc \<longleftrightarrow> distinct (map fst reqs) \<and> distinct (map fst ans) \<and>
     (\<forall>(l, w) \<in> set reqs. 1 \<le> l \<and> l \<le> loc) \<and> answered_word ` set ans \<subseteq> set reqs"

definition input_ok :: "string list \<Rightarrow> request list \<Rightarrow> tester \<Rightarrow> bool" where
  "input_ok ws reqs t \<longleftrightarrow>
     (if tt_read_input t then
        \<exists>rest. read_all (tt_line t) (tt_stdin t) = Some rest \<and> words_to_send ws = map snd reqs @ words_to_send rest
      else words_to_send ws = map snd reqs)"

definition tester_inv :: "int \<Rightarrow> int \<Rightarrow> string list \<Rightarrow> tester \<Rightarrow> request list \<Rightarrow> printed list \<Rightarrow> bool" where
  "tester_inv B pid ws t reqs ans \<longleftrightarrow>
     al_inv B (tt_results t) \<and> al_slot (tt_results t) = open_words reqs ans \<and> books_ok reqs ans (tt_loc t) \<and>
     256 \<le> lb_size (tt_line t) \<and> 0 \<le> tt_loc t \<and> tt_loc t + 47 \<le> B \<and>
     (tt_read_input t \<longrightarrow> tt_loc t + int (length (f_rest (tt_stdin t))) + 48 \<le> B) \<and>
     tt_req t = int (length reqs) \<and> tt_ans t = int (length ans) \<and>
     tt_acc t = int (length (filter (\<lambda>(l, w, r). r \<noteq> 0) ans)) \<and>
     (\<exists>e. tt_sent t = requests_text pid reqs @ e \<and> (e = [] \<or> e = [''exit'']) \<and> (tt_read_input t \<longrightarrow> e = [])) \<and>
     tt_out t = sprintf ''PID: %d'' [AInt pid] @ [NEWLINE] @ answers_text ans \<and> input_ok ws reqs t"

lemma al_inv_bound: "al_inv B l \<Longrightarrow> B < 2 ^ 25"
  by (simp add: al_inv_def al_ok_def)

section \<open>Sending\<close>

lemma answered_numbers: "books_ok reqs ans loc \<Longrightarrow> fst ` set ans \<subseteq> fst ` set reqs"
proof -
  assume b: "books_ok reqs ans loc"
  have "fst ` set ans = fst ` answered_word ` set ans" by (simp add: image_image answered_word_def split_beta)
  also have "\<dots> \<subseteq> fst ` set reqs" using b unfolding books_ok_def by (intro image_mono) blast
  finally show ?thesis .
qed

lemma books_ok_request:
  assumes "books_ok reqs ans loc" "0 \<le> loc"
  shows "books_ok (reqs @ [(loc + 1, w)]) ans (loc + 1) \<and>
    open_words (reqs @ [(loc + 1, w)]) ans = (open_words reqs ans)(loc + 1 := Some w)"
proof -
  have new: "loc + 1 \<notin> fst ` set reqs" using assms(1) by (force simp: books_ok_def)
  have "fst ` set ans \<subseteq> fst ` set reqs" using assms(1) by (rule answered_numbers)
  then have "loc + 1 \<notin> fst ` set ans" using new by blast
  moreover have "map_of (reqs @ [(loc + 1, w)]) l = (if l = loc + 1 then Some w else map_of reqs l)" for l
  proof -
    have "map_of reqs (loc + 1) = None" using new by (simp add: map_of_eq_None_iff)
    then show ?thesis by (auto simp: map_add_def split: option.split)
  qed
  ultimately have "open_words (reqs @ [(loc + 1, w)]) ans = (open_words reqs ans)(loc + 1 := Some w)"
    by (auto simp: open_words_def fun_eq_iff)
  moreover have "books_ok (reqs @ [(loc + 1, w)]) ans (loc + 1)"
    using assms new by (fastforce simp: books_ok_def)
  ultimately show ?thesis by blast
qed

text \<open>The words of the input, one call of getline at a time.\<close>

lemma read_all_word:
  assumes "getline (Some lb) f = Some (len, Some lb', f')" "read_all lb f = Some rest" "0 \<le> len"
  shows "\<exists>rest'. rest = lb_text lb' # rest' \<and> read_all lb' f' = Some rest'"
  using assms by (auto simp: read_all.simps [of lb] split: bind_splits)

lemma read_all_end:
  assumes "getline (Some lb) f = Some (-1, Some lb', f')" "read_all lb f = Some rest"
  shows "rest = []"
  using assms by (simp add: read_all.simps [of lb])

lemma tester_read_inv:
  assumes inv: "tester_inv B pid ws t reqs ans"
  shows "\<exists>t' new e. tester_read pid t = Inr t' \<and> tester_inv B pid ws t' (reqs @ new) ans \<and> tt_ans t' = tt_ans t \<and>
    tt_sent t' = tt_sent t @ requests_text pid new @ e \<and> (e = [] \<or> e = [''exit'']) \<and>
    ((\<exists>lw. new = [lw] \<and> e = [] \<and> tt_read_input t') \<or> new = [] \<and> \<not> tt_read_input t')"
proof (cases "tt_read_input t")
  case False
  with inv show ?thesis by (intro exI [of _ t] exI [of _ "[]"]) (simp add: tester_read_def requests_text_def)
next
  case True
  note i = inv [unfolded tester_inv_def]
  have al: "al_inv B (tt_results t)" "al_slot (tt_results t) = open_words reqs ans" and b: "books_ok reqs ans (tt_loc t)"
    and lb: "256 \<le> lb_size (tt_line t)" and loc: "0 \<le> tt_loc t" "tt_loc t + int (length (f_rest (tt_stdin t))) + 48 \<le> B"
    and counts: "tt_req t = int (length reqs)" "tt_ans t = int (length ans)"
      "tt_acc t = int (length (filter (\<lambda>(l, w, r). r \<noteq> 0) ans))"
    and sent: "tt_sent t = requests_text pid reqs"
    and out: "tt_out t = sprintf ''PID: %d'' [AInt pid] @ [NEWLINE] @ answers_text ans" and inp: "input_ok ws reqs t"
    using i True by auto
  obtain rest where rest: "read_all (tt_line t) (tt_stdin t) = Some rest"
    "words_to_send ws = map snd reqs @ words_to_send rest" using inp True by (auto simp: input_ok_def)
  have c: "cint (tt_loc t + 1) = Some (tt_loc t + 1)"
    using loc al_inv_bound [OF al(1)] by (simp add: cint_def)
  obtain len lb' f' where g: "getline (Some (tt_line t)) (tt_stdin t) = Some (len, Some lb', f')" "256 \<le> lb_size lb'"
    "len = -1 \<or> 0 \<le> len" "length (f_rest f') \<le> length (f_rest (tt_stdin t))"
    "len \<ge> 0 \<longrightarrow> length (f_rest f') < length (f_rest (tt_stdin t))" using getline_total [OF lb] by metis
  let ?t = "t\<lparr> tt_loc := tt_loc t + 1, tt_line := lb', tt_stdin := f' \<rparr>"
  have b': "books_ok reqs ans (tt_loc t + 1)" using b by (fastforce simp: books_ok_def)
  show ?thesis
  proof (cases "len = -1")
    case end_of_input: True
    with g(1) rest(1) have "rest = []" by (auto dest: read_all_end)
    then have "tester_inv B pid ws (?t\<lparr> tt_read_input := False \<rparr>) reqs ans"
      using al b' g(2) loc counts sent out rest(2) by (simp add: tester_inv_def input_ok_def words_to_send_def)
    moreover have "tester_read pid t = Inr (?t\<lparr> tt_read_input := False \<rparr>)"
      using True c g(1) end_of_input by (simp add: tester_read_def)
    ultimately show ?thesis
      by (intro exI [of _ "?t\<lparr> tt_read_input := False \<rparr>"] exI [of _ "[]"]) (simp add: requests_text_def)
  next
    case False
    then have len: "0 \<le> len" using g(3) by simp
    obtain rest' where rest': "rest = lb_text lb' # rest'" "read_all lb' f' = Some rest'"
      using read_all_word [OF g(1) rest(1) len] by blast
    show ?thesis
    proof (cases "lb_text lb' = ''!''")
      case bang: True
      let ?t' = "?t\<lparr> tt_sent := tt_sent t @ [''exit''], tt_read_input := False \<rparr>"
      have "tester_inv B pid ws ?t' reqs ans"
        using al b' g(2) loc counts sent out rest(2) rest'(1) bang
        by (simp add: tester_inv_def input_ok_def words_to_send_def)
      moreover have "tester_read pid t = Inr ?t'"
        using True c g(1) len bang by (simp add: tester_read_def)
      ultimately show ?thesis by (intro exI [of _ ?t'] exI [of _ "[]"] exI [of _ "[''exit'']"]) (simp add: requests_text_def)
    next
      case word: False
      let ?w = "lb_text lb'" let ?loc = "tt_loc t + 1"
      have "0 \<le> ?loc" "?loc + 47 \<le> B" using loc by linarith+
      from als.put_law [OF al(1) this] obtain l' where l': "al_put (tt_results t) ?loc (Some ?w) =
          Some (al_slot (tt_results t) ?loc, l')" "al_inv B l'" "al_slot l' = (al_slot (tt_results t))(?loc := Some ?w)" by blast
      let ?t' = "?t\<lparr> tt_results := l', tt_req := tt_req t + 1,
        tt_sent := tt_sent t @ [write_parse pid (inputQueueName pid) ?loc ?w] \<rparr>"
      have "tester_read pid t = Inr ?t'"
        using True c g(1) len word l'(1) by (simp add: tester_read_def tester_send_word_def)
      moreover have "input_ok ws (reqs @ [(?loc, ?w)]) ?t'"
        using True rest(2) rest' word by (simp add: input_ok_def words_to_send_def)
      then have "tester_inv B pid ws ?t' (reqs @ [(?loc, ?w)]) ans"
        using l' al books_ok_request [OF b loc(1), of ?w] g loc counts sent out len True
        by (simp add: tester_inv_def requests_text_def)
      ultimately show ?thesis using True
        by (intro exI [of _ ?t'] exI [of _ "[(?loc, ?w)]"] exI [of _ "[]"]) (simp add: requests_text_def)
    qed
  qed
qed

section \<open>Receiving\<close>

text \<open>The messages the server sends, with numbers within the reach of the list.\<close>

definition answer_for :: "int \<Rightarrow> int \<Rightarrow> int \<Rightarrow> string \<Rightarrow> bool" where
  "answer_for B l r m \<longleftrightarrow> - (2 ^ 30) \<le> l \<and> l + 47 \<le> B \<and> in_int r \<and> m = write_answer l r"

definition server_message :: "int \<Rightarrow> string \<Rightarrow> bool" where
  "server_message B m \<longleftrightarrow> m = ''exit'' \<or> (\<exists>l r. answer_for B l r m)"

lemma read_answer_for:
  assumes "answer_for B l r m" "B < 2 ^ 25"
  shows "read_answer m = (2, [AInt l, AInt r])"
  using assms by (simp add: answer_for_def read_write_answer in_int_def)

lemma read_answer_exit: "read_answer ''exit'' = (0, [])"
  by code_simp

lemma books_ok_answer:
  assumes "books_ok reqs ans loc" "open_words reqs ans l = Some w"
  shows "books_ok reqs (ans @ [(l, w, r)]) loc \<and> open_words reqs (ans @ [(l, w, r)]) = (open_words reqs ans)(l := None) \<and>
    1 \<le> l \<and> (l, w) \<in> set reqs"
proof -
  have w: "l \<notin> fst ` set ans" "map_of reqs l = Some w" using assms(2) by (auto simp: open_words_def split: if_splits)
  then have "(l, w) \<in> set reqs" by (auto dest: map_of_SomeD)
  moreover from this have "1 \<le> l" using assms(1) by (auto simp: books_ok_def)
  moreover have "open_words reqs (ans @ [(l, w, r)]) = (open_words reqs ans)(l := None)"
    by (auto simp: open_words_def fun_eq_iff)
  moreover have "books_ok reqs (ans @ [(l, w, r)]) loc"
    using assms(1) w(1) \<open>(l, w) \<in> set reqs\<close> by (simp add: books_ok_def answered_word_def)
  ultimately show ?thesis by blast
qed

lemma tester_answer_inv:
  assumes inv: "tester_inv B pid ws t reqs ans" and m: "answer_for B l r m"
  shows "\<exists>t'. tester_answer m t = Inr (t', False) \<and> tt_read_input t' = tt_read_input t \<and>
    tester_inv B pid ws t' reqs (ans @ (case open_words reqs ans l of None \<Rightarrow> [] | Some w \<Rightarrow> [(l, w, r)]))"
proof -
  have al: "al_inv B (tt_results t)" "al_slot (tt_results t) = open_words reqs ans" and b: "books_ok reqs ans (tt_loc t)"
    using inv by (simp_all add: tester_inv_def)
  have l: "- (2 ^ 30) \<le> l" "l + 47 \<le> B" using m by (simp_all add: answer_for_def)
  have rd: "read_answer m = (2, [AInt l, AInt r])" using read_answer_for [OF m al_inv_bound [OF al(1)]] .
  obtain l1 where l1: "al_get (tt_results t) l = Some (open_words reqs ans l, l1)" "al_inv B l1"
    "al_slot l1 = open_words reqs ans" using als.get_law [OF al(1) l] al(2) by auto
  show ?thesis
  proof (cases "open_words reqs ans l")
    case None
    then have "tester_answer m t = Inr (t\<lparr> tt_results := l1 \<rparr>, False)"
      using rd l1(1) by (simp add: tester_answer_def got_defs)
    moreover have "tester_inv B pid ws (t\<lparr> tt_results := l1 \<rparr>) reqs ans"
      using inv l1 by (simp add: tester_inv_def input_ok_def)
    ultimately show ?thesis using None by (intro exI [of _ "t\<lparr> tt_results := l1 \<rparr>"]) simp
  next
    case (Some w)
    note n = books_ok_answer [OF b Some, of r]
    then have "0 \<le> l" by simp
    from als.put_law [OF l1(2) this l(2)] l1(3) obtain l2 where l2: "al_put l1 l None = Some (Some w, l2)" "al_inv B l2"
      "al_slot l2 = (open_words reqs ans)(l := None)" using Some by auto
    let ?t' = "t\<lparr> tt_results := l2, tt_out := tt_out t @ answer_line w r,
      tt_acc := tt_acc t + (if r \<noteq> 0 then 1 else 0), tt_ans := tt_ans t + 1 \<rparr>"
    have "tester_answer m t = Inr (?t', False)"
      using rd l1(1) l2(1) Some by (simp add: tester_answer_def got_defs)
    moreover have "tester_inv B pid ws ?t' reqs (ans @ [(l, w, r)])"
      using inv l2 n by (simp add: tester_inv_def input_ok_def answers_text_def)
    ultimately show ?thesis using Some by (intro exI [of _ ?t']) simp
  qed
qed

lemma tester_exit: "tester_answer ''exit'' t = Inr (t, True)"
  by (simp add: tester_answer_def read_answer_exit)

text \<open>Every printed answer came as a message.\<close>

definition from_messages :: "string set \<Rightarrow> printed list \<Rightarrow> bool" where
  "from_messages M ans \<longleftrightarrow> (\<forall>(l, w, r) \<in> set ans. write_answer l r \<in> M)"

lemma from_messages_simps [simp]:
  "from_messages M []" "from_messages M (as @ bs) \<longleftrightarrow> from_messages M as \<and> from_messages M bs"
  unfolding from_messages_def by (simp, simp add: ball_Un)

lemma from_messages_mono: "from_messages M ans \<Longrightarrow> M \<subseteq> N \<Longrightarrow> from_messages N ans"
  by (auto simp: from_messages_def)

text \<open>A round: at most one request is sent, at most one message is taken from the queue.\<close>

lemma tester_receive_inv:
  assumes inv: "tester_inv B pid ws t reqs ans" and q: "\<forall>m \<in> set q. server_message B m"
  shows "\<exists>t' q' exits got. tester_receive q t = Inr (t', q', exits) \<and> tester_inv B pid ws t' reqs (ans @ got) \<and>
    (\<exists>n. q' = drop n q) \<and> from_messages (set q) got \<and> (exits \<longrightarrow> ''exit'' \<in> set q) \<and> (\<forall>(l, w, r) \<in> set got. in_int r)"
proof (cases "tt_ans t < tt_req t \<and> q \<noteq> []")
  case False
  then have "tester_receive q t = Inr (t, q, False)" by (auto simp: tester_receive_def)
  with inv show ?thesis
    by (intro exI [of _ t] exI [of _ q] exI [of _ False] exI [of _ "[]"]) (simp, rule exI [of _ 0], simp)
next
  case True
  then obtain m q' where mq: "q = m # q'" by (cases q) auto
  show ?thesis
  proof (cases "m = ''exit''")
    case exit: True
    then have "tester_receive q t = Inr (t, q', True)" using True mq by (simp add: tester_receive_def tester_exit)
    with inv mq exit show ?thesis
      by (intro exI [of _ t] exI [of _ q'] exI [of _ True] exI [of _ "[]"]) (simp, rule exI [of _ 1], simp)
  next
    case False
    then obtain l r where "answer_for B l r m" using q mq by (auto simp: server_message_def)
    moreover from tester_answer_inv [OF inv this] obtain t' got where
      "tester_answer m t = Inr (t', False)" "tester_inv B pid ws t' reqs (ans @ got)"
      and got: "got = (case open_words reqs ans l of None \<Rightarrow> [] | Some w \<Rightarrow> [(l, w, r)])" by blast
    moreover have "from_messages (set q) got" "\<forall>(l, w, r) \<in> set got. in_int r"
      using got mq \<open>answer_for B l r m\<close> by (simp_all add: answer_for_def from_messages_def split: option.split)
    ultimately show ?thesis
      using True mq by (intro exI [of _ t'] exI [of _ q'] exI [of _ False] exI [of _ got])
         (simp add: tester_receive_def, rule exI [of _ 1], simp)
  qed
qed

lemma tester_round_inv:
  assumes inv: "tester_inv B pid ws t reqs ans" and q: "\<forall>m \<in> set q. server_message B m"
  shows "\<exists>t' q' left new got. tester_round pid q t = Inr (t', q', left) \<and> tester_inv B pid ws t' (reqs @ new) (ans @ got) \<and>
    (\<exists>n. q' = drop n q) \<and> from_messages (set q) got \<and>
    (left \<longrightarrow> ''exit'' \<in> set q \<or> (\<not> tt_read_input t' \<and> \<not> tt_ans t' < tt_req t'))"
proof -
  obtain t1 new where t1: "tester_read pid t = Inr t1" "tester_inv B pid ws t1 (reqs @ new) ans"
    using tester_read_inv [OF inv] by blast
  obtain t' q' exits got where t': "tester_receive q t1 = Inr (t', q', exits)"
    "tester_inv B pid ws t' (reqs @ new) (ans @ got)" "\<exists>n. q' = drop n q" "from_messages (set q) got"
    "exits \<longrightarrow> ''exit'' \<in> set q" using tester_receive_inv [OF t1(2) q] by blast
  let ?left = "exits \<or> (\<not> tt_read_input t' \<and> \<not> tt_ans t' < tt_req t')"
  have "tester_round pid q t = Inr (t', q', ?left)" using t1(1) t'(1) by (simp add: tester_round_def)
  with t'(2-5) show ?thesis
    by (intro exI [of _ t'] exI [of _ q'] exI [of _ ?left] exI [of _ new] exI [of _ got]) blast
qed

section \<open>Whole conversations\<close>

lemma tester_run_inv:
  assumes "tester_inv B pid ws t reqs ans" "\<forall>m \<in> set q \<union> set (concat arrivals). server_message B m"
  shows "\<exists>t' q' left reqs' got. tester_run pid arrivals q t = Inr (t', q', left) \<and> tester_inv B pid ws t' reqs' (ans @ got) \<and>
    from_messages (set q \<union> set (concat arrivals)) got \<and>
    (left \<longrightarrow> ''exit'' \<in> set q \<union> set (concat arrivals) \<or> (\<not> tt_read_input t' \<and> \<not> tt_ans t' < tt_req t'))"
  using assms
proof (induction arrivals arbitrary: q t reqs ans)
  case Nil
  then show ?case by (intro exI [of _ t] exI [of _ q] exI [of _ False] exI [of _ reqs] exI [of _ "[]"]) simp
next
  case (Cons a later)
  have q: "\<forall>m \<in> set (q @ a). server_message B m" using Cons.prems(2) by auto
  obtain t1 q1 left1 new got1 n where 1: "tester_round pid (q @ a) t = Inr (t1, q1, left1)"
    "tester_inv B pid ws t1 (reqs @ new) (ans @ got1)" "q1 = drop n (q @ a)" "from_messages (set (q @ a)) got1"
    "left1 \<longrightarrow> ''exit'' \<in> set (q @ a) \<or> (\<not> tt_read_input t1 \<and> \<not> tt_ans t1 < tt_req t1)"
    using tester_round_inv [OF Cons.prems(1) q] by blast
  have sub: "set q1 \<subseteq> set (q @ a)" unfolding 1(3) by (rule set_drop_subset)
  show ?case
  proof (cases left1)
    case True
    with 1(1) have "tester_run pid (a # later) q t = Inr (t1, q1, True)" by simp
    moreover have "from_messages (set q \<union> set (concat (a # later))) got1" using from_messages_mono [OF 1(4)] by auto
    ultimately show ?thesis using 1(2,5) True
      by (intro exI [of _ t1] exI [of _ q1] exI [of _ True] exI [of _ "reqs @ new"] exI [of _ got1]) auto
  next
    case False
    have "\<forall>m \<in> set q1 \<union> set (concat later). server_message B m" using Cons.prems(2) sub by auto
    from Cons.IH [OF 1(2) this] obtain t' q' left reqs' got where 2: "tester_run pid later q1 t1 = Inr (t', q', left)"
      "tester_inv B pid ws t' reqs' ((ans @ got1) @ got)" "from_messages (set q1 \<union> set (concat later)) got"
      "left \<longrightarrow> ''exit'' \<in> set q1 \<union> set (concat later) \<or> (\<not> tt_read_input t' \<and> \<not> tt_ans t' < tt_req t')" by blast
    have "tester_run pid (a # later) q t = Inr (t', q', left)" using 1(1) False 2(1) by simp
    moreover have "from_messages (set q \<union> set (concat (a # later))) (got1 @ got)"
    proof -
      have "set (q @ a) \<subseteq> set q \<union> set (concat (a # later))" "set q1 \<union> set (concat later) \<subseteq> set q \<union> set (concat (a # later))"
        using sub by auto
      with from_messages_mono [OF 1(4)] from_messages_mono [OF 2(3)] show ?thesis by simp
    qed
    ultimately show ?thesis using 2(2,4) sub
      by (intro exI [of _ t'] exI [of _ q'] exI [of _ left] exI [of _ reqs'] exI [of _ "got1 @ got"]) auto
  qed
qed

lemma tester_inv_start:
  assumes "\<forall>l \<in> set ls. NEWLINE \<notin> set l" "1 \<le> B" "B < 2 ^ 25"
    and "int (length (concat (map (\<lambda>l. l @ [NEWLINE]) ls))) + 48 \<le> B"
  shows "tester_inv B pid (concat (map pieces ls)) (tester_start pid (fresh_file (concat (map (\<lambda>l. l @ [NEWLINE]) ls)))) [] []"
proof -
  have "al_inv B (ArrayListNew :: string ArrayList) \<and> al_slot (ArrayListNew :: string ArrayList) = slot_of []"
    by (rule al_inv_ok) (rule al_ok_New [OF assms(2,3)])
  moreover have "slot_of ([] :: string option list) = open_words [] []" by (rule ext) (simp add: slot_of_def open_words_def, linarith)
  moreover have "read_all \<lparr> lb_text = [], lb_size = 1020 \<rparr> (fresh_file (concat (map (\<lambda>l. l @ [NEWLINE]) ls))) =
      Some (concat (map pieces ls))" by (rule read_all_lines) (use assms(1) in auto)
  ultimately show ?thesis
    using assms(4) by (simp add: tester_inv_def tester_start_def TESTER_LINE_SIZE_def books_ok_def requests_text_def
        answers_text_def input_ok_def fresh_file_def)
qed

text \<open>As many words are open as requests are without an answer.\<close>

lemma books_balance:
  assumes "books_ok reqs ans loc"
  shows "length ans \<le> length reqs \<and> (length ans < length reqs \<longleftrightarrow> (\<exists>l. open_words reqs ans l \<noteq> None))"
proof -
  have d: "distinct (map fst reqs)" "distinct (map fst ans)" using assms by (simp_all add: books_ok_def)
  have c: "card (fst ` set reqs) = length reqs" "card (fst ` set ans) = length ans"
    using distinct_card [OF d(1)] distinct_card [OF d(2)] by simp_all
  have sub: "fst ` set ans \<subseteq> fst ` set reqs" using assms by (rule answered_numbers)
  have o: "open_words reqs ans l \<noteq> None \<longleftrightarrow> l \<in> fst ` set reqs \<and> l \<notin> fst ` set ans" for l
    using map_of_eq_None_iff [of reqs l] by (simp add: open_words_def del: not_None_eq)
  have e: "(\<exists>l. open_words reqs ans l \<noteq> None) \<longleftrightarrow> \<not> fst ` set reqs \<subseteq> fst ` set ans"
    by (simp only: o subset_iff not_all not_imp)
  show ?thesis
  proof (cases "fst ` set reqs \<subseteq> fst ` set ans")
    case True
    with sub have "fst ` set reqs = fst ` set ans" by blast
    with c e True show ?thesis by simp
  next
    case False
    with sub have "fst ` set ans \<subset> fst ` set reqs" by blast
    then have "card (fst ` set ans) < card (fst ` set reqs)" by (intro psubset_card_mono) simp_all
    with c e False show ?thesis by simp
  qed
qed

lemma books_complete:
  assumes "books_ok reqs ans loc" "length reqs \<le> length ans"
  shows "set (map answered_word ans) = set reqs \<and> length ans = length reqs \<and> distinct (map answered_word ans)"
proof -
  have s: "set (map answered_word ans) \<subseteq> set reqs" using assms(1) by (simp add: books_ok_def)
  have f: "fst \<circ> answered_word = fst" by (auto simp: answered_word_def)
  have "distinct (map fst (map answered_word ans))" using assms(1) by (simp add: books_ok_def f)
  then have d: "distinct (map answered_word ans)" using distinct_map by blast
  have l: "length ans = length reqs" using books_balance [OF assms(1)] assms(2) by simp
  have "card (set reqs) \<le> length reqs" by (rule card_length)
  then have "set (map answered_word ans) = set reqs"
    using s distinct_card [OF d] l by (intro card_seteq) simp_all
  with l d show ?thesis by blast
qed

text \<open>Once the input is read, answers to all open words, in whatever order, end the loop.\<close>

lemma tester_run_answers:
  assumes "tester_inv B pid ws t reqs ans" "\<not> tt_read_input t" "distinct (map fst as)"
    and "fst ` set as = {l. open_words reqs ans l \<noteq> None}" "\<forall>(l, r) \<in> set as. in_int r"
  shows "\<exists>t' ans'. tester_run pid (replicate (Suc (length as)) []) (map (\<lambda>(l, r). write_answer l r) as) t = Inr (t', [], True) \<and>
    tester_inv B pid ws t' reqs ans' \<and> tt_ans t' = tt_req t' \<and>
    tt_out t' = tt_out t @ concat (map (\<lambda>(l, r). answer_line (the (open_words reqs ans l)) r) as)"
  using assms
proof (induction as arbitrary: t ans)
  case Nil
  then have "\<not> length ans < length reqs" "tt_ans t = int (length ans)" "tt_req t = int (length reqs)" "length ans \<le> length reqs"
    using books_balance [of reqs ans "tt_loc t"] by (auto simp: tester_inv_def)
  with Nil show ?case
    by (intro exI [of _ t] exI [of _ ans]) (simp add: tester_round_def tester_read_def tester_receive_def)
next
  case (Cons a as)
  obtain l r where a: "a = (l, r)" by force
  obtain w where w: "open_words reqs ans l = Some w" using Cons.prems(4) a by auto
  have b: "books_ok reqs ans (tt_loc t)" and cnt: "tt_ans t = int (length ans)" "tt_req t = int (length reqs)"
    and loc: "al_inv B (tt_results t)" using Cons.prems(1) by (simp_all add: tester_inv_def)
  have lt: "tt_ans t < tt_req t" using books_balance [OF b] w cnt by auto
  note n = books_ok_answer [OF b w, of r]
  have l: "- (2 ^ 30) \<le> l" "l + 47 \<le> B"
    using n b Cons.prems(1) by (auto simp: books_ok_def tester_inv_def)
  then have "answer_for B l r (write_answer l r)" using Cons.prems(5) a by (simp add: answer_for_def)
  from tester_answer_inv [OF Cons.prems(1) this] w obtain t1 where t1: "tester_answer (write_answer l r) t = Inr (t1, False)"
    "tt_read_input t1 = tt_read_input t" "tester_inv B pid ws t1 reqs (ans @ [(l, w, r)])" by auto
  have out: "tt_out t1 = tt_out t @ answer_line w r"
    using t1(3) Cons.prems(1) by (simp add: tester_inv_def answers_text_def)
  have cnt1: "tt_ans t1 = tt_ans t + 1" "tt_req t1 = tt_req t" using t1(3) cnt by (simp_all add: tester_inv_def)
  let ?q = "map (\<lambda>(l, r). write_answer l r) as" let ?left = "\<not> tt_ans t1 < tt_req t1"
  have rnd: "tester_round pid (map (\<lambda>(l, r). write_answer l r) (a # as)) t = Inr (t1, ?q, ?left)"
    using lt Cons.prems(2) t1(1,2) a by (simp add: tester_round_def tester_read_def tester_receive_def)
  have o: "open_words reqs (ans @ [(l, w, r)]) = (open_words reqs ans)(l := None)" using n by blast
  have l_as: "l \<notin> fst ` set as" using Cons.prems(3) a by simp
  have prems: "fst ` set as = {l'. open_words reqs (ans @ [(l, w, r)]) l' \<noteq> None}"
    using Cons.prems(4) l_as a unfolding o by auto
  show ?case
  proof (cases "as = []")
    case True
    then have "\<not> length (ans @ [(l, w, r)]) < length reqs" "length (ans @ [(l, w, r)]) \<le> length reqs"
      using books_balance [of reqs "ans @ [(l, w, r)]" "tt_loc t1"] prems t1(3) by (auto simp: tester_inv_def)
    then have "tt_ans t1 = tt_req t1" using cnt cnt1 by simp
    with rnd True t1(3) out a w show ?thesis
      by (intro exI [of _ t1] exI [of _ "ans @ [(l, w, r)]"]) simp
  next
    case False
    then obtain l' where "l' \<in> fst ` set as" by (cases as) auto
    then have "open_words reqs (ans @ [(l, w, r)]) l' \<noteq> None" using prems by blast
    then have "\<not> ?left"
      using books_balance [of reqs "ans @ [(l, w, r)]" "tt_loc t1"] t1(3) cnt cnt1 by (auto simp: tester_inv_def)
    have side: "\<not> tt_read_input t1" "distinct (map fst as)" "\<forall>(l, r) \<in> set as. in_int r"
      using Cons.prems(2,3,5) t1(2) by simp_all
    have "\<exists>t' ans'. tester_run pid (replicate (Suc (length as)) []) ?q t1 = Inr (t', [], True) \<and>
      tester_inv B pid ws t' reqs ans' \<and> tt_ans t' = tt_req t' \<and>
      tt_out t' = tt_out t1 @ concat (map (\<lambda>(l', r'). answer_line (the (open_words reqs (ans @ [(l, w, r)]) l')) r') as)"
      by (rule Cons.IH [OF t1(3) side(1,2) prems side(3)])
    then obtain t' ans' where t': "tester_run pid (replicate (Suc (length as)) []) ?q t1 = Inr (t', [], True)"
      "tester_inv B pid ws t' reqs ans'" "tt_ans t' = tt_req t'"
      "tt_out t' = tt_out t1 @ concat (map (\<lambda>(l', r'). answer_line (the (open_words reqs (ans @ [(l, w, r)]) l')) r') as)"
      by blast
    have meq: "map (\<lambda>(l', r'). answer_line (the (open_words reqs (ans @ [(l, w, r)]) l')) r') as =
        map (\<lambda>(l', r'). answer_line (the (open_words reqs ans l')) r') as"
      using l_as unfolding o by (intro map_cong refl) force
    note t'(4) [unfolded meq]
    with \<open>\<not> ?left\<close> t'(1-3) rnd out a w show ?thesis by (intro exI [of _ t'] exI [of _ ans']) simp
  qed
qed

section \<open>Properties\<close>

text \<open>The text of a file of lines.\<close>

abbreviation lines_text :: "string list \<Rightarrow> string" where
  "lines_text ls \<equiv> concat (map (\<lambda>l. l @ [NEWLINE]) ls)"


text \<open>A conversation: one word, sent in the first round, the end of the input in the second.\<close>

definition demo_tester :: tester where
  "demo_tester = tester_start 5 (fresh_file (lines_text [''ab'']))"

lemma demo_read:
  "\<exists>t. tester_read 5 demo_tester = Inr t \<and> tt_read_input t \<and> tt_loc t = 1 \<and>
     al_slot (tt_results t) = (\<lambda>_. None)(1 := Some ''ab'') \<and> tt_req t = 1 \<and> tt_ans t = 0 \<and> tt_acc t = 0 \<and>
     tt_out t = sprintf ''PID: %d'' [AInt 5] @ [NEWLINE] \<and> tt_line t = \<lparr> lb_text = ''ab'', lb_size = 256 \<rparr> \<and>
     tt_stdin t = fresh_file []"
proof -
  have "al_inv 100 (ArrayListNew :: string ArrayList) \<and> al_slot (ArrayListNew :: string ArrayList) = slot_of []"
    by (rule al_inv_ok) (rule al_ok_New, simp_all)
  moreover have "slot_of ([] :: string option list) = (\<lambda>_. None)" by (rule ext) (simp add: slot_of_def, linarith)
  ultimately obtain l where l: "al_put ArrayListNew 1 (Some ''ab'') = Some (None, l)" "al_slot l = (\<lambda>_. None)(1 := Some ''ab'')"
    using als.put_law [of 100 "ArrayListNew :: string ArrayList" 1 "Some ''ab''"] by auto
  let ?t0 = "demo_tester"
  have g: "getline (Some (tt_line ?t0)) (tt_stdin ?t0) = Some (2, Some \<lparr> lb_text = ''ab'', lb_size = 256 \<rparr>, fresh_file [])"
    using getline_short [of "''ab''" _ "[]"] by (simp add: demo_tester_def tester_start_def NEWLINE_def)
  have start: "tt_read_input ?t0" "tt_loc ?t0 = 0" "tt_results ?t0 = ArrayListNew" "tt_req ?t0 = 0" "tt_ans ?t0 = 0"
    "tt_acc ?t0 = 0" "tt_out ?t0 = sprintf ''PID: %d'' [AInt 5] @ [NEWLINE]"
    by (simp_all add: demo_tester_def tester_start_def)
  show ?thesis using g start l by (simp add: tester_read_def tester_send_word_def cint_def)
qed

lemma demo_rounds:
  "\<exists>t. tester_run 5 [[], []] [] demo_tester = Inr (t, [], False) \<and> \<not> tt_read_input t \<and>
     al_slot (tt_results t) = (\<lambda>_. None)(1 := Some ''ab'') \<and>
     tt_out t = sprintf ''PID: %d'' [AInt 5] @ [NEWLINE] \<and> tt_req t = 1 \<and> tt_ans t = 0"
proof -
  obtain t1 where t1: "tester_read 5 demo_tester = Inr t1" "tt_read_input t1" "tt_loc t1 = 1"
    "al_slot (tt_results t1) = (\<lambda>_. None)(1 := Some ''ab'')" "tt_req t1 = 1" "tt_ans t1 = 0"
    "tt_out t1 = sprintf ''PID: %d'' [AInt 5] @ [NEWLINE]" "tt_line t1 = \<lparr> lb_text = ''ab'', lb_size = 256 \<rparr>"
    "tt_stdin t1 = fresh_file []" using demo_read by blast
  have r1: "tester_round 5 [] demo_tester = Inr (t1, [], False)"
    using t1 by (simp add: tester_round_def tester_receive_def)
  obtain f where g2: "getline (Some (tt_line t1)) (tt_stdin t1) = Some (-1, Some (tt_line t1), f)"
    using t1(8,9) by (simp add: getline_def fgets_def LINE_ARRAY_def fresh_file_def numeral_eq_Suc)
  obtain t2 where t2: "tester_read 5 t1 = Inr t2" "\<not> tt_read_input t2" "tt_results t2 = tt_results t1" "tt_req t2 = 1"
    "tt_ans t2 = 0" "tt_out t2 = tt_out t1"
    using g2 t1 by (simp add: tester_read_def cint_def)
  have "tester_round 5 [] t1 = Inr (t2, [], False)"
    using t2 by (simp add: tester_round_def tester_receive_def)
  with r1 t2 t1(4,7) show ?thesis by (intro exI [of _ t2]) simp
qed


text \<open>
  C13: the client ends once it has its answers. After any number of rounds, when the input is read to its
  end and no message waits, let answers to exactly the words that are still open arrive, one each and in
  any order: then the client prints them in the order of their arrival, each with its word, and leaves
  its loop with as many answers as requests.
\<close>

theorem tester_ends_when_answered:
  assumes "\<forall>l \<in> set ls. NEWLINE \<notin> set l" "int (length (lines_text ls)) + 48 \<le> B" "B < 2 ^ 25"
    and "\<forall>m \<in> set (concat arrivals). server_message B m"
    and "tester_run pid arrivals [] (tester_start pid (fresh_file (lines_text ls))) = Inr (t, [], left)" "\<not> tt_read_input t"
    and "distinct (map fst as)" "fst ` set as = {l. al_slot (tt_results t) l \<noteq> None}" "\<forall>(l, r) \<in> set as. in_int r"
  shows "\<exists>t'. tester_run pid (map (\<lambda>(l, r). write_answer l r) as # replicate (length as) []) [] t = Inr (t', [], True) \<and>
    tt_ans t' = tt_req t' \<and>
    tt_out t' = tt_out t @ concat (map (\<lambda>(l, r). answer_line (the (al_slot (tt_results t) l)) r) as)"
proof -
  have "1 \<le> B" using assms(2) by linarith
  from tester_inv_start [OF assms(1) this assms(3,2)] have start: "tester_inv B pid (concat (map pieces ls))
    (tester_start pid (fresh_file (lines_text ls))) [] []" .
  have msgs: "\<forall>m \<in> set [] \<union> set (concat arrivals). server_message B m" using assms(4) by simp
  from tester_run_inv [OF start msgs] assms(5) obtain reqs ans where
    inv: "tester_inv B pid (concat (map pieces ls)) t reqs ans" by auto
  then have slot: "al_slot (tt_results t) = open_words reqs ans" by (simp add: tester_inv_def)
  from tester_run_answers [OF inv assms(6,7) _ assms(9)] assms(8) slot show ?thesis by auto
qed

theorem tester_ends_when_answered_witness:
  "\<exists>t t'. tester_run 5 [[], []] [] (tester_start 5 (fresh_file (lines_text [''ab'']))) = Inr (t, [], False) \<and>
     tester_run 5 [[write_answer 1 1], []] [] t = Inr (t', [], True) \<and>
     tt_out t' = sprintf ''PID: %d'' [AInt 5] @ [NEWLINE] @ answer_line ''ab'' 1"
proof -
  obtain t where t: "tester_run 5 [[], []] [] (tester_start 5 (fresh_file (lines_text [''ab'']))) = Inr (t, [], False)"
    "\<not> tt_read_input t" "al_slot (tt_results t) = (\<lambda>_. None)(1 := Some ''ab'')"
    "tt_out t = sprintf ''PID: %d'' [AInt 5] @ [NEWLINE]" using demo_rounds unfolding demo_tester_def by blast
  have "\<forall>l \<in> set [''ab'']. NEWLINE \<notin> set l" by (simp add: NEWLINE_def)
  moreover have "int (length (lines_text [''ab''])) + 48 \<le> 100" "\<forall>m \<in> set (concat [[], []]). server_message 100 m"
    "distinct (map fst [(1 :: int, 1 :: int)])" "\<forall>(l, r) \<in> set [(1 :: int, 1 :: int)]. in_int r" by (simp_all add: in_int_def)
  moreover have "fst ` set [(1 :: int, 1 :: int)] = {l. al_slot (tt_results t) l \<noteq> None}" using t(3) by (auto split: if_splits)
  ultimately have "\<exists>t'. tester_run 5 (map (\<lambda>(l, r). write_answer l r) [(1, 1)] # replicate (length [(1 :: int, 1 :: int)]) []) [] t =
      Inr (t', [], True) \<and> tt_ans t' = tt_req t' \<and>
      tt_out t' = tt_out t @ concat (map (\<lambda>(l, r). answer_line (the (al_slot (tt_results t) l)) r) [(1, 1)])"
    by (intro tester_ends_when_answered [where B = 100, OF _ _ _ _ t(1,2)]) simp_all
  with t show ?thesis by (simp del: tester_run.simps) blast
qed

end
