(* ===== verification/QueueLife.thy ===== *)
theory QueueLife
  imports MsgQueue
begin

text \<open>
  Opening and closing the queues of a program: what is left of the system when some descriptors are
  closed (\<open>without_desc\<close>) and some names removed (\<open>without_name\<close>), and that a new queue leaves
  the queues there are.
\<close>

section \<open>Queues that are open\<close>

definition q_open :: "mq_system \<Rightarrow> MsgQueue \<Rightarrow> bool" where
  "q_open s q \<longleftrightarrow> q_name q \<noteq> None \<and> map_of (sys_desc s) (q_desc q) \<noteq> None"

definition without_desc :: "int set \<Rightarrow> mq_system \<Rightarrow> mq_system" where
  "without_desc D s = s\<lparr> sys_desc := filter (\<lambda>e. fst e \<notin> D) (sys_desc s) \<rparr>"

definition without_name :: "string \<Rightarrow> mq_system \<Rightarrow> mq_system" where
  "without_name n s = s\<lparr> sys_names := filter (\<lambda>e. fst e \<noteq> n) (sys_names s) \<rparr>"

lemma without_desc_simps [simp]:
  "sys_names (without_desc D s) = sys_names s" "sys_queue (without_desc D s) = sys_queue s"
  "without_desc {} s = s" "without_desc D (without_desc E s) = without_desc (D \<union> E) s"
  "sys_names (without_name n s) = filter (\<lambda>e. fst e \<noteq> n) (sys_names s)"
  "sys_desc (without_name n s) = sys_desc s" "without_desc D (without_name n s) = without_name n (without_desc D s)"
  by (auto simp: without_desc_def without_name_def conj_commute)

lemma q_open_without: "q_open (without_desc D s) q \<longleftrightarrow> q_open s q \<and> q_desc q \<notin> D"
  using map_of_filter_key [of "\<lambda>d. d \<notin> D" "sys_desc s" "q_desc q"] by (auto simp: q_open_def without_desc_def)

lemma q_open_without_name [simp]: "q_open (without_name n s) q = q_open s q"
  by (simp add: q_open_def)

lemma msgQueueClose_open:
  assumes "q_open s q"
  shows "\<exists>q'. msgQueueClose q s = Inr (1, q', without_desc {q_desc q} s)"
  using assms by (auto simp: q_open_def msgQueueClose_def msgQueueCloseEx_def sys_mq_close_def without_desc_def)

lemma msgQueueRemove_open:
  assumes "q_open s q" "q_name q = Some n" "map_of (sys_names s) n \<noteq> None"
  shows "\<exists>q'. msgQueueRemove q s = Inr (1, q', without_name n (without_desc {q_desc q} s))"
  using assms by (auto simp: q_open_def msgQueueRemove_def msgQueueCloseEx_def sys_mq_close_def sys_mq_unlink_def
      without_desc_def without_name_def)

section \<open>Opening\<close>

lemma open_queue_new:
  assumes "mq_name_ok n" "length n < 50" "map_of (sys_names s) n = None"
  shows "\<exists>q s'. msgQueueOpenEx True (Some n) MSG_SIZE MSG_QUEUE_SIZE b s = Inr (q, s') \<and> q_rep q 10 1020 b s' [] \<and>
    q_name q = Some n \<and> q_desc q = sys_next_desc s \<and> sys_next_desc s' = sys_next_desc s + 1 \<and>
    sys_next_queue s' = Suc (sys_next_queue s) \<and>
    sys_names s' = (n, sys_next_queue s) # sys_names s \<and> sys_desc s' = (sys_next_desc s, sys_next_queue s, \<not> b) # sys_desc s \<and>
    sys_queue s' = (sys_queue s)(sys_next_queue s := \<lparr> mq_maxmsg = 10, mq_msgsize = 1020, mq_msgs = [] \<rparr>)"
  using assms by (simp add: msgQueueOpenEx_def sys_mq_open_def q_rep_def Let_def config)

text \<open>Opening another queue leaves the queues there are.\<close>

lemma q_rep_frame:
  assumes "q_rep q n l b s ms" "sys_names s' = (m, j) # sys_names s" "sys_desc s' = (d, j, x) # sys_desc s"
    "sys_queue s' = (sys_queue s)(j := z)" "q_name q \<noteq> Some m" "q_desc q \<noteq> d"
    "map_of (sys_names s) (the (q_name q)) \<noteq> Some j"
  shows "q_rep q n l b s' ms"
proof -
  obtain name i where "q_name q = Some name" "length name < MAX_MSG_QUEUE_NAME_SIZE" "mq_name_ok name"
    "map_of (sys_names s) name = Some i" "map_of (sys_desc s) (q_desc q) = Some (i, \<not> b)"
    "sys_queue s i = \<lparr> mq_maxmsg = n, mq_msgsize = l, mq_msgs = ms \<rparr>" using assms(1) by (auto simp: q_rep_def)
  with assms have "q_name q = Some name \<and> length name < MAX_MSG_QUEUE_NAME_SIZE \<and> mq_name_ok name \<and>
      map_of (sys_names s') name = Some i \<and> map_of (sys_desc s') (q_desc q) = Some (i, \<not> b) \<and>
      sys_queue s' i = \<lparr> mq_maxmsg = n, mq_msgsize = l, mq_msgs = ms \<rparr>" by auto
  with assms(1) show ?thesis by (auto simp: q_rep_def)
qed

lemma q_rep_open: "q_rep q n l b s ms \<Longrightarrow> q_open s q \<and> map_of (sys_names s) (the (q_name q)) \<noteq> None"
  by (auto simp: q_rep_def q_open_def)

text \<open>
  What happens to the queues while a program is in its loop: nobody closes its queues or removes a name.
\<close>

definition keeps_queues :: "(mq_system \<Rightarrow> mq_system) \<Rightarrow> bool" where
  "keeps_queues later \<longleftrightarrow> (\<forall>s q. q_open s q \<longrightarrow> q_open (later s) q) \<and>
     (\<forall>s n. map_of (sys_names s) n \<noteq> None \<longrightarrow> map_of (sys_names (later s)) n \<noteq> None)"

lemma q_rep_kept:
  assumes "q_rep q n l b s ms" "keeps_queues later"
  shows "q_open (later s) q \<and> map_of (sys_names (later s)) (the (q_name q)) \<noteq> None"
  using q_rep_open [OF assms(1)] assms(2) by (simp add: keeps_queues_def)

end
