(* ===== verification/Syslog.thy ===== *)
theory Syslog
  imports CText
begin

text \<open>
  The log of syslog.h. A call of one of its macros gives the text it writes and, when it ends the
  process, the exit code. The macros that a build may define beforehand are the record
  \<open>log_config\<close>; the text that \<open>vfprintf\<close> makes of the message, the process id and \<open>errno\<close> with
  its description are arguments. The output goes to standard error, which is flushed.
\<close>

section \<open>The settings and the caller\<close>

record log_config =
  NO_LOG :: bool
  SYS_LOG_PRINT_FNAMES :: bool
  SYS_LOG_PROMOTE_TO_ERRORS :: bool
  SYS_LOG_HANDLE_FATALS :: bool

text \<open>The defaults of syslog.h, with which the programs are built.\<close>

definition default_log :: log_config where
  "default_log = \<lparr> NO_LOG = False, SYS_LOG_PRINT_FNAMES = True, SYS_LOG_PROMOTE_TO_ERRORS = False,
     SYS_LOG_HANDLE_FATALS = True \<rparr>"

record log_caller =
  lc_pid :: int
  lc_function :: string
  lc_errno :: int
  lc_strerror :: string

section \<open>Writing a message\<close>

definition ESC :: string where
  "ESC = CHR 0x1B # ''[0''"

text \<open>\<open>%-ns\<close>: at least \<open>n\<close> characters, with blanks behind.\<close>

definition pad_right :: "nat \<Rightarrow> string \<Rightarrow> string" where
  "pad_right n s = s @ replicate (n - length s) CHR '' ''"

definition colour :: "int \<Rightarrow> string" where
  "colour loglevel =
     (if loglevel = 0 then ESC @ ''m''
      else if loglevel = 1 then ESC @ '';34m''
      else if loglevel = 2 then ESC @ '';32m''
      else if loglevel = 3 then ESC @ '';33m''
      else if loglevel \<ge> 4 then ESC @ '';31m''
      else '''')"

definition errno_text :: "bool \<Rightarrow> log_caller \<Rightarrow> string" where
  "errno_text print_errno c =
     (if print_errno then ''errno '' @ show_int (lc_errno c) @ '': '' @ lc_strerror c else '''')"

definition log_formated ::
  "log_config \<Rightarrow> int \<Rightarrow> int \<Rightarrow> bool \<Rightarrow> string option \<Rightarrow> log_caller \<Rightarrow> string \<Rightarrow> string \<times> int option" where
  "log_formated cfg runtime_log_status loglevel print_errno label c message =
     (if runtime_log_status = 0 \<and> loglevel < 5 then ('''', None)
      else
        let loglevel = (if SYS_LOG_PROMOTE_TO_ERRORS cfg then 4 else loglevel);
            out = colour loglevel;
            out = out @ (case label of Some l \<Rightarrow> pad_right 8 l @ '' '' | None \<Rightarrow> '' '' @ pad_right 8 ''  '' @ ''  '');
            out = out @ (if SYS_LOG_PRINT_FNAMES cfg
                         then '' '' @ pad_right 5 (show_int (lc_pid c)) @ '' '' @ pad_right 10 (lc_function c) @ '' ''
                         else '''');
            out = out @ message;
            out = out @ errno_text print_errno c;
            out = out @ ESC @ ''m'';
            out = out @ [CHR 0x0A]
        in (out, if loglevel > 4 \<and> SYS_LOG_HANDLE_FATALS cfg then Some (-1) else None))"

definition fatal_formated ::
  "log_config \<Rightarrow> bool \<Rightarrow> bool \<Rightarrow> string option \<Rightarrow> log_caller \<Rightarrow> string \<Rightarrow> string \<times> int option" where
  "fatal_formated cfg print_errno if_exit label c message =
     (let out = ESC @ '';31m [Process '';
          out = out @ (case label of Some l \<Rightarrow> ''['' @ l @ ''] '' | None \<Rightarrow> ''[?] '');
          out = out @ (if SYS_LOG_PRINT_FNAMES cfg
                       then '' (pid) '' @ show_int (lc_pid c) @ '' in function '' @ lc_function c @ ''] ''
                       else '''');
          out = out @ message;
          out = out @ errno_text print_errno c;
          out = out @ [CHR 0x0A];
          out = out @ ESC @ ''m''
      in (out, if if_exit then Some (-1) else None))"

section \<open>The switch and the macros\<close>

text \<open>The value of \<open>_runtime_log_status_\<close> after the call; both functions return 1.\<close>

definition log_on :: "int \<times> int" where
  "log_on = (1, 1)"

definition log_off :: "int \<times> int" where
  "log_off = (1, 0)"

definition log_set :: "log_config \<Rightarrow> bool \<Rightarrow> int \<Rightarrow> int" where
  "log_set cfg state status = (if NO_LOG cfg then status else snd (if state then log_on else log_off))"

datatype log_macro = Log string | LogInfo string | LogOk string | LogWarn string | LogErr string
  | LogFatal string | Fatal string | Syserr | Syserrv

fun with_log :: "log_macro \<Rightarrow> int \<times> bool \<times> string" where
  "with_log (Log l) = (0, False, l)"
| "with_log (LogInfo l) = (1, False, l)"
| "with_log (LogOk l) = (2, False, l)"
| "with_log (LogWarn l) = (3, False, l)"
| "with_log (LogErr l) = (4, False, l)"
| "with_log (LogFatal l) = (5, False, l)"
| "with_log (Fatal l) = (5, False, l)"
| "with_log Syserr = (5, True, ''SYSERR'')"
| "with_log Syserrv = (5, False, ''SYSERR'')"

text \<open>Without the log: the fatal macros only when fatals are handled, syserr and syserrv always.\<close>

fun without_log :: "log_config \<Rightarrow> log_macro \<Rightarrow> (bool \<times> string) option" where
  "without_log cfg (LogFatal l) = (if SYS_LOG_HANDLE_FATALS cfg then Some (False, l) else None)"
| "without_log cfg (Fatal l) = (if SYS_LOG_HANDLE_FATALS cfg then Some (False, l) else None)"
| "without_log cfg Syserr = Some (True, ''SYSERR'')"
| "without_log cfg Syserrv = Some (False, ''SYSERR'')"
| "without_log cfg _ = None"

definition log_call :: "log_config \<Rightarrow> int \<Rightarrow> log_macro \<Rightarrow> log_caller \<Rightarrow> string \<Rightarrow> string \<times> int option" where
  "log_call cfg status m c message =
     (if NO_LOG cfg
      then (case without_log cfg m of None \<Rightarrow> ('''', None)
        | Some (print_errno, label) \<Rightarrow> fatal_formated cfg print_errno True (Some label) c message)
      else (case with_log m of (loglevel, print_errno, label) \<Rightarrow>
        log_formated cfg status loglevel print_errno (Some label) c message))"

text \<open>log_debug is a log_info behind a condition, and nothing with NO_LOG.\<close>

definition log_debug :: "log_config \<Rightarrow> int \<Rightarrow> bool \<Rightarrow> string \<Rightarrow> log_caller \<Rightarrow> string \<Rightarrow> string \<times> int option" where
  "log_debug cfg status enable label c message =
     (if \<not> NO_LOG cfg \<and> enable then log_call cfg status (LogInfo label) c message else ('''', None))"

section \<open>Properties\<close>

fun is_fatal :: "log_macro \<Rightarrow> bool" where
  "is_fatal (LogFatal _) = True"
| "is_fatal (Fatal _) = True"
| "is_fatal Syserr = True"
| "is_fatal Syserrv = True"
| "is_fatal _ = False"

lemma with_log_level: "with_log m = (loglevel, e, l) \<Longrightarrow> 0 \<le> loglevel \<and> loglevel \<le> 5 \<and> (loglevel = 5 \<longleftrightarrow> is_fatal m)"
  by (cases m) auto

text \<open>
  C40: as the programs are built, a message that is not fatal never ends the process and is written
  exactly when the log is switched on; a fatal one, syserr and syserrv among them, is written and ends
  the process with code -1 whatever the switch says. Each written message is one piece of text that
  starts with an escape sequence, contains the message, and ends by resetting the colour and with a
  newline.
\<close>

theorem log_call_default:
  "if status = 0 \<and> \<not> is_fatal m then log_call default_log status m c msg = ('''', None)
   else \<exists>colour label. log_call default_log status m c msg =
     (ESC @ colour @ label @ msg @ errno_text (m = Syserr) c @ ESC @ ''m'' @ [CHR 0x0A],
      if is_fatal m then Some (-1) else None)"
proof -
  obtain loglevel e l where w: "with_log m = (loglevel, e, l)" by (metis prod.collapse)
  from with_log_level [OF w] have level: "0 \<le> loglevel" "loglevel \<le> 5" "loglevel = 5 \<longleftrightarrow> is_fatal m" by auto
  have e: "e = (m = Syserr)" using w by (cases m) auto
  define rest where "rest = drop (length ESC) (colour loglevel)"
  have "colour loglevel = ESC @ rest" using level(1) by (simp add: rest_def colour_def)
  then have col: "log_formated default_log status loglevel e (Some l) c msg =
      (if status = 0 \<and> loglevel < 5 then ('''', None)
       else (ESC @ rest @ (pad_right 8 l @ '' '' @ '' '' @ pad_right 5 (show_int (lc_pid c)) @ '' '' @
          pad_right 10 (lc_function c) @ '' '') @ msg @ errno_text e c @ ESC @ ''m'' @ [CHR 0x0A],
         if loglevel > 4 then Some (-1) else None))"
    by (simp add: log_formated_def default_log_def Let_def)
  have call: "log_call default_log status m c msg = log_formated default_log status loglevel e (Some l) c msg"
    using w by (simp add: log_call_def default_log_def)
  show ?thesis
  proof (cases "status = 0 \<and> loglevel < 5")
    case True
    with level have "status = 0 \<and> \<not> is_fatal m" by auto
    with True col call show ?thesis by simp
  next
    case False
    with level have f: "status \<noteq> 0 \<or> is_fatal m" "4 < loglevel \<longleftrightarrow> is_fatal m" by auto
    have "log_call default_log status m c msg = (ESC @ rest @ (pad_right 8 l @ '' '' @ '' '' @
          pad_right 5 (show_int (lc_pid c)) @ '' '' @ pad_right 10 (lc_function c) @ '' '') @ msg @
          errno_text (m = Syserr) c @ ESC @ ''m'' @ [CHR 0x0A], if is_fatal m then Some (-1) else None)"
      unfolding call using False f(2) by (subst col) (auto simp: e)
    with f(1) show ?thesis by auto
  qed
qed

text \<open>
  The two builds, with the log and with NO_LOG, end the process in exactly the same calls and
  with the same code, and NO_LOG writes only what ends it.
\<close>

theorem no_log_ends_alike:
  "snd (log_call (default_log\<lparr> NO_LOG := True \<rparr>) status m c msg) = snd (log_call default_log status' m c msg) \<and>
   (fst (log_call (default_log\<lparr> NO_LOG := True \<rparr>) status m c msg) = '''' \<longleftrightarrow> \<not> is_fatal m)"
  by (cases m) (simp_all add: log_call_def default_log_def log_formated_def fatal_formated_def ESC_def Let_def)

text \<open>
  Against its description, syserr returns in a build without SYS_LOG_HANDLE_FATALS or with
  SYS_LOG_PROMOTE_TO_ERRORS.
\<close>

theorem syserr_may_return:
  "snd (log_call (default_log\<lparr> SYS_LOG_HANDLE_FATALS := False \<rparr>) status Syserr c msg) = None \<and>
   snd (log_call (default_log\<lparr> SYS_LOG_PROMOTE_TO_ERRORS := True \<rparr>) status Syserr c msg) = None \<and>
   snd (log_call (default_log\<lparr> NO_LOG := True, SYS_LOG_HANDLE_FATALS := False \<rparr>) status Syserr c msg) = Some (-1)"
  by (simp add: log_call_def default_log_def log_formated_def fatal_formated_def Let_def)

end
