(* ===== verification/OnExit.thy ===== *)
theory OnExit
  imports Prelude
begin

text \<open>
  The exit handlers of onexit.h. Its static variables are the record \<open>exit_handlers\<close>: the flag of
  running handlers, the slot of the collector, the ten slots of the others with the number of them
  in use, and the \<open>once\<close> flags of the two functions; \<open>oe_hooked\<close> says whether \<open>atexit\<close> has
  been given ExitHandlerExec. What a handler does to the program is the argument \<open>call\<close>.
\<close>

section \<open>The state\<close>

definition ON_EXIT_MAX_HANDLERS_COUNT :: nat where
  "ON_EXIT_MAX_HANDLERS_COUNT = 10"

record 'h exit_handlers =
  oe_called_mode :: int
  oe_once :: bool
  oe_gc_slot :: "'h option"
  oe_slots :: "'h option list"
  oe_slots_i :: nat
  oe_setup_once :: bool
  oe_hooked :: bool

definition no_handlers :: "'h exit_handlers" where
  "no_handlers = \<lparr> oe_called_mode = 0, oe_once = False, oe_gc_slot = None,
     oe_slots = replicate ON_EXIT_MAX_HANDLERS_COUNT None, oe_slots_i = 0, oe_setup_once = False,
     oe_hooked = False \<rparr>"

section \<open>The operations\<close>

definition call_slot :: "('h \<Rightarrow> 's \<Rightarrow> 's option) \<Rightarrow> 'h option \<Rightarrow> 's \<Rightarrow> 's option" where
  "call_slot call slot s = (case slot of None \<Rightarrow> Some s | Some h \<Rightarrow> call h s)"

text \<open>The loop from position \<open>i\<close> on, for \<open>n\<close> positions.\<close>

fun call_slots :: "('h \<Rightarrow> 's \<Rightarrow> 's option) \<Rightarrow> 'h option list \<Rightarrow> nat \<Rightarrow> nat \<Rightarrow> 's \<Rightarrow> 's option" where
  "call_slots call slots i 0 s = Some s"
| "call_slots call slots i (Suc n) s =
     (if i < length slots
      then do { s \<leftarrow> call_slot call (slots ! i) s; call_slots call slots (Suc i) n s }
      else None)"

definition onexit_handler_op ::
  "('h \<Rightarrow> 's \<Rightarrow> 's option) \<Rightarrow> int \<Rightarrow> 'h option \<Rightarrow> 'h exit_handlers \<Rightarrow> 's \<Rightarrow> ('h exit_handlers \<times> 's) option" where
  "onexit_handler_op call mode handler e s =
     (let e = (if \<not> oe_once e
               then e\<lparr> oe_once := True, oe_slots := replicate ON_EXIT_MAX_HANDLERS_COUNT None \<rparr> else e) in
      if mode = 1 then
        (if oe_slots_i e < ON_EXIT_MAX_HANDLERS_COUNT
         then Some (e\<lparr> oe_slots := (oe_slots e)[oe_slots_i e := handler], oe_slots_i := oe_slots_i e + 1 \<rparr>, s)
         else None)
      else if mode = 0 then Some (e\<lparr> oe_gc_slot := handler \<rparr>, s)
      else if mode = -1 then
        (if oe_called_mode e = 1 then Some (e, s)
         else do {
           let e = e\<lparr> oe_called_mode := 1 \<rparr>;
           s \<leftarrow> call_slots call (oe_slots e) 0 (oe_slots_i e) s;
           s \<leftarrow> call_slot call (oe_gc_slot e) s;
           Some (e, s) })
      else Some (e, s))"

definition ExitHandlerOverrideGC ::
  "('h \<Rightarrow> 's \<Rightarrow> 's option) \<Rightarrow> 'h option \<Rightarrow> 'h exit_handlers \<Rightarrow> 's \<Rightarrow> ('h exit_handlers \<times> 's) option" where
  "ExitHandlerOverrideGC call handler e s = onexit_handler_op call 0 handler e s"

definition ExitHandlerAdd ::
  "('h \<Rightarrow> 's \<Rightarrow> 's option) \<Rightarrow> 'h option \<Rightarrow> 'h exit_handlers \<Rightarrow> 's \<Rightarrow> ('h exit_handlers \<times> 's) option" where
  "ExitHandlerAdd call handler e s = onexit_handler_op call 1 handler e s"

definition ExitHandlerExec ::
  "('h \<Rightarrow> 's \<Rightarrow> 's option) \<Rightarrow> 'h exit_handlers \<Rightarrow> 's \<Rightarrow> ('h exit_handlers \<times> 's) option" where
  "ExitHandlerExec call e s = onexit_handler_op call (-1) None e s"

definition ExitHandlerIsExitting :: "'h exit_handlers \<Rightarrow> int" where
  "ExitHandlerIsExitting e = oe_called_mode e"

text \<open>\<open>registered\<close> is the value of atexit: zero when it has taken the hook.\<close>

definition ExitHandlerSetup :: "int \<Rightarrow> 'h exit_handlers \<Rightarrow> stop + 'h exit_handlers" where
  "ExitHandlerSetup registered e =
     (if oe_setup_once e then Inr e
      else let e = e\<lparr> oe_setup_once := True \<rparr> in
        if registered \<noteq> 0 then Inl (Exited (-1)) else Inr (e\<lparr> oe_hooked := True \<rparr>))"

text \<open>What exit does before the process is gone: it calls the hook.\<close>

definition exit_hooks ::
  "('h \<Rightarrow> 's \<Rightarrow> 's option) \<Rightarrow> 'h exit_handlers \<Rightarrow> 's \<Rightarrow> ('h exit_handlers \<times> 's) option" where
  "exit_hooks call e s = (if oe_hooked e then ExitHandlerExec call e s else Some (e, s))"

section \<open>What they promise\<close>

text \<open>The handlers of a list, one after the other.\<close>

fun call_all :: "('h \<Rightarrow> 's \<Rightarrow> 's option) \<Rightarrow> 'h list \<Rightarrow> 's \<Rightarrow> 's option" where
  "call_all call [] s = Some s"
| "call_all call (h # hs) s = do { s \<leftarrow> call h s; call_all call hs s }"

lemma call_all_append:
  "call_all call (xs @ ys) s = do { s \<leftarrow> call_all call xs s; call_all call ys s }"
proof (induction xs arbitrary: s)
  case (Cons x xs)
  then show ?case by (cases "call x s") simp_all
qed simp

text \<open>\<open>handlers_are hs gc e\<close>: the registered handlers are \<open>hs\<close>, the one of the collector \<open>gc\<close>.\<close>

definition handlers_are :: "'h list \<Rightarrow> 'h option \<Rightarrow> 'h exit_handlers \<Rightarrow> bool" where
  "handlers_are hs gc e \<longleftrightarrow> length hs \<le> ON_EXIT_MAX_HANDLERS_COUNT \<and> oe_slots_i e = length hs \<and>
     oe_slots e = map Some hs @ replicate (ON_EXIT_MAX_HANDLERS_COUNT - length hs) None \<and> oe_gc_slot e = gc \<and>
     (oe_once e \<or> hs = [])"

lemma handlers_are_none: "handlers_are [] None no_handlers"
  by (simp add: handlers_are_def no_handlers_def)

lemma replicate_update_first: "0 < n \<Longrightarrow> (replicate n a)[0 := b] = b # replicate (n - Suc 0) a"
  by (cases n) simp_all

lemma ExitHandlerAdd_ok:
  assumes "handlers_are hs gc e" "length hs < ON_EXIT_MAX_HANDLERS_COUNT"
  shows "\<exists>e'. ExitHandlerAdd call (Some h) e s = Some (e', s) \<and> handlers_are (hs @ [h]) gc e' \<and>
    oe_hooked e' = oe_hooked e \<and> oe_called_mode e' = oe_called_mode e"
proof -
  obtain k where k: "ON_EXIT_MAX_HANDLERS_COUNT - length hs = Suc k" "ON_EXIT_MAX_HANDLERS_COUNT - Suc (length hs) = k"
    using assms(2) by (cases "ON_EXIT_MAX_HANDLERS_COUNT - length hs") auto
  have l: "length hs = 0" if "\<not> oe_once e" using that assms(1) by (auto simp: handlers_are_def)
  with assms k show ?thesis
    by (cases "oe_once e")
       (auto simp: ExitHandlerAdd_def onexit_handler_op_def handlers_are_def Let_def list_update_append
         replicate_update_first)
qed

lemma ExitHandlerOverrideGC_ok:
  assumes "handlers_are hs gc e"
  shows "\<exists>e'. ExitHandlerOverrideGC call gc' e s = Some (e', s) \<and> handlers_are hs gc' e' \<and>
    oe_hooked e' = oe_hooked e \<and> oe_called_mode e' = oe_called_mode e"
  using assms by (cases "oe_once e") (auto simp: ExitHandlerOverrideGC_def onexit_handler_op_def handlers_are_def)

lemma call_slots_some:
  "call_slots call (xs @ map Some hs @ ys) (length xs) (length hs) s = call_all call hs s"
proof (induction hs arbitrary: xs s)
  case (Cons h hs)
  have "call_slots call (xs @ map Some (h # hs) @ ys) (Suc (length xs)) (length hs) t = call_all call hs t" for t
    using Cons.IH [of "xs @ [Some h]" t] by simp
  then show ?case by (cases "call h s") (simp_all add: call_slot_def nth_append)
qed simp

lemma ExitHandlerExec_ok:
  assumes "handlers_are hs gc e" "oe_called_mode e = 0"
  shows "\<exists>e'. ExitHandlerExec call e s = map_option (Pair e') (call_all call (hs @ (case gc of None \<Rightarrow> [] | Some h \<Rightarrow> [h])) s) \<and>
    oe_called_mode e' = 1 \<and> oe_once e' \<and> handlers_are hs gc e'"
proof -
  let ?e = "e\<lparr> oe_once := True, oe_called_mode := 1 \<rparr>"
  have slots: "(if oe_once e then e else e\<lparr> oe_once := True, oe_slots := replicate ON_EXIT_MAX_HANDLERS_COUNT None \<rparr>) =
      e\<lparr> oe_once := True \<rparr>"
    using assms(1) by (cases "oe_once e") (auto simp: handlers_are_def)
  have gc: "call_all call (case gc of None \<Rightarrow> [] | Some h \<Rightarrow> [h]) t = call_slot call gc t" for t
    by (cases gc; cases "call (the gc) t") (simp_all add: call_slot_def)
  have "call_slots call (oe_slots e) 0 (oe_slots_i e) s = call_all call hs s"
    using call_slots_some [of call "[]" hs] assms(1) by (simp add: handlers_are_def)
  then have "ExitHandlerExec call e s = map_option (Pair ?e) (call_all call (hs @ (case gc of None \<Rightarrow> [] | Some h \<Rightarrow> [h])) s)"
    using assms slots
    by (simp add: ExitHandlerExec_def onexit_handler_op_def Let_def call_all_append gc handlers_are_def map_option_bind
        cong: if_cong) (auto split: Option.bind_splits)
  then show ?thesis using assms(1) by (intro exI [of _ ?e]) (simp add: handlers_are_def)
qed

lemma ExitHandlerExec_again: "oe_called_mode e = 1 \<Longrightarrow> oe_once e \<Longrightarrow> ExitHandlerExec call e s = Some (e, s)"
  by (simp add: ExitHandlerExec_def onexit_handler_op_def)

fun add_all :: "('h \<Rightarrow> 's \<Rightarrow> 's option) \<Rightarrow> 'h list \<Rightarrow> 'h exit_handlers \<Rightarrow> 's \<Rightarrow> ('h exit_handlers \<times> 's) option" where
  "add_all call [] e s = Some (e, s)"
| "add_all call (h # hs) e s = do { (e, s) \<leftarrow> ExitHandlerAdd call (Some h) e s; add_all call hs e s }"

lemma add_all_ok:
  "handlers_are xs gc e \<Longrightarrow> length xs + length hs \<le> ON_EXIT_MAX_HANDLERS_COUNT \<Longrightarrow>
   \<exists>e'. add_all call hs e s = Some (e', s) \<and> handlers_are (xs @ hs) gc e' \<and>
     oe_hooked e' = oe_hooked e \<and> oe_called_mode e' = oe_called_mode e"
proof (induction hs arbitrary: xs e)
  case (Cons h hs)
  from ExitHandlerAdd_ok [OF Cons.prems(1), of call h s] Cons.prems(2) obtain e1 where
    e1: "ExitHandlerAdd call (Some h) e s = Some (e1, s)" "handlers_are (xs @ [h]) gc e1"
    "oe_hooked e1 = oe_hooked e" "oe_called_mode e1 = oe_called_mode e" by auto
  from Cons.IH [OF e1(2)] Cons.prems(2) e1 show ?case by auto
qed auto

text \<open>
  C37: up to ten registered handlers run at exit, each once and in the order of their registration,
  and the handler of the collector runs after all of them, although it was set first; running the
  handlers a second time does nothing. An eleventh handler is written outside the array.
\<close>

theorem exit_handlers_run_once:
  assumes "length hs \<le> 10"
  shows "\<exists>e0 e1 e2 e3. ExitHandlerSetup 0 no_handlers = Inr e0 \<and>
    ExitHandlerOverrideGC call (Some gc) e0 s = Some (e1, s) \<and> add_all call hs e1 s = Some (e2, s) \<and>
    exit_hooks call e2 s = map_option (Pair e3) (call_all call (hs @ [gc]) s) \<and>
    ExitHandlerIsExitting e3 = 1 \<and> exit_hooks call e3 t = Some (e3, t) \<and>
    (length hs = 10 \<longrightarrow> ExitHandlerAdd call h e2 s = None)"
proof -
  let ?e0 = "no_handlers\<lparr> oe_setup_once := True, oe_hooked := True \<rparr>"
  have s: "ExitHandlerSetup 0 no_handlers = Inr ?e0" by (simp add: ExitHandlerSetup_def no_handlers_def)
  have "handlers_are [] None ?e0" using handlers_are_none by (simp add: handlers_are_def no_handlers_def)
  from ExitHandlerOverrideGC_ok [OF this, of call "Some gc" s] obtain e1 where
    e1: "ExitHandlerOverrideGC call (Some gc) ?e0 s = Some (e1, s)" "handlers_are [] (Some gc) e1"
    "oe_hooked e1" "oe_called_mode e1 = 0" by (auto simp: no_handlers_def)
  from add_all_ok [OF e1(2), of hs call s] assms e1 obtain e2 where
    e2: "add_all call hs e1 s = Some (e2, s)" "handlers_are hs (Some gc) e2" "oe_hooked e2" "oe_called_mode e2 = 0"
    by (auto simp: ON_EXIT_MAX_HANDLERS_COUNT_def)
  from ExitHandlerExec_ok [OF e2(2,4), of call s] obtain e3 where
    e3: "ExitHandlerExec call e2 s = map_option (Pair e3) (call_all call (hs @ [gc]) s)"
    "oe_called_mode e3 = 1" "oe_once e3" by auto
  have "ExitHandlerAdd call h e2 s = None" if "length hs = 10"
    using that e2(2) by (cases hs) (auto simp: ExitHandlerAdd_def onexit_handler_op_def handlers_are_def
        ON_EXIT_MAX_HANDLERS_COUNT_def Let_def)
  moreover have "exit_hooks call e3 t = Some (e3, t)"
    using ExitHandlerExec_again [OF e3(2,3), of call t] by (simp add: exit_hooks_def)
  ultimately show ?thesis
    using s e1(1) e2(1,3) e3(1,2)
    by (intro exI [of _ ?e0] exI [of _ e1] exI [of _ e2] exI [of _ e3])
       (simp add: exit_hooks_def ExitHandlerIsExitting_def)
qed

theorem exit_handlers_run_once_witness:
  "\<exists>e0 e1 e2 e3. ExitHandlerSetup 0 no_handlers = Inr e0 \<and>
    ExitHandlerOverrideGC (\<lambda>h s. Some (s @ [h])) (Some ''gc'') e0 [] = Some (e1, []) \<and>
    add_all (\<lambda>h s. Some (s @ [h])) [''a'', ''b''] e1 [] = Some (e2, []) \<and>
    exit_hooks (\<lambda>h s. Some (s @ [h])) e2 [] = Some (e3, [''a'', ''b'', ''gc'']) \<and>
    ExitHandlerIsExitting e3 = 1 \<and> exit_hooks (\<lambda>h s. Some (s @ [h])) e3 [] = Some (e3, [])"
  using exit_handlers_run_once [of "[''a'', ''b'']" "\<lambda>h s. Some (s @ [h])" "''gc''" "[]" "[]" None] by simp

end
