(* ===== verification/GC.thy ===== *)
theory GC
  imports HashMapCorrect Fork OnExit
begin

text \<open>
  The garbage collector: the proxy and the switch of gc.h, and the collector of gcinit.h on the hash
  maps of hashmap.h.

  A \<open>void*\<close> is the \<open>int\<close> that \<open>intptr_t\<close> gives it, 0 for NULL. The record \<open>gc\<close> holds the
  installed function, the switch and the static variables of the collector. The two maps are
  \<open>None\<close> until the first call makes them. The structs behind the keys and values of the
  handlers map are the cells \<open>gc_holder\<close> and \<open>gc_destr\<close>; a key is the address of such a cell or
  the address of the variable \<open>data\<close> on the stack.

  The record \<open>process\<close> is what the collector acts on: the blocks that malloc has given out, what
  has been closed, and the answers wait will give.
\<close>

section \<open>The state\<close>

datatype destructor = pipe_close | msgq_close

record custom_ptr_holder =
  ch_ptr :: int
  ch_type_id :: int

record custom_ptr_destr =
  cd_ptr :: int
  cd_destr :: "destructor option"

datatype holder_addr = OnStack | OnHeap nat

record gc =
  gc_funct :: bool
  gc_current_mode :: bool
  gc_maps :: "((int, int) HashMap \<times> (holder_addr, nat) HashMap) option"
  gc_holder :: "nat \<Rightarrow> custom_ptr_holder option"
  gc_destr :: "nat \<Rightarrow> custom_ptr_destr option"
  gc_next :: nat
  gc_logEnabled :: int

definition gc_at_start :: gc where
  "gc_at_start = \<lparr> gc_funct = False, gc_current_mode = True, gc_maps = None, gc_holder = (\<lambda>_. None),
     gc_destr = (\<lambda>_. None), gc_next = 0, gc_logEnabled = 0 \<rparr>"

datatype close_call = Close int | MqClose int

record process =
  p_live :: "int set"
  p_closed :: "close_call list"
  p_waits :: "wait_answer list"

text \<open>
  How a call may end: it returns, it has called \<open>exit\<close> in the state given, or it is still waiting
  for a child.
\<close>

datatype ('s, 'a) gc_end = Returns 'a | Exits int 's | Waits

fun gc_bind :: "('s, 'a) gc_end option \<Rightarrow> ('a \<Rightarrow> ('s, 'b) gc_end option) \<Rightarrow> ('s, 'b) gc_end option" where
  "gc_bind None f = None"
| "gc_bind (Some (Returns x)) f = f x"
| "gc_bind (Some (Exits code s)) f = Some (Exits code s)"
| "gc_bind (Some Waits) f = Some Waits"

type_synonym gc_step = "gc \<times> process \<Rightarrow> (gc \<times> process, gc \<times> process) gc_end option"

section \<open>The switch\<close>

definition set_read_gc_status :: "bool \<Rightarrow> bool \<Rightarrow> gc \<Rightarrow> bool \<times> gc" where
  "set_read_gc_status w mode g =
     (let g = (if w then g\<lparr> gc_current_mode := mode \<rparr> else g) in (gc_current_mode g, g))"

definition GC_ON :: "gc \<Rightarrow> gc" where
  "GC_ON g = snd (set_read_gc_status True True g)"

definition GC_OFF :: "gc \<Rightarrow> gc" where
  "GC_OFF g = snd (set_read_gc_status True False g)"

definition GC_STATUS :: "gc \<Rightarrow> bool" where
  "GC_STATUS g = fst (set_read_gc_status False False g)"

section \<open>Pointers\<close>

definition as_ptr :: "int \<Rightarrow> int option" where
  "as_ptr p = (if p = 0 then None else Some p)"

text \<open>\<open>(int) (intptr_t) p\<close>, negated when positive: the \<open>key_size\<close> that stands for the pointer.\<close>

definition pointer_size :: "int \<Rightarrow> int" where
  "pointer_size p = (let phv = wrap32 p in if phv > 0 then phv * -1 else phv)"

definition pointer_bytes :: "int \<Rightarrow> int list" where
  "pointer_bytes p = map (\<lambda>i. signed_take_bit 7 (drop_bit (8 * i) p)) [0..<8]"

definition holder_bytes :: "custom_ptr_holder \<Rightarrow> int list" where
  "holder_bytes h = pointer_bytes (ch_ptr h) @ pointer_bytes (ch_type_id h)"

text \<open>The bytes behind a key, with \<open>data\<close> in the variable on the stack.\<close>

definition key_bytes :: "gc \<Rightarrow> custom_ptr_holder \<Rightarrow> holder_addr \<Rightarrow> int list" where
  "key_bytes g data k = (case k of OnStack \<Rightarrow> holder_bytes data
     | OnHeap a \<Rightarrow> (case gc_holder g a of None \<Rightarrow> [] | Some h \<Rightarrow> holder_bytes h))"

text \<open>
  FREE of the keys and values that HashMapSetDeep and the like give back. The address of the variable
  on the stack and the address of a cell that is gone must not be freed.
\<close>

fun forget :: "(holder_addr, nat) freed list \<Rightarrow> gc \<Rightarrow> gc option" where
  "forget [] g = Some g"
| "forget (FreedKey OnStack # fs) g = None"
| "forget (FreedKey (OnHeap a) # fs) g =
     (if gc_holder g a = None then None else forget fs (g\<lparr> gc_holder := (gc_holder g)(a := None) \<rparr>))"
| "forget (FreedValue a # fs) g =
     (if gc_destr g a = None then None else forget fs (g\<lparr> gc_destr := (gc_destr g)(a := None) \<rparr>))"

section \<open>Allocated and freed\<close>

text \<open>The loop that only counts.\<close>

definition count_loop :: "(int, int) HashMap \<Rightarrow> (nat \<times> (int, int) HashMap) option" where
  "count_loop hm = do { (us, hm) \<leftarrow> loop_reading (\<lambda>hm it. Some ((), hm)) hm; Some (length us, hm) }"

definition gc_allocated :: "int \<Rightarrow> (int, int) HashMap \<Rightarrow> (int, int) HashMap option" where
  "gc_allocated p mem = do {
     (_, mem) \<leftarrow> HashMapSet (\<lambda>_. []) mem (pointer_size p) (as_ptr p) (as_ptr p);
     (_, mem) \<leftarrow> count_loop mem;
     Some mem }"

definition gc_freed :: "int \<Rightarrow> (int, int) HashMap \<Rightarrow> (int, int) HashMap option" where
  "gc_freed p mem = do {
     (_, mem) \<leftarrow> HashMapRemove (\<lambda>_. []) mem (pointer_size p) (as_ptr p);
     (_, mem) \<leftarrow> count_loop mem;
     Some mem }"

section \<open>Cleaning up\<close>

definition pipe_destructor :: "int \<Rightarrow> process \<Rightarrow> process" where
  "pipe_destructor p w = (let descr = wrap32 p in
     if descr \<noteq> -1 then w\<lparr> p_closed := p_closed w @ [Close descr] \<rparr> else w)"

definition msgq_destructor :: "int \<Rightarrow> process \<Rightarrow> process" where
  "msgq_destructor p w = (let descr = wrap32 p in
     if descr \<noteq> -1 then w\<lparr> p_closed := p_closed w @ [MqClose descr] \<rparr> else w)"

fun destruct :: "destructor \<Rightarrow> int \<Rightarrow> process \<Rightarrow> process" where
  "destruct pipe_close p w = pipe_destructor p w"
| "destruct msgq_close p w = msgq_destructor p w"

lemmas destructor_defs = pipe_destructor_def msgq_destructor_def

text \<open>The body of the loop over the handlers, for the key and the value of a position.\<close>

definition call_destructor :: "gc \<Rightarrow> holder_addr option \<times> nat option \<Rightarrow> process \<Rightarrow> process option" where
  "call_destructor g kv w = (case kv of
     (Some (OnHeap a), Some b) \<Rightarrow> do {
       data \<leftarrow> gc_holder g a;
       destr \<leftarrow> gc_destr g b;
       destructor \<leftarrow> cd_destr destr;
       Some (destruct destructor (ch_ptr data) w) }
   | (Some OnStack, Some b) \<Rightarrow> None
   | _ \<Rightarrow> Some w)"

fun call_destructors :: "gc \<Rightarrow> (holder_addr option \<times> nat option) list \<Rightarrow> process \<Rightarrow> process option" where
  "call_destructors g [] w = Some w"
| "call_destructors g (kv # kvs) w = do { w \<leftarrow> call_destructor g kv w; call_destructors g kvs w }"

text \<open>free of the C library: of a block that is not allocated it is undefined.\<close>

definition libc_free :: "int option \<Rightarrow> process \<Rightarrow> process option" where
  "libc_free p w = (case p of None \<Rightarrow> Some w
     | Some a \<Rightarrow> if a \<in> p_live w then Some (w\<lparr> p_live := p_live w - {a} \<rparr>) else None)"

fun free_all :: "int option list \<Rightarrow> process \<Rightarrow> process option" where
  "free_all [] w = Some w"
| "free_all (p # ps) w = do { w \<leftarrow> libc_free p w; free_all ps w }"

definition read_handler ::
  "(holder_addr, nat) HashMap \<Rightarrow> HashMapIterator
    \<Rightarrow> ((holder_addr option \<times> nat option) \<times> (holder_addr, nat) HashMap) option" where
  "read_handler hm i = do {
     (data, hm) \<leftarrow> HashMapGetKey hm i;
     (destr, hm) \<leftarrow> HashMapGetValue hm i;
     Some ((data, destr), hm) }"

text \<open>Modes 2 (FREE_ALL), 3 (EXIT with code \<open>p\<close>) and 5 (FORK_FREE).\<close>

definition gc_cleanup ::
  "int \<Rightarrow> int \<Rightarrow> (int, int) HashMap \<Rightarrow> (holder_addr, nat) HashMap \<Rightarrow> gc \<Rightarrow> process
    \<Rightarrow> (gc \<times> process, gc \<times> process) gc_end option" where
  "gc_cleanup mode p mem handlers g w = do {
     (kvs, handlers) \<leftarrow> loop_reading read_handler handlers;
     w \<leftarrow> call_destructors g kvs w;
     (ptrs, mem) \<leftarrow> LOOP_HASHMAP mem;
     w \<leftarrow> free_all ptrs w;
     if mode = 5 then Some (Returns (g\<lparr> gc_maps := Some (mem, handlers) \<rparr>, w))
     else do {
       mem \<leftarrow> HashMapDestroy mem;
       (freed, handlers) \<leftarrow> HashMapDestroyDeep handlers;
       g \<leftarrow> forget freed g;
       let g = g\<lparr> gc_maps := Some (mem, handlers) \<rparr>;
       case processWaitForAll (p_waits w) of None \<Rightarrow> Some Waits
       | Some (_, waits) \<Rightarrow>
           let w = w\<lparr> p_waits := waits \<rparr> in
           if mode = 3 then Some (Exits (wrap32 p) (g, w)) else Some (Returns (g, w)) } }"

section \<open>Custom destructors\<close>

definition gc_new ::
  "int \<Rightarrow> destructor option \<Rightarrow> int \<Rightarrow> (holder_addr, nat) HashMap \<Rightarrow> gc
    \<Rightarrow> ((holder_addr, nat) HashMap \<times> gc) option" where
  "gc_new p q r handlers g =
     (if p = 0 then Some (handlers, g)
      else do {
        let data = \<lparr> ch_ptr = p, ch_type_id = r \<rparr>;
        let destr = \<lparr> cd_ptr = p, cd_destr = q \<rparr>;
        let key = gc_next g;
        let val = Suc key;
        let g = g\<lparr> gc_holder := (gc_holder g)(key \<mapsto> data), gc_destr := (gc_destr g)(val \<mapsto> destr),
                   gc_next := Suc val \<rparr>;
        (freed, handlers) \<leftarrow> HashMapSetDeep (key_bytes g data) handlers 16 (Some (OnHeap key)) (Some val);
        g \<leftarrow> forget freed g;
        Some (handlers, g) })"

definition remove_handler ::
  "custom_ptr_holder \<Rightarrow> (holder_addr, nat) HashMap \<Rightarrow> gc \<Rightarrow> ((holder_addr, nat) HashMap \<times> gc) option" where
  "remove_handler data handlers g = do {
     (freed, handlers) \<leftarrow> HashMapRemoveDeep (key_bytes g data) handlers 16 (Some OnStack);
     g \<leftarrow> forget freed g;
     Some (handlers, g) }"

definition gc_del ::
  "int \<Rightarrow> int \<Rightarrow> (holder_addr, nat) HashMap \<Rightarrow> gc \<Rightarrow> ((holder_addr, nat) HashMap \<times> gc) option" where
  "gc_del p r handlers g =
     (let data = \<lparr> ch_ptr = p, ch_type_id = r \<rparr> in
      if gc_logEnabled g \<noteq> 0 then do {
        (found, handlers) \<leftarrow> HashMapGet (key_bytes g data) handlers 16 (Some OnStack);
        case found of None \<Rightarrow> Some (handlers, g)
        | Some b \<Rightarrow> do { destr \<leftarrow> gc_destr g b; remove_handler data handlers g } }
      else remove_handler data handlers g)"

section \<open>The collector\<close>

definition gc_mem_tree :: "int \<Rightarrow> int \<Rightarrow> destructor option \<Rightarrow> int \<Rightarrow> gc_step" where
  "gc_mem_tree mode p q r s = (case s of (g, w) \<Rightarrow>
     if \<not> GC_STATUS g then Some (Returns (g, w))
     else do {
       let g = GC_OFF g;
       (mem, handlers) \<leftarrow> (case gc_maps g of Some maps \<Rightarrow> Some maps
         | None \<Rightarrow> do {
             mem \<leftarrow> HashMapNew HashMapVoidPtrCmp;
             handlers \<leftarrow> HashMapNew HashMapVoidPtrCmp;
             Some (mem, handlers) });
       let g = g\<lparr> gc_maps := Some (mem, handlers) \<rparr>;
       gc_bind
         (if mode = 0 then do {
            mem \<leftarrow> gc_allocated p mem; Some (Returns (g\<lparr> gc_maps := Some (mem, handlers) \<rparr>, w)) }
          else if mode = 1 then do {
            mem \<leftarrow> gc_freed p mem; Some (Returns (g\<lparr> gc_maps := Some (mem, handlers) \<rparr>, w)) }
          else if mode = 2 \<or> mode = 3 \<or> mode = 5 then gc_cleanup mode p mem handlers g w
          else if mode = 4 then Some (Returns (g\<lparr> gc_logEnabled := wrap32 p \<rparr>, w))
          else if mode = 6 then do {
            (handlers, g) \<leftarrow> gc_new p q r handlers g;
            Some (Returns (g\<lparr> gc_maps := Some (mem, handlers) \<rparr>, w)) }
          else if mode = 7 then do {
            (handlers, g) \<leftarrow> gc_del p r handlers g;
            Some (Returns (g\<lparr> gc_maps := Some (mem, handlers) \<rparr>, w)) }
          else Some (Returns (g, w)))
         (\<lambda>(g, w). Some (Returns (GC_ON g, w))) })"

definition gc_mem_tree_proxy :: "int \<Rightarrow> int \<Rightarrow> destructor option \<Rightarrow> int \<Rightarrow> gc_step" where
  "gc_mem_tree_proxy mode p q r s =
     (if gc_funct (fst s) then gc_mem_tree mode p q r s else Some (Returns s))"

definition GC_ON_ALLOC :: "int \<Rightarrow> gc_step" where
  "GC_ON_ALLOC p = gc_mem_tree_proxy 0 p None 0"

definition GC_ON_FREE :: "int \<Rightarrow> gc_step" where
  "GC_ON_FREE p = gc_mem_tree_proxy 1 p None 0"

definition GC_N :: "int \<Rightarrow> int \<Rightarrow> destructor \<Rightarrow> gc_step" where
  "GC_N type_id p handler = gc_mem_tree_proxy 6 p (Some handler) type_id"

definition GC_D :: "int \<Rightarrow> int \<Rightarrow> gc_step" where
  "GC_D type_id p = gc_mem_tree_proxy 7 p None type_id"

definition GC_FREE_ALL :: gc_step where
  "GC_FREE_ALL = gc_mem_tree_proxy 2 0 None 0"

definition GC_FORK_FREE :: gc_step where
  "GC_FORK_FREE = gc_mem_tree_proxy 5 0 None 0"

definition GC_EXIT :: "int \<Rightarrow> gc_step" where
  "GC_EXIT code = gc_mem_tree_proxy 3 code None 0"

definition GC_LOG_ON :: gc_step where
  "GC_LOG_ON = gc_mem_tree_proxy 4 1 None 0"

definition GC_LOG_OFF :: gc_step where
  "GC_LOG_OFF = gc_mem_tree_proxy 4 0 None 0"

text \<open>GC_SETUP: the exit hook, the slot of the collector and the function pointer.\<close>

definition gc_exit_hook :: gc_step where
  "gc_exit_hook = GC_FREE_ALL"

definition gc_init :: "int \<Rightarrow> 'h \<Rightarrow> 'h exit_handlers \<Rightarrow> gc \<Rightarrow> stop + 'h exit_handlers \<times> gc" where
  "gc_init registered hook e g =
     and_then (ExitHandlerSetup registered e) (\<lambda>e.
       case ExitHandlerOverrideGC (\<lambda>_ u. Some u) (Some hook) e () of
         None \<Rightarrow> Inl Undefined
       | Some (e, _) \<Rightarrow> Inr (e, g\<lparr> gc_funct := True \<rparr>))"

lemmas gc_defs [c_def] = GC_ON_def GC_OFF_def GC_STATUS_def set_read_gc_status_def

end
