(* ===== verification/TesterLife.thy ===== *)
theory TesterLife
  imports TesterCorrect QueueLife Syslog GC "HOL-Library.Multiset"
begin

text \<open>
  The whole of the client, tester.c: the command line, the collector, the registration with the server
  and the queues in front of its loop; behind it the report, the words that got no answer and the queues
  it closes. \<open>Tester\<close> is the loop. \<open>later\<close> is what the server, the other clients and the messages
  of this one have made of the queues when the loop is left.
\<close>

section \<open>The program\<close>

text \<open>\<open>log_set(0)\<close>, then the loop over the arguments.\<close>

definition tester_flags :: "string list \<Rightarrow> int" where
  "tester_flags args =
     fold (\<lambda>arg status. if arg = ''-v'' then log_set default_log True status else status)
       args (log_set default_log False 1)"

text \<open>Up to the loop; the name is written to an array of 40 bytes.\<close>

definition tester_begin ::
  "bool \<Rightarrow> int \<Rightarrow> int \<Rightarrow> string list \<Rightarrow> FILE \<Rightarrow> mq_system
    \<Rightarrow> stop + (unit exit_handlers \<times> gc \<times> int \<times> tester \<times> MsgQueue \<times> MsgQueue \<times> mq_system) option" where
  "tester_begin available registered pid args stdin s =
     and_then (gc_init registered () no_handlers gc_at_start) (\<lambda>(e, g).
       if length (inputQueueName pid) + 1 > 40 then Inl Undefined
       else when_done (tester_setup available pid s) (\<lambda>(reportQueue, inputQueue, s).
         Inr (Some (e, g, tester_flags args, tester_start pid stdin, reportQueue, inputQueue, s))))"

text \<open>Behind the loop: the exit code, the output, the words that are freed, and the system.\<close>

definition tester_end ::
  "tester \<Rightarrow> MsgQueue \<Rightarrow> MsgQueue \<Rightarrow> mq_system \<Rightarrow> stop + (int \<times> string \<times> string list \<times> mq_system)" where
  "tester_end t reportQueue inputQueue s = (case tester_finish t of
     None \<Rightarrow> Inl Undefined
   | Some (report, words, results) \<Rightarrow>
       and_then (tester_close reportQueue inputQueue s) (\<lambda>s. Inr (0, tt_out t @ report, words, s)))"

definition tester_main ::
  "bool \<Rightarrow> int \<Rightarrow> int \<Rightarrow> string list \<Rightarrow> FILE \<Rightarrow> string list list \<Rightarrow> (mq_system \<Rightarrow> mq_system) \<Rightarrow> mq_system
    \<Rightarrow> stop + (int \<times> string \<times> string list \<times> mq_system) option" where
  "tester_main available registered pid args stdin arrivals later s =
     when_done (tester_begin available registered pid args stdin s) (\<lambda>(_, _, _, t, reportQueue, inputQueue, s).
     and_then (tester_run pid arrivals [] t) (\<lambda>(t, _, left).
       if \<not> left then Inr None
       else and_then (tester_end t reportQueue inputQueue (later s)) (\<lambda>r. Inr (Some r))))"

section \<open>Registration\<close>

text \<open>
  The system a client finds: the queue for registrations with \<open>ms\<close> in it and the one for requests
  with \<open>rs\<close>, both made by the server, and no queue of its own name.
\<close>

definition server_is_up :: "int \<Rightarrow> nat \<Rightarrow> string list \<Rightarrow> string list \<Rightarrow> mq_system \<Rightarrow> bool" where
  "server_is_up pid i ms rs s \<longleftrightarrow>
     map_of (sys_names s) ''/FinAutomRegisterQueue'' = Some i \<and>
     sys_queue s i = \<lparr> mq_maxmsg = 10, mq_msgsize = 1020, mq_msgs = ms \<rparr> \<and>
     (\<exists>j. j \<noteq> i \<and> map_of (sys_names s) ''/FinAutomReportQueue'' = Some j \<and> j < sys_next_queue s \<and>
       sys_queue s j = \<lparr> mq_maxmsg = 10, mq_msgsize = 1020, mq_msgs = rs \<rparr>) \<and>
     (\<forall>m \<in> set rs. length m < 1020) \<and> i < sys_next_queue s \<and>
     map_of (sys_names s) (inputQueueName pid) = None \<and> (\<forall>e \<in> set (sys_desc s). fst e < sys_next_desc s)"

lemma queue_names_ok: "mq_name_ok ''/FinAutomRegisterQueue''" "mq_name_ok ''/FinAutomReportQueue''"
  by simp_all

text \<open>Opening a queue that exists.\<close>

lemma open_queue_existing:
  assumes "mq_name_ok n" "length n < 50" "map_of (sys_names s) n = Some i"
    "sys_queue s i = \<lparr> mq_maxmsg = 10, mq_msgsize = 1020, mq_msgs = ms \<rparr>"
  shows "msgQueueOpenEx True (Some n) MSG_SIZE MSG_QUEUE_SIZE b s =
    Inr (\<lparr> q_maxmsg = 10, q_msgsize = 1020, q_desc = sys_next_desc s, q_name = Some n, q_buff_size = 1021,
           q_is_blocking = b \<rparr>,
         s\<lparr> sys_desc := (sys_next_desc s, i, \<not> b) # sys_desc s, sys_next_desc := sys_next_desc s + 1 \<rparr>)"
  using assms by (simp add: msgQueueOpenEx_def sys_mq_open_def Let_def config)

text \<open>
  The registration: one message with the id and the name of the queue for answers, which is new and
  empty; the queue for requests is open. If the queue for registrations is full, the client waits.
\<close>

lemma tester_setup_ok:
  assumes up: "server_is_up pid i ms rs s" and pid: "in_int pid" and room: "length ms < 10"
  shows "\<exists>rq iq s'. tester_setup True pid s = Inr (Some (rq, iq, s')) \<and>
    sys_queue s' i = \<lparr> mq_maxmsg = 10, mq_msgsize = 1020, mq_msgs = ms @ [write_register pid (inputQueueName pid)] \<rparr> \<and>
    q_rep rq 10 1020 True s' rs \<and> q_rep iq 10 1020 False s' [] \<and> q_name rq = Some ''/FinAutomReportQueue'' \<and>
    q_name iq = Some (inputQueueName pid) \<and> q_desc rq \<noteq> q_desc iq"
proof -
  let ?d = "sys_next_desc s" and ?n = "inputQueueName pid" and ?m = "write_register pid (inputQueueName pid)"
  obtain j where u: "map_of (sys_names s) ''/FinAutomRegisterQueue'' = Some i"
    "sys_queue s i = \<lparr> mq_maxmsg = 10, mq_msgsize = 1020, mq_msgs = ms \<rparr>" "j \<noteq> i"
    "map_of (sys_names s) ''/FinAutomReportQueue'' = Some j" "j < sys_next_queue s"
    "sys_queue s j = \<lparr> mq_maxmsg = 10, mq_msgsize = 1020, mq_msgs = rs \<rparr>" "\<forall>m \<in> set rs. length m < 1020"
    "i < sys_next_queue s" "map_of (sys_names s) ?n = None" "\<forall>e \<in> set (sys_desc s). fst e < ?d"
    using up by (auto simp: server_is_up_def)
  note own = own_queue_name [OF pid]
  note len = write_register_length [OF pid]
  define q1 where "q1 = \<lparr> q_maxmsg = 10, q_msgsize = 1020, q_desc = ?d, q_name = Some ''/FinAutomRegisterQueue'',
    q_buff_size = 1021, q_is_blocking = True \<rparr>"
  define s1 where "s1 = s\<lparr> sys_desc := (?d, i, False) # sys_desc s, sys_next_desc := ?d + 1 \<rparr>"
  define s2 where "s2 = s1\<lparr> sys_queue := (sys_queue s)(i := \<lparr> mq_maxmsg = 10, mq_msgsize = 1020, mq_msgs = ms @ [?m] \<rparr>) \<rparr>"
  define s3 where "s3 = s2\<lparr> sys_desc := sys_desc s \<rparr>"
  have o1: "msgQueueOpen True (Some ''/FinAutomRegisterQueue'') MSG_SIZE MSG_QUEUE_SIZE s = Inr (q1, s1)"
    using open_queue_existing [OF queue_names_ok(1) _ u(1,2), of True] by (simp add: msgQueueOpen_def q1_def s1_def)
  have w: "msgQueueWritef q1 ''register_tester: %lld %s'' [AInt pid, AStr ?n] s1 = Inr (Some (0, s2))"
    using len room u(2) unfolding msgQueueWritef_def write_register_def
    by (simp add: q1_def s1_def s2_def msgQueueWrite_def sys_mq_send_def Let_def write_register_def)
  have "filter (\<lambda>e. fst e \<noteq> ?d) (sys_desc s) = sys_desc s" using u(10) by (intro filter_True) auto
  then have c: "\<exists>q'. msgQueueClose q1 s2 = Inr (1, q', s3)"
    by (simp add: msgQueueClose_def msgQueueCloseEx_def sys_mq_close_def q1_def s1_def s2_def s3_def)
  define rq where "rq = \<lparr> q_maxmsg = 10, q_msgsize = 1020, q_desc = ?d + 1, q_name = Some ''/FinAutomReportQueue'',
    q_buff_size = 1021, q_is_blocking = True \<rparr>"
  define s4 where "s4 = s3\<lparr> sys_desc := (?d + 1, j, False) # sys_desc s, sys_next_desc := ?d + 1 + 1 \<rparr>"
  have j3: "map_of (sys_names s3) ''/FinAutomReportQueue'' = Some j" "sys_queue s3 j = \<lparr> mq_maxmsg = 10, mq_msgsize = 1020, mq_msgs = rs \<rparr>"
    using u by (simp_all add: s3_def s2_def s1_def)
  have o2: "msgQueueOpen True (Some ''/FinAutomReportQueue'') MSG_SIZE MSG_QUEUE_SIZE s3 = Inr (rq, s4)"
    using open_queue_existing [OF queue_names_ok(2) _ j3, of True]
    by (simp add: msgQueueOpen_def rq_def s4_def s3_def s2_def s1_def)
  have rq: "q_rep rq 10 1020 True s4 rs"
    using u queue_names_ok(2) by (simp add: q_rep_def rq_def s4_def s3_def s2_def s1_def config)
  have own4: "map_of (sys_names s4) ?n = None" using u(9) by (simp add: s4_def s3_def s2_def s1_def)
  from open_queue_new [OF _ _ own4, of False] own obtain iq s5 where
    o3: "msgQueueOpenNonBlocking True (Some ?n) MSG_SIZE MSG_QUEUE_SIZE s4 = Inr (iq, s5)" "q_rep iq 10 1020 False s5 []"
    "q_name iq = Some ?n" "q_desc iq = sys_next_desc s4" "sys_names s5 = (?n, sys_next_queue s4) # sys_names s4"
    "sys_desc s5 = (sys_next_desc s4, sys_next_queue s4, True) # sys_desc s4"
    "sys_queue s5 = (sys_queue s4)(sys_next_queue s4 := \<lparr> mq_maxmsg = 10, mq_msgsize = 1020, mq_msgs = [] \<rparr>)"
    by (auto simp: msgQueueOpenNonBlocking_def)
  have n4: "sys_next_queue s4 = sys_next_queue s" "sys_names s4 = sys_names s" "sys_next_desc s4 = ?d + 2"
    by (simp_all add: s4_def s3_def s2_def s1_def)
  have "?n \<noteq> ''/FinAutomReportQueue''" using u(4,9) by auto
  then have rq5: "q_rep rq 10 1020 True s5 rs"
    by (intro q_rep_frame [OF rq o3(5,6,7)]) (use u(4,5) n4 in \<open>auto simp: rq_def\<close>)
  have "sys_queue s5 i = \<lparr> mq_maxmsg = 10, mq_msgsize = 1020, mq_msgs = ms @ [?m] \<rparr>"
    using u(8) by (simp add: o3(7) n4) (simp add: s4_def s3_def s2_def)
  moreover have "tester_setup True pid s = Inr (Some (rq, iq, s5))"
    using o1 w c o2 o3(1) by (auto simp: tester_setup_def)
  ultimately show ?thesis
    using rq5 o3(2-4) n4 by (intro exI [of _ rq] exI [of _ iq] exI [of _ s5]) (simp add: rq_def)
qed

lemma tester_setup_waits:
  assumes "server_is_up pid i ms rs s" "in_int pid" "10 \<le> length ms"
  shows "tester_setup True pid s = Inr None"
proof -
  have u: "map_of (sys_names s) ''/FinAutomRegisterQueue'' = Some i"
    "sys_queue s i = \<lparr> mq_maxmsg = 10, mq_msgsize = 1020, mq_msgs = ms \<rparr>" using assms(1) by (simp_all add: server_is_up_def)
  show ?thesis
    using open_queue_existing [OF queue_names_ok(1) _ u, of True] write_register_length [OF assms(2)] assms(3) u(2)
    by (simp add: tester_setup_def msgQueueOpen_def msgQueueWritef_def msgQueueWrite_def sys_mq_send_def Let_def
        write_register_def)
qed

section \<open>What is freed\<close>

lemma slot_indices: "{l. slot_of vs l \<noteq> None} = int ` {i. i < length vs \<and> vs ! i \<noteq> None}"
  by (auto simp: slot_of_def in_range_def image_iff split: if_splits) (metis int_nat_eq nat_less_iff)

text \<open>The values of a list of slots, with the positions they are at.\<close>

lemma mset_of_slots:
  "mset (List.map_filter id vs) = image_mset (\<lambda>l. the (slot_of vs l)) (mset_set {l. slot_of vs l \<noteq> None})"
proof -
  let ?I = "[i \<leftarrow> [0..<length vs]. vs ! i \<noteq> None]"
  have "List.map_filter id vs = map the (filter (\<lambda>v. v \<noteq> None) vs)" by (induction vs) (auto simp: List.map_filter_simps)
  also have "filter (\<lambda>v. v \<noteq> None) vs = map ((!) vs) ?I"
    by (subst map_nth [of vs, symmetric], subst filter_map) (simp add: comp_def)
  finally have "List.map_filter id vs = map (\<lambda>i. the (vs ! i)) ?I" by (simp only: map_map comp_def)
  then have "mset (List.map_filter id vs) = image_mset (\<lambda>i. the (vs ! i)) (mset ?I)" by (simp only: mset_map)
  also have "mset ?I = mset_set {i. i < length vs \<and> vs ! i \<noteq> None}"
    by (subst mset_set_set [symmetric]) (simp, rule arg_cong [of _ _ mset_set], auto)
  also have "image_mset (\<lambda>i. the (vs ! i)) \<dots> = image_mset (\<lambda>l. the (slot_of vs l)) (mset_set (int ` {i. i < length vs \<and> vs ! i \<noteq> None}))"
    by (subst image_mset_mset_set [symmetric])
       (auto simp: image_mset.compositionality comp_def slot_of_def in_range_def intro!: image_mset_cong)
  finally show ?thesis by (simp only: slot_indices)
qed

lemma tester_finish_ok:
  assumes "al_inv B (tt_results t)"
  shows "\<exists>words results. tester_finish t = Some (tester_report_text t, words, results) \<and>
    mset words = image_mset (\<lambda>l. the (al_slot (tt_results t) l)) (mset_set {l. al_slot (tt_results t) l \<noteq> None})"
proof -
  let ?vs = "al_abs (tt_results t)"
  have rep: "al_rep (tt_results t) ?vs" using assms by (simp add: al_inv_def al_ok_def)
  from ArrayListMapNodes_ok [OF rep, of id True] obtain l' where
    "ArrayListMapNodes (Some (tt_results t)) id True = Some (Some l', ?vs)" by auto
  then have "al_map_loop (tt_results t) (ArrayListBegin (Some (tt_results t))) id True = Some (l', ?vs)"
    by (auto simp: ArrayListMapNodes_def bind_eq_Some_conv)
  then show ?thesis by (simp add: tester_finish_def mset_of_slots al_slot_def)
qed

text \<open>As many words are open as requests have no answer.\<close>

lemma open_words_card:
  assumes "books_ok reqs ans loc"
  shows "card {l. open_words reqs ans l \<noteq> None} + length ans = length reqs"
proof -
  have d: "distinct (map fst reqs)" "distinct (map fst ans)" using assms by (simp_all add: books_ok_def)
  have c: "card (fst ` set reqs) = length reqs" "card (fst ` set ans) = length ans"
    using distinct_card [OF d(1)] distinct_card [OF d(2)] by simp_all
  have sub: "fst ` set ans \<subseteq> fst ` set reqs" using assms by (rule answered_numbers)
  have "{l. open_words reqs ans l \<noteq> None} = fst ` set reqs - fst ` set ans"
    using map_of_eq_None_iff [of reqs] by (auto simp: open_words_def simp del: not_None_eq split: if_splits)
  with card_Diff_subset [OF _ sub] card_mono [OF _ sub] c show ?thesis by simp
qed

section \<open>From the start to the end\<close>

lemma tester_flags_ok: "tester_flags args = (if ''-v'' \<in> set args then 1 else 0)"
proof -
  have "fold (\<lambda>arg status. if arg = ''-v'' then log_set default_log True status else status) args s =
      (if ''-v'' \<in> set args then 1 else s)" for s
    by (induction args arbitrary: s) (auto simp: log_set_def default_log_def log_on_def)
  then show ?thesis by (simp add: tester_flags_def log_set_def default_log_def log_off_def)
qed

lemma gc_init_returns: "\<exists>e g. gc_init 0 h no_handlers gc_at_start = Inr (e, g)"
  by (simp add: gc_init_def ExitHandlerSetup_def no_handlers_def ExitHandlerOverrideGC_def onexit_handler_op_def Let_def)

lemma tester_close_ok:
  assumes "q_open s rq" "q_open s iq" "q_name iq = Some n" "map_of (sys_names s) n \<noteq> None" "q_desc rq \<noteq> q_desc iq"
  shows "tester_close rq iq s = Inr (without_name n (without_desc {q_desc iq, q_desc rq} s))"
proof -
  from msgQueueClose_open [OF assms(1)] obtain q1 where
    c: "msgQueueClose rq s = Inr (1, q1, without_desc {q_desc rq} s)" by blast
  have "q_open (without_desc {q_desc rq} s) iq" using assms(2,5) by (simp add: q_open_without)
  from msgQueueRemove_open [OF this assms(3)] assms(4) obtain q2 where
    "msgQueueRemove iq (without_desc {q_desc rq} s) = Inr (1, q2, without_name n (without_desc {q_desc iq} (without_desc {q_desc rq} s)))"
    by auto
  with c show ?thesis by (simp add: tester_close_def insert_commute)
qed


text \<open>The system behind the start of a server, and a client that is told to leave before it got its answer.\<close>

definition demo_system :: mq_system where
  "demo_system = \<lparr> sys_names = [(''/FinAutomReportQueue'', 1), (''/FinAutomRegisterQueue'', 0)],
     sys_queue = (\<lambda>_. \<lparr> mq_maxmsg = 10, mq_msgsize = 1020, mq_msgs = [] \<rparr>), sys_desc = [],
     sys_next_queue = 2, sys_next_desc = 3 \<rparr>"

lemma demo_system_up: "server_is_up 5 0 [] [] demo_system"
proof -
  have "inputQueueName 5 \<noteq> ''/FinAutomReportQueue''" "inputQueueName 5 \<noteq> ''/FinAutomRegisterQueue''"
    by (simp_all add: inputQueueName_def sprintf_def formats)
  then show ?thesis by (simp add: server_is_up_def demo_system_def)
qed


end
