(* ===== verification/Network.thy ===== *)
theory Network
  imports Run TesterCorrect ServerProperties "HOL-Library.Multiset"
begin

text \<open>
  The whole program: one server, any number of clients and the workers the server starts, each running
  the code of its component, composed as the processes are composed by the queues, the pipes and fork.

  The state holds the server with its three queues, the clients with the queues of their answers, and the
  workers that were started and have not ended, each with the command line and the descriptors it inherits.
  A queue is the list of its messages and holds at most \<open>MSG_QUEUE_SIZE\<close> of them; whoever writes waits for room.
  A client makes half a round at a time, the server one move, a worker runs from its start to its message;
  anything may happen between. What the kernel answers is arbitrary, except that process ids and
  descriptor numbers are numbers of the C type, and that a new worker does not get the id of a
  worker that runs or of one whose result the server has not read.
\<close>

record client =
  cl_tester :: tester
  cl_sent :: bool
  cl_left :: bool

record network =
  nw_server :: system
  nw_clients :: "int \<Rightarrow> client option"
  nw_inbox :: "int \<Rightarrow> string list"
  nw_workers :: "(int \<times> string list \<times> descriptors) list"

text \<open>What a move of the server adds to its log, and what becomes of it outside.\<close>

definition new_events :: "system \<Rightarrow> system \<Rightarrow> event list" where
  "new_events y y' = drop (length (sv_log (sy_server y))) (sv_log (sy_server y'))"

fun sent_to :: "string \<Rightarrow> event list \<Rightarrow> string list" where
  "sent_to q [] = []"
| "sent_to q (SentTo q' m # es) = (if q' = q then m # sent_to q es else sent_to q es)"
| "sent_to q (Spawned _ _ # es) = sent_to q es"

fun spawned :: "event list \<Rightarrow> (int \<times> string list) list" where
  "spawned [] = []"
| "spawned (SentTo _ _ # es) = spawned es"
| "spawned (Spawned pid argv # es) = (pid, argv) # spawned es"

definition deliver :: "event list \<Rightarrow> (int \<Rightarrow> string list) \<Rightarrow> int \<Rightarrow> string list" where
  "deliver es inbox pid = inbox pid @ sent_to (inputQueueName pid) es"

text \<open>The kernel has given the new worker an id that is in no one's use.\<close>

definition fresh_workers :: "network \<Rightarrow> system \<Rightarrow> bool" where
  "fresh_workers n y \<longleftrightarrow> (\<forall>(wp, argv) \<in> set (spawned (new_events (nw_server n) y)).
     in_int wp \<and> wp \<notin> fst ` set (nw_workers n) \<and> (\<forall>r. write_run_terminate wp r \<notin> set (sy_result (nw_server n)))) \<and>
     in_int (k_next_fd (sv_fds (sy_server y)))"

definition left_loop :: "tester \<Rightarrow> bool" where
  "left_loop t \<longleftrightarrow> \<not> tt_read_input t \<and> \<not> tt_ans t < tt_req t"

text \<open>
  Every queue holds at most \<open>MSG_QUEUE_SIZE\<close> messages. All writes are blocking, so a process whose message
  finds no room waits: its step is only possible in a state with room. A move of the server that sends
  something is one step, so it waits as a whole.
\<close>

definition fits_queue :: "string list \<Rightarrow> bool" where
  "fits_queue ms \<longleftrightarrow> int (length ms) \<le> MSG_QUEUE_SIZE"

text \<open>The queue the workers write to is the one the server reads, of the size the server gave it.\<close>

definition shared_queue :: "network \<Rightarrow> nat \<Rightarrow> mq_system \<Rightarrow> bool" where
  "shared_queue n i s \<longleftrightarrow> result_queue i s \<and> mq_maxmsg (sys_queue s i) = nat MSG_QUEUE_SIZE \<and>
     mq_msgs (sys_queue s i) = sy_result (nw_server n)"

inductive net_step :: "(int \<Rightarrow> string) \<Rightarrow> network \<Rightarrow> network \<Rightarrow> bool" for inputs where
  enters: "nw_clients n pid = None \<Longrightarrow> in_int pid \<Longrightarrow>
    fits_queue (sy_register (nw_server n) @ [write_register pid (inputQueueName pid)]) \<Longrightarrow>
    net_step inputs n (n\<lparr> nw_clients := (nw_clients n)(pid \<mapsto>
        \<lparr> cl_tester = tester_start pid (fresh_file (inputs pid)), cl_sent = False, cl_left = False \<rparr>),
      nw_server := (nw_server n)\<lparr> sy_register := sy_register (nw_server n) @ [write_register pid (inputQueueName pid)] \<rparr> \<rparr>)"
| sends: "nw_clients n pid = Some c \<Longrightarrow> \<not> cl_left c \<Longrightarrow> \<not> cl_sent c \<Longrightarrow> tester_read pid (cl_tester c) = Inr t \<Longrightarrow>
    fits_queue (sy_report (nw_server n) @ drop (length (tt_sent (cl_tester c))) (tt_sent t)) \<Longrightarrow>
    net_step inputs n (n\<lparr> nw_clients := (nw_clients n)(pid \<mapsto> c\<lparr> cl_tester := t, cl_sent := True \<rparr>),
      nw_server := (nw_server n)\<lparr> sy_report := sy_report (nw_server n) @ drop (length (tt_sent (cl_tester c))) (tt_sent t) \<rparr> \<rparr>)"
| receives: "nw_clients n pid = Some c \<Longrightarrow> \<not> cl_left c \<Longrightarrow> cl_sent c \<Longrightarrow>
    tester_receive (nw_inbox n pid) (cl_tester c) = Inr (t, q, exits) \<Longrightarrow>
    net_step inputs n (n\<lparr> nw_clients := (nw_clients n)(pid \<mapsto>
        c\<lparr> cl_tester := t, cl_sent := False, cl_left := exits \<or> left_loop t \<rparr>),
      nw_inbox := (nw_inbox n)(pid := q) \<rparr>)"
| serves: "server_step ke (nw_server n) = Some y \<Longrightarrow> fresh_workers n y \<Longrightarrow>
    (\<forall>pid. in_int pid \<longrightarrow> fits_queue (deliver (new_events (nw_server n) y) (nw_inbox n) pid)) \<Longrightarrow>
    net_step inputs n (n\<lparr> nw_server := y, nw_inbox := deliver (new_events (nw_server n) y) (nw_inbox n),
      nw_workers := nw_workers n @
        map (\<lambda>(wp, argv). (wp, argv, sv_fds (sy_server y))) (spawned (new_events (nw_server n) y)) \<rparr>)"
| works: "nw_workers n = us @ (wk_pid ke, argv, k) # vs \<Longrightarrow> shared_queue n i s \<Longrightarrow>
    run_main ke argv memory k s = Inr (Some (s', k')) \<Longrightarrow>
    net_step inputs n (n\<lparr> nw_workers := us @ vs, nw_server := (nw_server n)\<lparr> sy_result := mq_msgs (sys_queue s' i) \<rparr> \<rparr>)"
| dies: "nw_workers n = us @ w # vs \<Longrightarrow> net_step inputs n (n\<lparr> nw_workers := us @ vs \<rparr>)"

inductive runs :: "(int \<Rightarrow> string) \<Rightarrow> server \<Rightarrow> network \<Rightarrow> bool" for inputs s0 where
  boots: "runs inputs s0 \<lparr> nw_server = boot s0, nw_clients = (\<lambda>_. None), nw_inbox = (\<lambda>_. []), nw_workers = [] \<rparr>"
| steps: "runs inputs s0 n \<Longrightarrow> net_step inputs n n' \<Longrightarrow> runs inputs s0 n'"

section \<open>The server among its clients and workers\<close>

text \<open>What the README calls the answer to a word.\<close>

definition verdict :: "description \<Rightarrow> string \<Rightarrow> int" where
  "verdict d w = of_bool (ds_accepts d (ds_q0 d) w)"

text \<open>The requests of each client (\<open>Reqs\<close>): for words the automaton can read, with numbers below a bound.\<close>

definition good_requests :: "int \<Rightarrow> (int \<Rightarrow> request list) \<Rightarrow> bool" where
  "good_requests B Reqs \<longleftrightarrow> B < 2 ^ 25 \<and> (\<forall>pid. \<forall>lw \<in> set (Reqs pid). in_int pid \<and> 1 \<le> fst lw \<and> fst lw + 47 \<le> B \<and>
     wf_word (snd lw) \<and> length (snd lw) < 100)"

text \<open>
  The server knows its clients by their queues, and every session of a worker is for a request of the
  client it names, for the word \<open>Job\<close> the worker was given.
\<close>

definition net_server :: "description \<Rightarrow> (int \<Rightarrow> request list) \<Rightarrow> (int \<Rightarrow> string) \<Rightarrow> server \<Rightarrow> bool" where
  "net_server d Reqs Job s \<longleftrightarrow> sv_graph s = render d \<and> length (render d) \<le> k_capacity (sv_fds s) \<and>
     int (length (render d)) < GRAPH_BUF_SIZE \<and> 0 \<le> k_next_fd (sv_fds s) \<and>
     (\<forall>kt \<in> set (sv_testers s). in_int (fst kt) \<and> ts_queue (snd kt) = inputQueueName (fst kt)) \<and>
     (\<forall>kr \<in> set (sv_run s). (rs_loc_id (snd kr), Job (fst kr)) \<in> set (Reqs (rs_testerSourcePid (snd kr))))"

lemma letter_plain: "in_A (letter c) \<Longrightarrow> in_scan_set c \<and> \<not> is_space c \<and> c \<noteq> NEWLINE \<and> c \<noteq> CHR ''!''"
  by (auto simp: in_A_def letter_def schar_def is_space_def NEWLINE_def in_scan_set_def)

lemma wf_word_plain: "wf_word w \<Longrightarrow> plain_word w \<and> NEWLINE \<notin> set w \<and> w \<noteq> ''!''"
  using letter_plain by (cases w) (auto simp: wf_word_def plain_word_def list_all_iff)

lemma queue_name_ok: "in_int pid \<Longrightarrow> mq_name_ok (inputQueueName pid) \<and> length (inputQueueName pid) < 50"
  using own_queue_name [of pid] by simp

lemma queue_name_inj: "in_int p \<Longrightarrow> in_int q \<Longrightarrow> inputQueueName p = inputQueueName q \<Longrightarrow> p = q"
proof -
  assume i: "in_int p" "in_int q" and e: "inputQueueName p = inputQueueName q"
  have "read_register (write_register p ''/'') = (2, [AInt p, AStr ''/''])" "read_register (write_register q ''/'') = (2, [AInt q, AStr ''/''])"
    using i by (simp_all add: read_write_register in_int_llong token_def)
  moreover have "show_int p = show_int q" using e by (simp add: inputQueueName_def sprintf_def formats)
  moreover have "write_register x ''/'' = ''register_tester: '' @ show_int x @ '' /''" for x
    by (simp add: write_register_def sprintf_def formats)
  ultimately show "p = q" by simp
qed

lemma net_request_good:
  assumes "good_requests B Reqs" "(l, w) \<in> set (Reqs pid)"
  shows "good_request pid (inputQueueName pid) l w"
  using assms queue_name_ok [of pid] wf_word_plain [of w] token_inputQueueName [of pid]
  by (fastforce simp: good_requests_def good_request_def in_int_def)

lemma net_register:
  assumes "net_server d Reqs Job s" "server_ok s" "in_int pid" 
    "handle_register ke (write_register pid (inputQueueName pid)) s = Inr s'"
  shows "net_server d Reqs Job s' \<and> sv_log s' = sv_log s \<and> sv_run s' = sv_run s"
proof -
  let ?s = "s\<lparr> sv_buffer_pid := Some pid, sv_buffer2 := inputQueueName pid \<rparr>"
  have "read_register (write_register pid (inputQueueName pid)) = (2, [AInt pid, AStr (inputQueueName pid)])"
    using assms(3) by (simp add: read_write_register in_int_llong token_inputQueueName)
  then have "new_session ke pid ?s = Inr s'" using assms(4) by (simp add: handle_register_def got_defs)
  from new_session_ok [OF _ this] assms(2,3) obtain t where
    "s' = ?s\<lparr> sv_testers := table_put pid t (sv_testers s) \<rparr>" "ts_queue t = inputQueueName pid" by auto
  with assms(1,3) show ?thesis by (simp add: net_server_def set_put)
qed

lemma net_result:
  assumes "net_server d Reqs Job s" "server_ok s" "in_int wp" "wp \<in> keys (sv_run s)"
    "handle_run_terminate ke (write_run_terminate wp (verdict d (Job wp))) s = Inr s'"
  shows "net_server d Reqs Job s' \<and> sv_run s' = table_del wp (sv_run s) \<and>
    (\<exists>pid l. (l, Job wp) \<in> set (Reqs pid) \<and>
       sv_log s' = sv_log s @ [SentTo (inputQueueName pid) (write_answer l (verdict d (Job wp)))])"
proof -
  obtain rs where rs: "map_of (sv_run s) wp = Some rs" using key_mapped [OF assms(4)] by blast
  have v: "in_int (verdict d (Job wp))" by (simp add: verdict_def in_int_def)
  from answer_outcome [OF assms(2,3) v rs assms(5)] obtain ts where
    ts: "map_of (sv_testers s) (rs_testerSourcePid rs) = Some ts"
    "sv_log s' = sv_log s @ [SentTo (ts_queue ts) (write_answer (rs_loc_id rs) (verdict d (Job wp)))]"
    "sv_run s' = table_del wp (sv_run s)" "sv_graph s' = sv_graph s"
    "k_capacity (sv_fds s') = k_capacity (sv_fds s)" "k_next_fd (sv_fds s') = k_next_fd (sv_fds s)"
    "sv_testers s' = (if verdict d (Job wp) = 1
      then table_upd (rs_testerSourcePid rs) (\<lambda>t. t\<lparr> ts_acc_count := ts_acc_count t + 1 \<rparr>) (sv_testers s) else sv_testers s)" by blast
  have s: "\<forall>kt \<in> set (sv_testers s). in_int (fst kt) \<and> ts_queue (snd kt) = inputQueueName (fst kt)"
    "\<forall>kr \<in> set (sv_run s). (rs_loc_id (snd kr), Job (fst kr)) \<in> set (Reqs (rs_testerSourcePid (snd kr)))"
    using assms(1) by (simp_all add: net_server_def)
  have "\<forall>kt \<in> set (table_upd k (\<lambda>t. t\<lparr> ts_acc_count := ts_acc_count t + 1 \<rparr>) (sv_testers s)).
      in_int (fst kt) \<and> ts_queue (snd kt) = inputQueueName (fst kt)" for k
    using s(1) by (intro ball_upd) simp_all
  then have "net_server d Reqs Job s'" using assms(1) s ts(3-7) by (simp add: net_server_def set_del)
  moreover have "ts_queue ts = inputQueueName (rs_testerSourcePid rs)" using s(1) map_of_SomeD [OF ts(1)] by force
  moreover have "(rs_loc_id rs, Job wp) \<in> set (Reqs (rs_testerSourcePid rs))" using s(2) map_of_SomeD [OF rs] by force
  ultimately show ?thesis using ts(2,3) by auto
qed

lemma net_request:
  assumes "net_server d Reqs Job s" "server_ok s" "good_requests B Reqs" "(l, w) \<in> set (Reqs pid)"
    and "handle_report ke (write_parse pid (inputQueueName pid) l w) s = Inr s'" "in_int (k_next_fd (sv_fds s'))"
  shows "net_server d Reqs Job s' \<and> sv_run s' = sv_run s \<and> sv_log s' = sv_log s \<or>
    (\<exists>wp rs i flags. sv_run s' = table_put wp rs (sv_run s) \<and> net_server d Reqs (Job(wp := w)) s' \<and> graph_pipe i (render d) (sv_fds s') \<and>
       sv_log s' = sv_log s @ [Spawned wp ([''run'', snd (msgPipeIDToStr i), w] @ flags)])"
proof -
  note g = net_request_good [OF assms(3,4)]
  note o = request_outcome [OF assms(2) g assms(5)]
  have pid: "in_int pid" using g by (simp add: good_request_def)
  have s: "sv_graph s = render d" "length (render d) \<le> k_capacity (sv_fds s) \<and> int (length (render d)) < GRAPH_BUF_SIZE"
    "0 \<le> k_next_fd (sv_fds s)" "\<forall>kt \<in> set (sv_testers s). in_int (fst kt) \<and> ts_queue (snd kt) = inputQueueName (fst kt)"
    "\<forall>kr \<in> set (sv_run s). (rs_loc_id (snd kr), Job (fst kr)) \<in> set (Reqs (rs_testerSourcePid (snd kr)))"
    using assms(1) by (simp_all add: net_server_def)
  have t: "\<forall>kt \<in> set (sv_testers s'). in_int (fst kt) \<and> ts_queue (snd kt) = inputQueueName (fst kt)"
  proof
    fix kt assume "kt \<in> set (sv_testers s')"
    with o consider "fst kt = pid" "ts_queue (snd kt) = inputQueueName pid"
      | kt' where "kt' \<in> set (sv_testers s)" "fst kt = fst kt'" "ts_queue (snd kt) = ts_queue (snd kt')" by blast
    then show "in_int (fst kt) \<and> ts_queue (snd kt) = inputQueueName (fst kt)" using pid s(4) by cases simp_all
  qed
  show ?thesis
  proof (cases "worker_pid ke")
    case None
    with o s t show ?thesis by (simp add: net_server_def)
  next
    case (Some wp)
    with o obtain rs i flags where o': "sv_run s' = table_put wp rs (sv_run s)" "rs_testerSourcePid rs = pid" "rs_loc_id rs = l"
      "sv_log s' = sv_log s @ [Spawned wp ([''run'', snd (msgPipeIDToStr i), w] @ flags)]"
      "id_read i = k_next_fd (sv_fds s)" "id_write i = k_next_fd (sv_fds s) + 1" "holds_graph (sv_fds s') i (sv_graph s)" by auto
    have "graph_pipe i (render d) (sv_fds s')"
      using o'(5-7) o s(1-3) assms(6) by (auto simp: holds_graph_def graph_pipe_def in_int_def config)
    moreover have "net_server d Reqs (Job(wp := w)) s'"
      using o s t o'(1-3) assms(4) by (auto simp: net_server_def set_put)
    ultimately show ?thesis using o'(1,4) by blast
  qed
qed

text \<open>
  What waits in the queues of the server and what runs for it: \<open>rpids\<close> are the workers whose results wait.
\<close>

definition known_request :: "(int \<Rightarrow> request list) \<Rightarrow> string \<Rightarrow> bool" where
  "known_request Reqs m \<longleftrightarrow> m = ''exit'' \<or>
     (\<exists>pid l w. (l, w) \<in> set (Reqs pid) \<and> m = write_parse pid (inputQueueName pid) l w)"

definition right_answer :: "description \<Rightarrow> request list \<Rightarrow> string \<Rightarrow> bool" where
  "right_answer d reqs m \<longleftrightarrow> m = ''exit'' \<or> (\<exists>l w. (l, w) \<in> set reqs \<and> m = write_answer l (verdict d w))"

definition good_worker :: "description \<Rightarrow> (int \<Rightarrow> string) \<Rightarrow> int \<times> string list \<times> descriptors \<Rightarrow> bool" where
  "good_worker d Job wk \<longleftrightarrow> (case wk of (wp, argv, k) \<Rightarrow> wf_word (Job wp) \<and>
     (\<exists>i flags. argv = [''run'', snd (msgPipeIDToStr i), Job wp] @ flags \<and> graph_pipe i (render d) k))"

definition served_inv ::
  "int \<Rightarrow> description \<Rightarrow> (int \<Rightarrow> request list) \<Rightarrow> (int \<Rightarrow> string) \<Rightarrow> int list \<Rightarrow>
   (int \<times> string list \<times> descriptors) list \<Rightarrow> system \<Rightarrow> bool" where
  "served_inv B d Reqs Job rpids wks y \<longleftrightarrow> net_server d Reqs Job (sy_server y) \<and> good_requests B Reqs \<and>
     (\<forall>m \<in> set (sy_register y). \<exists>pid. in_int pid \<and> m = write_register pid (inputQueueName pid)) \<and>
     (\<forall>m \<in> set (sy_report y). known_request Reqs m) \<and>
     sy_result y = map (\<lambda>wp. write_run_terminate wp (verdict d (Job wp))) rpids \<and>
     distinct (map fst wks @ rpids) \<and>
     (\<forall>wp \<in> fst ` set wks \<union> set rpids. in_int wp \<and> wp \<in> keys (sv_run (sy_server y))) \<and>
     (\<forall>wk \<in> set wks. good_worker d Job wk)"

lemma served_same_run:
  assumes "served_inv B d Reqs Job rpids wks y" "net_server d Reqs Job (sy_server y')"
    and "sv_run (sy_server y') = sv_run (sy_server y)" "sy_result y' = sy_result y"
    and "set (sy_register y') \<subseteq> set (sy_register y)" "set (sy_report y') \<subseteq> set (sy_report y)"
  shows "served_inv B d Reqs Job rpids wks y'"
  using assms unfolding served_inv_def by (metis (no_types, lifting) subsetD)

lemma net_server_same:
  "sv_graph s' = sv_graph s \<Longrightarrow> sv_fds s' = sv_fds s \<Longrightarrow> sv_testers s' = sv_testers s \<Longrightarrow> sv_run s' = sv_run s \<Longrightarrow>
   net_server d Reqs Job s' = net_server d Reqs Job s"
  by (simp add: net_server_def)

text \<open>A move of the server, seen from outside: its log grows, and what it sends is right.\<close>

definition good_event :: "description \<Rightarrow> (int \<Rightarrow> request list) \<Rightarrow> event \<Rightarrow> bool" where
  "good_event d Reqs e \<longleftrightarrow> (case e of
     SentTo q m \<Rightarrow> \<exists>pid. in_int pid \<and> q = inputQueueName pid \<and> right_answer d (Reqs pid) m
   | Spawned _ _ \<Rightarrow> True)"

definition move_ok :: "int \<Rightarrow> description \<Rightarrow> (int \<Rightarrow> request list) \<Rightarrow> (int \<times> string list \<times> descriptors) list \<Rightarrow>
    system \<Rightarrow> system \<Rightarrow> bool" where
  "move_ok B d Reqs wks y y' \<longleftrightarrow> (\<exists>Job rpids es. sv_log (sy_server y') = sv_log (sy_server y) @ es \<and>
     served_inv B d Reqs Job rpids (wks @ map (\<lambda>(wp, argv). (wp, argv, sv_fds (sy_server y'))) (spawned es)) y' \<and>
     (\<forall>e \<in> set es. good_event d Reqs e))"

lemma move_ok_quiet:
  assumes "served_inv B d Reqs Job rpids wks y'" "sv_log (sy_server y') = sv_log (sy_server y)"
  shows "move_ok B d Reqs wks y y'"
  unfolding move_ok_def using assms by (intro exI [of _ Job] exI [of _ rpids] exI [of _ "[]"]) simp

lemma move_register:
  assumes inv: "served_inv B d Reqs Job rpids wks y" and ok: "server_ok (sy_server y)" and m: "sy_register y = m # ms"
  shows "move_ok B d Reqs wks y (continue_with (handle_register ke m (sy_server y)) p (y\<lparr> sy_register := ms \<rparr>))"
proof -
  let ?y = "continue_with (handle_register ke m (sy_server y)) p (y\<lparr> sy_register := ms \<rparr>)"
  have n: "net_server d Reqs Job (sy_server y)" using inv by (simp add: served_inv_def)
  obtain pid where pid: "in_int pid" "m = write_register pid (inputQueueName pid)"
    using inv m by (auto simp: served_inv_def)
  have "net_server d Reqs Job (sy_server ?y) \<and> sv_log (sy_server ?y) = sv_log (sy_server y) \<and> sv_run (sy_server ?y) = sv_run (sy_server y)"
  proof (cases "handle_register ke m (sy_server y)")
    case (Inl e)
    with n show ?thesis by (simp add: continue_with_def)
  next
    case (Inr s')
    with net_register [OF n ok pid(1), of ke s'] pid(2) show ?thesis by (simp add: continue_with_def)
  qed
  moreover from this have "served_inv B d Reqs Job rpids wks ?y"
    by (intro served_same_run [OF inv]) (use m in auto)
  ultimately show ?thesis by (intro move_ok_quiet) simp_all
qed

lemma move_lock:
  assumes inv: "served_inv B d Reqs Job rpids wks y"
  shows "move_ok B d Reqs wks y (continue_with (throttle_lock ke (sy_server y)) p y)"
proof -
  let ?y = "continue_with (throttle_lock ke (sy_server y)) p y"
  have n: "net_server d Reqs Job (sy_server y)" using inv by (simp add: served_inv_def)
  have same: "sv_graph (sy_server ?y) = sv_graph (sy_server y) \<and> sv_fds (sy_server ?y) = sv_fds (sy_server y) \<and>
    sv_testers (sy_server ?y) = sv_testers (sy_server y) \<and> sv_run (sy_server ?y) = sv_run (sy_server y) \<and>
    sv_log (sy_server ?y) = sv_log (sy_server y)"
    by (simp add: continue_with_def throttle_lock_def)
  then have "served_inv B d Reqs Job rpids wks ?y"
    using n net_server_same [of "sy_server ?y" "sy_server y"] by (intro served_same_run [OF inv]) simp_all
  with same show ?thesis by (intro move_ok_quiet) simp_all
qed

lemma move_result:
  assumes inv: "served_inv B d Reqs Job rpids wks y" and ok: "server_ok (sy_server y)" and m: "sy_result y = m # ms"
  shows "move_ok B d Reqs wks y (continue_with (handle_run_terminate ke m (sy_server y)) p (y\<lparr> sy_result := ms \<rparr>))"
proof -
  let ?s = "sy_server y"
  have n: "net_server d Reqs Job ?s" using inv by (simp add: served_inv_def)
  obtain wp rest where r: "rpids = wp # rest" "m = write_run_terminate wp (verdict d (Job wp))"
    "ms = map (\<lambda>wp. write_run_terminate wp (verdict d (Job wp))) rest" using inv m by (auto simp: served_inv_def)
  have wp: "in_int wp" "wp \<in> keys (sv_run ?s)" "\<forall>wp' \<in> fst ` set wks \<union> set rest. wp' \<noteq> wp"
    using inv r(1) by (auto simp: served_inv_def)
  show ?thesis
  proof (cases "handle_run_terminate ke m ?s")
    case (Inl e)
    with inv r show ?thesis
      by (intro move_ok_quiet [of _ _ _ Job rest]) (simp_all add: continue_with_def served_inv_def)
  next
    case (Inr s')
    from net_result [OF n ok wp(1,2)] Inr r(2) obtain pid l where s': "net_server d Reqs Job s'" "sv_run s' = table_del wp (sv_run ?s)"
      "(l, Job wp) \<in> set (Reqs pid)" "sv_log s' = sv_log ?s @ [SentTo (inputQueueName pid) (write_answer l (verdict d (Job wp)))]" by blast
    let ?y = "y\<lparr> sy_result := ms, sy_server := s', sy_phase := p \<rparr>"
    have "wp' \<in> keys (sv_run s')" if "wp' \<in> fst ` set wks \<union> set rest" for wp'
    proof -
      have "wp' \<in> keys (sv_run ?s)" "wp' \<noteq> wp" using inv r(1) wp(3) that by (auto simp: served_inv_def)
      then show ?thesis by (force simp: s'(2) set_del)
    qed
    then have "served_inv B d Reqs Job rest wks ?y" using inv s'(1) r by (simp add: served_inv_def)
    moreover have "in_int pid" using inv s'(3) by (fastforce simp: served_inv_def good_requests_def)
    then have "good_event d Reqs (SentTo (inputQueueName pid) (write_answer l (verdict d (Job wp))))"
      using s'(3) by (auto simp: good_event_def right_answer_def)
    ultimately have "move_ok B d Reqs wks y ?y"
      unfolding move_ok_def using s'(4) by (intro exI [of _ Job] exI [of _ rest] exI) (rule conjI, simp, simp)
    then show ?thesis using Inr by (simp add: continue_with_def)
  qed
qed

lemma move_children:
  assumes inv: "served_inv B d Reqs Job rpids wks y"
  shows "move_ok B d Reqs wks y (after_children ke b y)"
proof (cases "reap_children ke (sy_server y)")
  case (Inl e)
  with inv show ?thesis
    by (intro move_ok_quiet [of _ _ _ Job rpids]) (simp_all add: after_children_def served_inv_def)
next
  case (Inr r)
  obtain status s where r: "r = (status, s)" by force
  let ?s = "check_force status b s" let ?y = "after_children ke b y"
  have s: "s = (sy_server y)\<lparr> sv_active := sv_active (sy_server y) - of_bool (status = -1) \<rparr>"
    using reap_children_result Inr r by blast
  have y: "sy_server ?y = ?s \<or> sy_server ?y = broadcast_exit ?s"
    using Inr r by (simp add: after_children_def Let_def)
  have n: "net_server d Reqs Job (sy_server y)" using inv by (simp add: served_inv_def)
  have same: "sv_graph (sy_server ?y) = sv_graph (sy_server y)" "sv_fds (sy_server ?y) = sv_fds (sy_server y)"
    "sv_testers (sy_server ?y) = sv_testers (sy_server y)" "sv_run (sy_server ?y) = sv_run (sy_server y)"
    using y s by (auto simp: check_force_def broadcast_exit_def)
  have inv': "served_inv B d Reqs Job rpids wks ?y"
    using n net_server_same [OF same] same(4) by (intro served_same_run [OF inv]) simp_all
  from y show ?thesis
  proof
    assume "sy_server ?y = ?s"
    then have "sv_log (sy_server ?y) = sv_log (sy_server y)" using s by simp
    with inv' show ?thesis by (rule move_ok_quiet)
  next
    let ?es = "map (\<lambda>(_, t). SentTo (ts_queue t) ''exit'') (sv_testers (sy_server y))"
    assume "sy_server ?y = broadcast_exit ?s"
    then have "sv_log (sy_server ?y) = sv_log (sy_server y) @ ?es" using s by (simp add: broadcast_exit_def)
    moreover have "spawned (map (\<lambda>(_, t). SentTo (ts_queue t) ''exit'') ts) = []" for ts :: "(int \<times> TesterSlot) list"
      by (induction ts) auto
    moreover have "\<forall>e \<in> set ?es. good_event d Reqs e"
      using n by (fastforce simp: net_server_def good_event_def right_answer_def)
    ultimately show ?thesis
      unfolding move_ok_def using inv' by (intro exI [of _ Job] exI [of _ rpids] exI [of _ ?es]) simp
  qed
qed

lemma move_report:
  assumes inv: "served_inv B d Reqs Job rpids wks y" and ok: "server_ok (sy_server y)" and m: "sy_report y = m # ms"
    and y': "y' = continue_with (handle_report ke m (sy_server y)) p (y\<lparr> sy_report := ms \<rparr>)"
    and fresh: "\<forall>(wp, argv) \<in> set (spawned (new_events y y')). in_int wp \<and> wp \<notin> fst ` set wks \<and>
      (\<forall>r. write_run_terminate wp r \<notin> set (sy_result y))" "in_int (k_next_fd (sv_fds (sy_server y')))"
  shows "move_ok B d Reqs wks y y'"
proof -
  let ?s = "sy_server y"
  have n: "net_server d Reqs Job ?s" and g: "good_requests B Reqs" and k: "known_request Reqs m"
    using inv m by (simp_all add: served_inv_def)
  show ?thesis
  proof (cases "handle_report ke m ?s")
    case (Inl e)
    then have "served_inv B d Reqs Job rpids wks y'" unfolding y'
      using n m by (intro served_same_run [OF inv]) (auto simp: continue_with_def)
    with Inl show ?thesis unfolding y' by (intro move_ok_quiet) (simp_all add: continue_with_def)
  next
    case (Inr s')
    then have s': "y' = y\<lparr> sy_report := ms, sy_server := s', sy_phase := p \<rparr>" using y' by (simp add: continue_with_def)
    show ?thesis
    proof (cases "m = ''exit''")
      case True
      then have "s' = ?s\<lparr> sv_buffer := [], sv_shouldTerminate := True \<rparr>" using Inr by (simp add: handle_report_cases)
      moreover from this have "net_server d Reqs Job s'" using n by (simp add: net_server_def)
      moreover from calculation have "served_inv B d Reqs Job rpids wks y'"
        using m by (intro served_same_run [OF inv]) (auto simp: s')
      ultimately show ?thesis by (intro move_ok_quiet) (simp_all add: s')
    next
      case False
      then obtain pid l w where lw: "(l, w) \<in> set (Reqs pid)" "m = write_parse pid (inputQueueName pid) l w"
        using k by (auto simp: known_request_def)
      have fd: "in_int (k_next_fd (sv_fds s'))" using fresh(2) by (simp add: s')
      from net_request [OF n ok g lw(1) Inr [unfolded lw(2)] fd] show ?thesis
      proof (elim disjE exE conjE)
        assume a: "net_server d Reqs Job s'" "sv_run s' = sv_run ?s" "sv_log s' = sv_log ?s"
        then have "served_inv B d Reqs Job rpids wks y'"
          using m by (intro served_same_run [OF inv]) (auto simp: s')
        with a(3) show ?thesis by (intro move_ok_quiet) (simp_all add: s')
      next
        fix wp rs i flags
        let ?argv = "[''run'', snd (msgPipeIDToStr i), w] @ flags" let ?J = "Job(wp := w)"
        let ?es = "[Spawned wp ?argv]" let ?wks = "wks @ [(wp, ?argv, sv_fds s')]"
        assume a: "sv_run s' = table_put wp rs (sv_run ?s)" "net_server d Reqs ?J s'"
          "graph_pipe i (render d) (sv_fds s')" "sv_log s' = sv_log ?s @ ?es"
        then have "spawned (new_events y y') = [(wp, ?argv)]" by (simp add: new_events_def s')
        then have new: "in_int wp" "wp \<notin> fst ` set wks" "\<forall>r. write_run_terminate wp r \<notin> set (sy_result y)"
          using fresh(1) by auto
        have res: "sy_result y = map (\<lambda>wp. write_run_terminate wp (verdict d (Job wp))) rpids" using inv by (simp add: served_inv_def)
        then have nr: "wp \<notin> set rpids" using new(3) by auto
        have w: "wf_word w" using g lw(1) by (fastforce simp: good_requests_def)
        have old: "\<forall>wk \<in> set wks. good_worker d ?J wk"
        proof
          fix wk assume wk: "wk \<in> set wks"
          then have "fst wk \<noteq> wp" using new(2) by auto
          moreover have "good_worker d Job wk" using wk inv by (simp add: served_inv_def)
          ultimately show "good_worker d ?J wk" by (cases wk) (simp add: good_worker_def)
        qed
        have "good_worker d ?J (wp, ?argv, sv_fds s')" using w a(3) by (auto simp: good_worker_def)
        moreover have "map (\<lambda>wp. write_run_terminate wp (verdict d (?J wp))) rpids = map (\<lambda>wp. write_run_terminate wp (verdict d (Job wp))) rpids"
          using nr by (intro map_cong) auto
        moreover have "distinct (map fst wks @ rpids)" "\<forall>wp' \<in> fst ` set wks \<union> set rpids. in_int wp' \<and> wp' \<in> keys (sv_run ?s)"
          using inv by (simp_all add: served_inv_def)
        ultimately have "served_inv B d Reqs ?J rpids ?wks y'"
          using inv a(1,2) new(1,2) nr old res m by (auto simp: served_inv_def s')
        then show ?thesis unfolding move_ok_def using a(4)
          by (intro exI [of _ ?J] exI [of _ rpids] exI [of _ ?es]) (simp add: s' good_event_def)
      qed
    qed
  qed
qed

lemma move_phase:
  assumes inv: "served_inv B d Reqs Job rpids wks y" and "sv_log (sy_server y') = sv_log (sy_server y)" "sy_server y' = sy_server y"
    "sy_register y' = sy_register y" "sy_result y' = sy_result y" "sy_report y' = sy_report y"
  shows "move_ok B d Reqs wks y y'"
  using assms by (intro move_ok_quiet [of _ _ _ Job rpids]) (simp_all add: served_inv_def)

lemma server_move:
  assumes inv: "served_inv B d Reqs Job rpids wks y" and ok: "server_ok (sy_server y)" and step: "server_step ke y = Some y'"
    and fresh: "\<forall>(wp, argv) \<in> set (spawned (new_events y y')). in_int wp \<and> wp \<notin> fst ` set wks \<and>
      (\<forall>r. write_run_terminate wp r \<notin> set (sy_result y))" "in_int (k_next_fd (sv_fds (sy_server y')))"
  shows "move_ok B d Reqs wks y y'"
proof (cases "sy_phase y")
  case Registering
  then show ?thesis
    using step move_lock [OF inv, of ke ReadingResult] move_register [OF inv ok, of _ _ ke Registering]
    by (cases "sy_register y") (auto simp: server_step_def)
next
  case ReadingResult
  then show ?thesis
    using step move_result [OF inv ok, of _ _ ke "Children False"] move_phase [OF inv, of "y\<lparr> sy_phase := Children True \<rparr>"]
    by (cases "sy_result y") (auto simp: server_step_def split: if_splits)
next
  case (Children b)
  then show ?thesis using step move_children [OF inv] by (auto simp: server_step_def)
next
  case ReadingReport
  show ?thesis
  proof (cases "sy_report y")
    case Nil
    with ReadingReport step have "y' = y\<lparr> sy_phase := Registering \<rparr>" by (simp add: server_step_def split: if_splits)
    then show ?thesis by (intro move_phase [OF inv]) simp_all
  next
    case (Cons m ms)
    with ReadingReport step have "y' = continue_with (handle_report ke m (sy_server y)) Registering (y\<lparr> sy_report := ms \<rparr>)"
      by (simp add: server_step_def)
    from move_report [OF inv ok Cons this fresh] show ?thesis .
  qed
qed (use step in \<open>simp_all add: server_step_def\<close>)

section \<open>The clients\<close>

text \<open>The input of a client: a word per line, and possibly an exclamation mark.\<close>

definition good_input :: "int \<Rightarrow> string list \<Rightarrow> bool" where
  "good_input B ws \<longleftrightarrow> B < 2 ^ 25 \<and> int (length (lines_text ws)) + 48 \<le> B \<and>
     (\<forall>w \<in> set ws. w = ''!'' \<or> wf_word w \<and> length w < 100)"

definition right_print :: "description \<Rightarrow> printed list \<Rightarrow> bool" where
  "right_print d ans \<longleftrightarrow> (\<forall>(l, w, r) \<in> set ans. r = verdict d w)"

definition client_inv ::
  "int \<Rightarrow> description \<Rightarrow> (int \<Rightarrow> string list) \<Rightarrow> network \<Rightarrow> int \<Rightarrow> request list \<Rightarrow> printed list \<Rightarrow> bool" where
  "client_inv B d ws n pid reqs ans \<longleftrightarrow>
     (case nw_clients n pid of
        None \<Rightarrow> reqs = [] \<and> ans = []
      | Some c \<Rightarrow> in_int pid \<and> tester_inv B pid (ws pid) (cl_tester c) reqs ans \<and>
          (cl_left c \<longrightarrow> left_loop (cl_tester c) \<or>
             SentTo (inputQueueName pid) ''exit'' \<in> set (sv_log (sy_server (nw_server n))))) \<and>
     (in_int pid \<longrightarrow> (\<forall>m \<in> set (nw_inbox n pid). right_answer d reqs m \<and>
        SentTo (inputQueueName pid) m \<in> set (sv_log (sy_server (nw_server n))))) \<and> right_print d ans"

definition net_inv ::
  "int \<Rightarrow> description \<Rightarrow> (int \<Rightarrow> string list) \<Rightarrow> server \<Rightarrow> (int \<Rightarrow> request list) \<Rightarrow> (int \<Rightarrow> printed list) \<Rightarrow> network \<Rightarrow> bool" where
  "net_inv B d ws s0 Reqs Ans n \<longleftrightarrow>
     moves register_message result_message report_message (boot s0) (nw_server n) \<and>
     (\<exists>Job rpids. served_inv B d Reqs Job rpids (nw_workers n) (nw_server n)) \<and>
     (\<forall>pid. client_inv B d ws n pid (Reqs pid) (Ans pid))"

lemma net_invI:
  assumes "moves register_message result_message report_message (boot s0) (nw_server n)"
    and "served_inv B d Reqs Job rpids (nw_workers n) (nw_server n)" "\<And>pid. client_inv B d ws n pid (Reqs pid) (Ans pid)"
  shows "net_inv B d ws s0 Reqs Ans n"
  unfolding net_inv_def using assms by blast

lemma client_inv_frame:
  assumes "client_inv B d ws n pid reqs ans" "nw_clients n' pid = nw_clients n pid" "nw_inbox n' pid = nw_inbox n pid"
    and "set (sv_log (sy_server (nw_server n))) \<subseteq> set (sv_log (sy_server (nw_server n')))"
  shows "client_inv B d ws n' pid reqs ans"
proof (cases "nw_clients n pid")
  case None
  with assms show ?thesis by (auto simp: client_inv_def)
next
  case (Some c)
  with assms show ?thesis unfolding client_inv_def by auto
qed

lemma pieces_short: "\<forall>w \<in> set ws. length w \<le> 254 \<Longrightarrow> concat (map pieces ws) = ws"
  by (induction ws) (simp_all add: pieces.simps)

lemma good_input_lines:
  assumes "good_input B ws"
  shows "\<forall>w \<in> set ws. NEWLINE \<notin> set w" "concat (map pieces ws) = ws"
proof -
  show "\<forall>w \<in> set ws. NEWLINE \<notin> set w"
  proof
    fix w assume "w \<in> set ws"
    then have "w = ''!'' \<or> wf_word w" using assms by (auto simp: good_input_def)
    then show "NEWLINE \<notin> set w" using wf_word_plain [of w] by (auto simp: NEWLINE_def)
  qed
  have "\<forall>w \<in> set ws. length w \<le> 254" using assms by (fastforce simp: good_input_def)
  then show "concat (map pieces ws) = ws" by (rule pieces_short)
qed

lemma tester_inv_requests:
  assumes "tester_inv B pid ws t reqs ans" "(l, w) \<in> set reqs"
  shows "1 \<le> l \<and> l + 47 \<le> B \<and> w \<in> set ws \<and> w \<noteq> ''!''"
proof -
  have "books_ok reqs ans (tt_loc t)" "tt_loc t + 47 \<le> B" "input_ok ws reqs t" using assms(1) by (simp_all add: tester_inv_def)
  moreover from this(3) obtain more where "words_to_send ws = map snd reqs @ more"
    by (cases "tt_read_input t") (auto simp: input_ok_def)
  ultimately have "1 \<le> l \<and> l \<le> tt_loc t" "set (map snd reqs) \<subseteq> set (words_to_send ws)" "tt_loc t + 47 \<le> B"
    using assms(2) by (auto simp: books_ok_def)
  moreover have "w \<in> set (map snd reqs)" using assms(2) by force
  ultimately have "w \<in> set (words_to_send ws)" "1 \<le> l" "l \<le> tt_loc t" by auto
  then show ?thesis using \<open>tt_loc t + 47 \<le> B\<close> set_takeWhileD [of w "\<lambda>w. w \<noteq> ''!''" ws] by (simp add: words_to_send_def)
qed

lemma good_request_words:
  assumes "\<forall>pid. good_input B (ws pid)" "in_int pid" "tester_inv B pid (ws pid) t reqs ans" "lw \<in> set reqs"
  shows "in_int pid \<and> 1 \<le> fst lw \<and> fst lw + 47 \<le> B \<and> wf_word (snd lw) \<and> length (snd lw) < 100"
proof -
  from tester_inv_requests [OF assms(3), of "fst lw" "snd lw"] assms(4)
  have "1 \<le> fst lw" "fst lw + 47 \<le> B" "snd lw \<in> set (ws pid)" "snd lw \<noteq> ''!''" by auto
  then show ?thesis using assms(1,2) by (auto simp: good_input_def)
qed

text \<open>Messages that arrive at the queues keep the server within what it is safe on.\<close>

lemma moves_reports:
  "moves R W P y z \<Longrightarrow> \<forall>m \<in> set ms. P m \<Longrightarrow> moves R W P y (z\<lparr> sy_report := sy_report z @ ms \<rparr>)"
proof (induction ms rule: rev_induct)
  case (snoc m ms)
  then have "moves R W P y (z\<lparr> sy_report := sy_report z @ ms \<rparr>)" "P m" by auto
  from moves.reports [OF this] show ?case by simp
qed simp

lemma known_request_report: "good_requests B Reqs \<Longrightarrow> known_request Reqs m \<Longrightarrow> report_message m"
  using net_request_good by (fastforce simp: known_request_def report_message_def)

lemma net_enters:
  assumes "net_inv B d ws s0 Reqs Ans n" "\<forall>pid. good_input B (ws pid)" "nw_clients n pid = None" "in_int pid"
  shows "net_inv B d ws s0 Reqs Ans (n\<lparr> nw_clients := (nw_clients n)(pid \<mapsto>
        \<lparr> cl_tester = tester_start pid (fresh_file (lines_text (ws pid))), cl_sent = False, cl_left = False \<rparr>),
      nw_server := (nw_server n)\<lparr> sy_register := sy_register (nw_server n) @ [write_register pid (inputQueueName pid)] \<rparr> \<rparr>)"
    (is "net_inv _ _ _ _ _ _ ?n")
proof -
  let ?m = "write_register pid (inputQueueName pid)"
  have i: "good_input B (ws pid)" using assms(2) by blast
  then have "1 \<le> B" "B < 2 ^ 25" "int (length (lines_text (ws pid))) + 48 \<le> B" by (simp_all add: good_input_def)
  from tester_inv_start [OF good_input_lines(1) [OF i] this, of pid] good_input_lines(2) [OF i]
  have t: "tester_inv B pid (ws pid) (tester_start pid (fresh_file (lines_text (ws pid)))) [] []" by simp
  have "register_message ?m"
    using assms(4) queue_name_ok [OF assms(4)] token_inputQueueName by (auto simp: register_message_def)
  then have mv: "moves register_message result_message report_message (boot s0) (nw_server ?n)"
    using assms(1) moves.registers by (simp add: net_inv_def)
  obtain Job rpids where "served_inv B d Reqs Job rpids (nw_workers n) (nw_server n)" using assms(1) by (auto simp: net_inv_def)
  then have "served_inv B d Reqs Job rpids (nw_workers ?n) (nw_server ?n)" using assms(4) by (auto simp: served_inv_def)
  moreover have "client_inv B d ws ?n p (Reqs p) (Ans p)" for p
  proof -
    have c: "client_inv B d ws n p (Reqs p) (Ans p)" using assms(1) by (simp add: net_inv_def)
    show ?thesis
    proof (cases "p = pid")
      case True
      then have "Reqs pid = []" "Ans pid = []" using c assms(3) by (simp_all add: client_inv_def)
      with c True t assms(4) show ?thesis by (simp add: client_inv_def)
    next
      case False
      then show ?thesis by (intro client_inv_frame [OF c]) simp_all
    qed
  qed
  ultimately show ?thesis using mv by (auto simp: net_inv_def)
qed

text \<open>More requests change nothing for what is already there.\<close>

lemma served_more_requests:
  assumes "served_inv B d Reqs Job rpids wks y" "good_requests B Reqs'" "\<And>p. set (Reqs p) \<subseteq> set (Reqs' p)"
    and "\<forall>m \<in> set ms. known_request Reqs' m"
  shows "served_inv B d Reqs' Job rpids wks (y\<lparr> sy_report := sy_report y @ ms \<rparr>)"
proof -
  have "net_server d Reqs' Job (sy_server y)"
    using assms(1,3) by (auto simp: served_inv_def net_server_def)
  moreover have "known_request Reqs' m" if "known_request Reqs m" for m
    using that assms(3) unfolding known_request_def by blast
  then have "\<forall>m \<in> set (sy_report y @ ms). known_request Reqs' m" using assms(1,4) by (auto simp: served_inv_def)
  ultimately show ?thesis using assms(1,2) by (simp add: served_inv_def)
qed

lemma right_answer_more: "right_answer d reqs m \<Longrightarrow> right_answer d (reqs @ new) m"
  by (auto simp: right_answer_def)

lemma net_sends:
  assumes inv: "net_inv B d ws s0 Reqs Ans n" and input: "\<forall>pid. good_input B (ws pid)" and c: "nw_clients n pid = Some c"
    and live: "\<not> cl_left c" and t: "tester_read pid (cl_tester c) = Inr t"
  shows "\<exists>Reqs'. net_inv B d ws s0 Reqs' Ans (n\<lparr> nw_clients := (nw_clients n)(pid \<mapsto> c\<lparr> cl_tester := t, cl_sent := True \<rparr>),
      nw_server := (nw_server n)\<lparr> sy_report := sy_report (nw_server n) @ drop (length (tt_sent (cl_tester c))) (tt_sent t) \<rparr> \<rparr>)"
    (is "\<exists>Reqs'. net_inv _ _ _ _ _ _ ?n")
proof -
  have ci: "client_inv B d ws n p (Reqs p) (Ans p)" for p using inv by (simp add: net_inv_def)
  from ci [of pid] c have ti: "in_int pid" "tester_inv B pid (ws pid) (cl_tester c) (Reqs pid) (Ans pid)" by (simp_all add: client_inv_def)
  from tester_read_inv [OF ti(2)] t obtain new e where t': "tester_inv B pid (ws pid) t (Reqs pid @ new) (Ans pid)"
    "tt_sent t = tt_sent (cl_tester c) @ requests_text pid new @ e" "e = [] \<or> e = [''exit'']" by auto
  let ?R = "Reqs(pid := Reqs pid @ new)" let ?ms = "requests_text pid new @ e"
  obtain Job rpids where s: "served_inv B d Reqs Job rpids (nw_workers n) (nw_server n)" using inv by (auto simp: net_inv_def)
  then have "good_requests B Reqs" by (simp add: served_inv_def)
  then have g: "good_requests B ?R"
    using good_request_words [OF input ti(1) t'(1)] by (simp add: good_requests_def del: set_append)
  have k: "\<forall>m \<in> set ?ms. known_request ?R m"
    using t'(3) by (fastforce simp: requests_text_def known_request_def)
  have "served_inv B d ?R Job rpids (nw_workers ?n) (nw_server ?n)"
    using served_more_requests [OF s g _ k] t'(2) by simp
  moreover have "moves register_message result_message report_message (boot s0) (nw_server ?n)"
    using moves_reports [of register_message result_message report_message "boot s0" "nw_server n" ?ms] inv
      known_request_report [OF g] k t'(2) by (simp add: net_inv_def)
  moreover have "client_inv B d ws ?n p (?R p) (Ans p)" for p
  proof (cases "p = pid")
    case True
    with ci [of pid] c t'(1) live show ?thesis by (auto simp: client_inv_def right_answer_more)
  next
    case False
    then show ?thesis using ci [of p] by (auto intro: client_inv_frame)
  qed
  ultimately have "net_inv B d ws s0 ?R Ans ?n" unfolding net_inv_def by blast
  then show ?thesis by blast
qed

text \<open>A message tells the number and the answer apart.\<close>

lemma write_answer_inj:
  assumes "in_int l" "in_int r" "in_int l'" "in_int r'" "write_answer l r = write_answer l' r'"
  shows "l = l' \<and> r = r'"
proof -
  have "(2 :: int, [AInt l, AInt r]) = (2, [AInt l', AInt r'])"
    by (simp only: read_write_answer [OF assms(1,2), symmetric] read_write_answer [OF assms(3,4), symmetric] assms(5))
  then show ?thesis by simp
qed

lemma verdict_int: "in_int (verdict d w)"
  by (simp add: verdict_def in_int_def)

lemma right_answer_message:
  assumes "good_requests B Reqs" "right_answer d (Reqs pid) m"
  shows "server_message B m"
proof (cases "m = ''exit''")
  case False
  then obtain l w where lw: "(l, w) \<in> set (Reqs pid)" "m = write_answer l (verdict d w)"
    using assms(2) by (auto simp: right_answer_def)
  then have "1 \<le> l \<and> l + 47 \<le> B" using assms(1) by (fastforce simp: good_requests_def)
  then have "answer_for B l (verdict d w) m" using lw(2) verdict_int by (simp add: answer_for_def)
  then show ?thesis unfolding server_message_def by blast
qed (simp add: server_message_def)

lemma right_print_new:
  assumes "good_requests B Reqs" "tester_inv B pid ws t (Reqs pid) (ans @ got)" "from_messages M got"
    and "\<forall>m \<in> M. right_answer d (Reqs pid) m" "\<forall>(l, w, r) \<in> set got. in_int r"
  shows "right_print d got"
proof -
  have b: "distinct (map fst (Reqs pid))" "answered_word ` set (ans @ got) \<subseteq> set (Reqs pid)" using assms(2) by (simp_all add: tester_inv_def books_ok_def)
  have "r = verdict d w" if g: "(l, w, r) \<in> set got" for l w r
  proof -
    have lw: "(l, w) \<in> set (Reqs pid)" using b(2) g by (force simp: answered_word_def)
    have "right_answer d (Reqs pid) (write_answer l r)" using assms(3,4) g by (force simp: from_messages_def)
    then obtain l' w' where lw': "(l', w') \<in> set (Reqs pid)" "write_answer l r = write_answer l' (verdict d w')"
      using write_answer_not_exit by (auto simp: right_answer_def)
    have "in_int l" "in_int l'" using assms(1) lw lw'(1) by (fastforce simp: good_requests_def in_int_def)+
    with write_answer_inj [OF _ _ _ verdict_int lw'(2)] assms(5) g have "l = l'" "r = verdict d w'" by auto
    with lw lw'(1) b(1) show ?thesis by (auto dest: eq_key_imp_eq_value)
  qed
  then show ?thesis by (auto simp: right_print_def)
qed

lemma net_receives:
  assumes inv: "net_inv B d ws s0 Reqs Ans n" and c: "nw_clients n pid = Some c" and live: "\<not> cl_left c"
    and t: "tester_receive (nw_inbox n pid) (cl_tester c) = Inr (t, q, exits)"
  shows "\<exists>Ans'. net_inv B d ws s0 Reqs Ans' (n\<lparr> nw_clients := (nw_clients n)(pid \<mapsto>
        c\<lparr> cl_tester := t, cl_sent := False, cl_left := exits \<or> left_loop t \<rparr>),
      nw_inbox := (nw_inbox n)(pid := q) \<rparr>)" (is "\<exists>Ans'. net_inv _ _ _ _ _ _ ?n")
proof -
  have ci: "client_inv B d ws n p (Reqs p) (Ans p)" for p using inv by (simp add: net_inv_def)
  from ci [of pid] c have ti: "in_int pid" "tester_inv B pid (ws pid) (cl_tester c) (Reqs pid) (Ans pid)" "right_print d (Ans pid)"
    by (simp_all add: client_inv_def)
  obtain Job rpids where s: "served_inv B d Reqs Job rpids (nw_workers n) (nw_server n)" using inv by (auto simp: net_inv_def)
  then have g: "good_requests B Reqs" by (simp add: served_inv_def)
  have box: "\<forall>m \<in> set (nw_inbox n pid). right_answer d (Reqs pid) m \<and>
      SentTo (inputQueueName pid) m \<in> set (sv_log (sy_server (nw_server n)))"
    using ci [of pid] ti(1) by (simp add: client_inv_def)
  then have "\<forall>m \<in> set (nw_inbox n pid). server_message B m" using right_answer_message [OF g] by blast
  from tester_receive_inv [OF ti(2) this] t obtain got k where t': "tester_inv B pid (ws pid) t (Reqs pid) (Ans pid @ got)"
    "q = drop k (nw_inbox n pid)" "from_messages (set (nw_inbox n pid)) got" "exits \<longrightarrow> ''exit'' \<in> set (nw_inbox n pid)"
    "\<forall>(l, w, r) \<in> set got. in_int r" by auto
  have "right_print d got" using right_print_new [OF g t'(1,3)] box t'(5) by blast
  then have p: "right_print d (Ans pid @ got)" using ti(3) by (auto simp: right_print_def)
  have q: "set q \<subseteq> set (nw_inbox n pid)" unfolding t'(2) by (rule set_drop_subset)
  let ?A = "Ans(pid := Ans pid @ got)"
  have "client_inv B d ws ?n p (Reqs p) (?A p)" for p
  proof (cases "p = pid")
    case True
    with t'(1,4) box q p ti(1) show ?thesis by (auto simp: client_inv_def)
  next
    case False
    then show ?thesis using ci [of p] by (auto intro: client_inv_frame)
  qed
  moreover have "served_inv B d Reqs Job rpids (nw_workers ?n) (nw_server ?n)" using s by simp
  ultimately have "net_inv B d ws s0 Reqs ?A ?n" using inv unfolding net_inv_def by auto
  then show ?thesis by blast
qed

lemma set_sent_to: "m \<in> set (sent_to q es) \<longleftrightarrow> SentTo q m \<in> set es"
  by (induction q es rule: sent_to.induct) auto

lemma net_serves:
  assumes inv: "net_inv B d ws s0 Reqs Ans n" and "length (sv_buffer s0) < 100" "consistent Registering s0"
    and step: "server_step ke (nw_server n) = Some y" and fresh: "fresh_workers n y"
  shows "net_inv B d ws s0 Reqs Ans (n\<lparr> nw_server := y, nw_inbox := deliver (new_events (nw_server n) y) (nw_inbox n),
      nw_workers := nw_workers n @
        map (\<lambda>(wp, argv). (wp, argv, sv_fds (sy_server y))) (spawned (new_events (nw_server n) y)) \<rparr>)"
    (is "net_inv _ _ _ _ _ _ ?n")
proof -
  have mv: "moves register_message result_message report_message (boot s0) (nw_server n)" using inv by (simp add: net_inv_def)
  have "runs_well Registering s0" using assms(2,3) by (simp add: runs_well_def)
  from safety.reached [OF mv this] have ok: "server_ok (sy_server (nw_server n))" by (rule runs_well_ok)
  obtain Job rpids where s: "served_inv B d Reqs Job rpids (nw_workers n) (nw_server n)" using inv by (auto simp: net_inv_def)
  have "move_ok B d Reqs (nw_workers n) (nw_server n) y"
    using fresh by (intro server_move [OF s ok step]) (auto simp: fresh_workers_def)
  then obtain Job' rpids' es where m: "sv_log (sy_server y) = sv_log (sy_server (nw_server n)) @ es"
    "served_inv B d Reqs Job' rpids' (nw_workers n @ map (\<lambda>(wp, argv). (wp, argv, sv_fds (sy_server y))) (spawned es)) y"
    "\<forall>e \<in> set es. good_event d Reqs e" by (auto simp: move_ok_def)
  have es: "new_events (nw_server n) y = es" by (simp add: new_events_def m(1))
  have "client_inv B d ws ?n p (Reqs p) (Ans p)" for p
  proof -
    have c: "client_inv B d ws n p (Reqs p) (Ans p)" using inv by (simp add: net_inv_def)
    have "right_answer d (Reqs p) x \<and> SentTo (inputQueueName p) x \<in> set (sv_log (sy_server y))"
      if "in_int p" "x \<in> set (nw_inbox ?n p)" for x
    proof (cases "x \<in> set (nw_inbox n p)")
      case True
      with c that(1) m(1) show ?thesis by (simp add: client_inv_def)
    next
      case False
      then have e: "SentTo (inputQueueName p) x \<in> set es" using that(2) by (simp add: deliver_def es set_sent_to)
      then obtain p' where p': "in_int p'" "inputQueueName p = inputQueueName p'" "right_answer d (Reqs p') x"
        using m(3) by (force simp: good_event_def)
      with queue_name_inj [OF that(1)] e m(1) show ?thesis by auto
    qed
    with c m(1) show ?thesis unfolding client_inv_def by (cases "nw_clients n p") auto
  qed
  moreover have "moves register_message result_message report_message (boot s0) y" using mv step by (rule moves.serves)
  ultimately show ?thesis using m(2) es by (auto simp: net_inv_def)
qed

text \<open>A worker that gets through found room in the queue and leaves the right result at its end.\<close>

lemma works_appends:
  assumes "served_inv B d Reqs Job rpids (nw_workers n) (nw_server n)" "wf_description d"
    and w: "nw_workers n = us @ (wk_pid ke, argv, k) # vs" and q: "shared_queue n i s"
    and run: "run_main ke argv memory k s = Inr (Some (s', k'))"
  shows "mq_msgs (sys_queue s' i) = sy_result (nw_server n) @ [write_run_terminate (wk_pid ke) (verdict d (Job (wk_pid ke)))] \<and>
    fits_queue (mq_msgs (sys_queue s' i)) \<and> in_int (wk_pid ke)"
proof -
  let ?wp = "wk_pid ke"
  have g: "good_worker d Job (?wp, argv, k)" "in_int ?wp" using assms(1) w by (simp_all add: served_inv_def)
  then obtain id flags where a: "wf_word (Job ?wp)" "argv = [''run'', snd (msgPipeIDToStr id), Job ?wp] @ flags"
    "graph_pipe id (render d) k" by (auto simp: good_worker_def)
  have rq: "result_queue i s" "mq_msgs (sys_queue s i) = sy_result (nw_server n)" "mq_maxmsg (sys_queue s i) = nat MSG_QUEUE_SIZE"
    using q by (simp_all add: shared_queue_def)
  from run_main_success [OF assms(2) a(1,3) rq(1) g(2) run [unfolded a(2)]] rq(2,3) g(2) show ?thesis
    by (simp add: verdict_def has_room_def fits_queue_def config)
qed

lemma net_works:
  assumes inv: "net_inv B d ws s0 Reqs Ans n" and d: "wf_description d" and w: "nw_workers n = us @ (wk_pid ke, argv, k) # vs"
    and q: "shared_queue n i s" and run: "run_main ke argv memory k s = Inr (Some (s', k'))"
  shows "net_inv B d ws s0 Reqs Ans (n\<lparr> nw_workers := us @ vs,
      nw_server := (nw_server n)\<lparr> sy_result := mq_msgs (sys_queue s' i) \<rparr> \<rparr>)" (is "net_inv _ _ _ _ _ _ ?n")
proof -
  let ?wp = "wk_pid ke"
  obtain Job rpids where s: "served_inv B d Reqs Job rpids (nw_workers n) (nw_server n)" using inv by (auto simp: net_inv_def)
  have ms: "mq_msgs (sys_queue s' i) = sy_result (nw_server n) @ [write_run_terminate ?wp (verdict d (Job ?wp))]" "in_int ?wp"
    using works_appends [OF s d w q run] by simp_all
  show ?thesis
  proof (rule net_invI)
    show "served_inv B d Reqs Job (rpids @ [?wp]) (nw_workers ?n) (nw_server ?n)"
      using s w ms(1) by (auto simp: served_inv_def)
    have "result_message (write_run_terminate ?wp (verdict d (Job ?wp)))"
      using ms(2) verdict_int in_int_llong by (auto simp: result_message_def)
    then show "moves register_message result_message report_message (boot s0) (nw_server ?n)"
      using inv moves.results ms(1) by (simp add: net_inv_def)
    have c: "client_inv B d ws n p (Reqs p) (Ans p)" for p using inv by (simp add: net_inv_def)
    show "client_inv B d ws ?n p (Reqs p) (Ans p)" for p
      by (rule client_inv_frame [OF c]) simp_all
  qed
qed

lemma net_dies:
  assumes inv: "net_inv B d ws s0 Reqs Ans n" and w: "nw_workers n = us @ wk # vs"
  shows "net_inv B d ws s0 Reqs Ans (n\<lparr> nw_workers := us @ vs \<rparr>)" (is "net_inv _ _ _ _ _ _ ?n")
proof -
  obtain Job rpids where "served_inv B d Reqs Job rpids (nw_workers n) (nw_server n)" using inv by (auto simp: net_inv_def)
  then have s: "served_inv B d Reqs Job rpids (us @ vs) (nw_server n)" using w by (auto simp: served_inv_def)
  show ?thesis
  proof (rule net_invI)
    show "served_inv B d Reqs Job rpids (nw_workers ?n) (nw_server ?n)" using s by simp
    show "moves register_message result_message report_message (boot s0) (nw_server ?n)" using inv by (simp add: net_inv_def)
    have c: "client_inv B d ws n p (Reqs p) (Ans p)" for p using inv by (simp add: net_inv_def)
    show "client_inv B d ws ?n p (Reqs p) (Ans p)" for p
      by (rule client_inv_frame [OF c]) simp_all
  qed
qed

section \<open>Every run of the program\<close>

lemma runs_inv:
  assumes "runs (\<lambda>pid. lines_text (ws pid)) s0 n" "wf_description d" "\<forall>pid. good_input B (ws pid)"
    and s0: "net_server d (\<lambda>_. []) (\<lambda>_. []) s0" "length (sv_buffer s0) < 100" "consistent Registering s0"
  shows "\<exists>Reqs Ans. net_inv B d ws s0 Reqs Ans n"
  using assms(1)
proof (induction rule: runs.induct)
  case boots
  have "good_requests B (\<lambda>_. [])" using assms(3) by (auto simp: good_requests_def good_input_def)
  then have "served_inv B d (\<lambda>_. []) (\<lambda>_. []) [] [] (boot s0)" using s0(1) by (simp add: served_inv_def boot_def)
  then have "net_inv B d ws s0 (\<lambda>_. []) (\<lambda>_. [])
      \<lparr> nw_server = boot s0, nw_clients = (\<lambda>_. None), nw_inbox = (\<lambda>_. []), nw_workers = [] \<rparr>"
    by (auto simp: net_inv_def client_inv_def right_print_def intro: moves.start)
  then show ?case by blast
next
  case (steps n n')
  from steps.IH obtain Reqs Ans where inv: "net_inv B d ws s0 Reqs Ans n" by blast
  from steps.hyps(2) show ?case
  proof (cases rule: net_step.cases)
    case (enters pid)
    then show ?thesis using net_enters [OF inv assms(3)] by blast
  next
    case (sends pid c t)
    then show ?thesis using net_sends [OF inv assms(3)] by blast
  next
    case (receives pid c t q exits)
    then show ?thesis using net_receives [OF inv] by blast
  next
    case (serves ke y)
    then show ?thesis using net_serves [OF inv s0(2,3)] by blast
  next
    case (works us ke argv k vs i s memory s' k')
    then show ?thesis using net_works [OF inv assms(2)] by blast
  next
    case (dies us w vs)
    then show ?thesis using net_dies [OF inv] by blast
  qed
qed

text \<open>The server the program starts: it has read the description and knows no one.\<close>

definition good_start :: "description \<Rightarrow> string \<Rightarrow> descriptors \<Rightarrow> bool" where
  "good_start d g fds \<longleftrightarrow> wf_description d \<and> length (render d) \<le> k_capacity fds \<and>
     int (length (render d)) < GRAPH_BUF_SIZE \<and> 0 \<le> k_next_fd fds \<and> length g < 100"

lemma runs_from_start:
  assumes "runs (\<lambda>pid. lines_text (ws pid)) (server_start g g2 fds (render d) verbose) n" "good_start d g fds"
    and "\<forall>pid. good_input B (ws pid)"
  shows "\<exists>Reqs Ans. net_inv B d ws (server_start g g2 fds (render d) verbose) Reqs Ans n"
proof (rule runs_inv [OF assms(1) _ assms(3)])
  show "net_server d (\<lambda>_. []) (\<lambda>_. []) (server_start g g2 fds (render d) verbose)" "wf_description d"
    "length (sv_buffer (server_start g g2 fds (render d) verbose)) < 100"
    using assms(2) by (simp_all add: good_start_def net_server_def server_start_def)
  show "consistent Registering (server_start g g2 fds (render d) verbose)" by (rule consistent_start)
qed

text \<open>No queue ever holds more than it can: the server only takes from its queues, the others wait for room.\<close>

definition queues_fit :: "network \<Rightarrow> bool" where
  "queues_fit n \<longleftrightarrow> fits_queue (sy_register (nw_server n)) \<and> fits_queue (sy_result (nw_server n)) \<and> fits_queue (sy_report (nw_server n)) \<and>
     (\<forall>pid. in_int pid \<longrightarrow> fits_queue (nw_inbox n pid))"

lemma fits_queue_shorter: "fits_queue ms \<Longrightarrow> length ms' \<le> length ms \<Longrightarrow> fits_queue ms'"
  by (simp add: fits_queue_def)

lemma after_children_queues:
  "sy_register (after_children ke b y) = sy_register y \<and> sy_result (after_children ke b y) = sy_result y \<and>
   sy_report (after_children ke b y) = sy_report y"
  by (simp add: after_children_def Let_def split: sum.split)

lemma continue_with_queues [simp]:
  "sy_register (continue_with r p y) = sy_register y" "sy_result (continue_with r p y) = sy_result y"
  "sy_report (continue_with r p y) = sy_report y"
  by (simp_all add: continue_with_def split: sum.split)

lemma server_step_takes:
  assumes "server_step ke y = Some y'"
  shows "length (sy_register y') \<le> length (sy_register y) \<and> length (sy_result y') \<le> length (sy_result y) \<and>
    length (sy_report y') \<le> length (sy_report y)"
  using assms after_children_queues by (auto simp: server_step_def split: phase.splits list.splits if_splits)

lemma tester_receive_shorter:
  "tester_receive q t = Inr (t', q', exits) \<Longrightarrow> length q' \<le> length q"
  by (auto simp: tester_receive_def and_then_Inr split: if_splits list.splits)

lemma net_step_fits:
  assumes "net_step inputs n n'" "net_inv B d ws s0 Reqs Ans n" "wf_description d" "queues_fit n"
  shows "queues_fit n'"
  using assms(1)
proof (cases rule: net_step.cases)
  case (enters pid)
  with assms(4) show ?thesis by (simp add: queues_fit_def)
next
  case (sends pid c t)
  with assms(4) show ?thesis by (simp add: queues_fit_def)
next
  case (receives pid c t q exits)
  then have "length q \<le> length (nw_inbox n pid)" using tester_receive_shorter by blast
  with receives assms(4) show ?thesis by (auto simp: queues_fit_def intro: fits_queue_shorter)
next
  case (serves ke y)
  from server_step_takes [OF serves(2)] serves(1,4) assms(4) show ?thesis by (auto simp: queues_fit_def intro: fits_queue_shorter)
next
  case (works us ke argv k vs i s memory s' k')
  obtain Job rpids where "served_inv B d Reqs Job rpids (nw_workers n) (nw_server n)" using assms(2) by (auto simp: net_inv_def)
  then have "fits_queue (mq_msgs (sys_queue s' i))" using works_appends [OF _ assms(3) works(2-4)] by blast
  with works(1) assms(4) show ?thesis by (simp add: queues_fit_def)
next
  case (dies us w vs)
  with assms(4) show ?thesis by (simp add: queues_fit_def)
qed

lemma runs_fit:
  assumes "runs (\<lambda>pid. lines_text (ws pid)) (server_start g g2 fds (render d) verbose) n" "good_start d g fds"
    and "\<forall>pid. good_input B (ws pid)"
  shows "queues_fit n"
  using assms(1)
proof (induction rule: runs.induct)
  case boots
  show ?case by (simp add: queues_fit_def fits_queue_def boot_def config)
next
  case (steps n n')
  obtain Reqs Ans where "net_inv B d ws (server_start g g2 fds (render d) verbose) Reqs Ans n"
    using runs_from_start [OF steps.hyps(1) assms(2,3)] by blast
  then show ?case using net_step_fits [OF steps.hyps(2)] steps.IH assms(2) by (simp add: good_start_def)
qed

text \<open>
  So the lists are queues as MsgQueue has them: there is room for a message exactly when a blocking write
  of it does not wait, and every message is shorter than the queues allow, so no write ends its process.
\<close>

lemma write_needs_room:
  assumes "q_rep q (nat MSG_QUEUE_SIZE) l True s ms" "length m < l"
  shows "msgQueueWrite q (Some m) s = Inr None \<longleftrightarrow> \<not> fits_queue (ms @ [m])"
    and "fits_queue (ms @ [m]) \<Longrightarrow>
      \<exists>s'. msgQueueWrite q (Some m) s = Inr (Some (0, s')) \<and> q_rep q (nat MSG_QUEUE_SIZE) l True s' (ms @ [m])"
proof -
  have n: "fits_queue (ms @ [m]) \<longleftrightarrow> length ms < nat MSG_QUEUE_SIZE" by (auto simp: fits_queue_def config)
  show w: "\<exists>s'. msgQueueWrite q (Some m) s = Inr (Some (0, s')) \<and> q_rep q (nat MSG_QUEUE_SIZE) l True s' (ms @ [m])"
    if "fits_queue (ms @ [m])"
    using queue.wr_room [OF assms] that n by blast
  show "msgQueueWrite q (Some m) s = Inr None \<longleftrightarrow> \<not> fits_queue (ms @ [m])"
  proof
    assume "\<not> fits_queue (ms @ [m])"
    then show "msgQueueWrite q (Some m) s = Inr None" using queue.wr_full [OF assms] n by simp
  next
    assume "msgQueueWrite q (Some m) s = Inr None"
    with w show "\<not> fits_queue (ms @ [m])" by auto
  qed
qed

definition short_messages :: "string list \<Rightarrow> bool" where
  "short_messages ms \<longleftrightarrow> (\<forall>m \<in> set ms. length m < nat MSG_SIZE)"

lemma parse_short: "good_request pid q l w \<Longrightarrow> length (write_parse pid q l w) < 1020"
  using length_show_int [of pid] length_show_int [of l] by (simp add: good_request_def write_parse_def sprintf_def formats)

lemma answer_short: "in_int l \<Longrightarrow> in_int r \<Longrightarrow> length (write_answer l r) < 1020"
  using length_show_int [of l] length_show_int [of r] by (simp add: write_answer_def sprintf_def formats)

lemma net_messages_short:
  assumes "net_inv B d ws s0 Reqs Ans n"
  shows "short_messages (sy_register (nw_server n)) \<and> short_messages (sy_result (nw_server n)) \<and>
    short_messages (sy_report (nw_server n)) \<and> (\<forall>pid. in_int pid \<longrightarrow> short_messages (nw_inbox n pid))"
proof -
  obtain Job rpids where "served_inv B d Reqs Job rpids (nw_workers n) (nw_server n)" using assms by (auto simp: net_inv_def)
  then have g: "good_requests B Reqs" and k: "\<forall>m \<in> set (sy_report (nw_server n)). known_request Reqs m"
    and reg: "\<forall>m \<in> set (sy_register (nw_server n)). \<exists>pid. in_int pid \<and> m = write_register pid (inputQueueName pid)"
    and res: "sy_result (nw_server n) = map (\<lambda>wp. write_run_terminate wp (verdict d (Job wp))) rpids" "\<forall>wp \<in> set rpids. in_int wp"
    by (simp_all add: served_inv_def)
  have rep: "length m < 1020" if "known_request Reqs m" for m
    using that net_request_good [OF g] parse_short by (fastforce simp: known_request_def)
  have ans: "length m < 1020" if a: "right_answer d (Reqs pid) m" for m pid
  proof (cases "m = ''exit''")
    case False
    then obtain l w where lw: "(l, w) \<in> set (Reqs pid)" "m = write_answer l (verdict d w)"
      using a by (auto simp: right_answer_def)
    then have "in_int l" using g by (fastforce simp: good_requests_def in_int_def)
    with lw(2) answer_short verdict_int show ?thesis by simp
  qed simp
  have "short_messages (nw_inbox n pid)" if "in_int pid" for pid
  proof -
    have "client_inv B d ws n pid (Reqs pid) (Ans pid)" using assms by (simp add: net_inv_def)
    then have "\<forall>m \<in> set (nw_inbox n pid). right_answer d (Reqs pid) m" using that by (simp add: client_inv_def)
    then show ?thesis using ans by (simp add: short_messages_def config) blast
  qed
  moreover have "length (write_run_terminate wp (verdict d (Job wp))) < 1020" if "in_int wp" for wp
    using result_message_short [OF that verdict_int, of d "Job wp"] by linarith
  ultimately show ?thesis using k rep reg res write_register_length by (auto simp: short_messages_def config)
qed

text \<open>What a client has printed, in terms of the words it was given.\<close>

lemma printed_words:
  assumes "tester_inv B pid ws t reqs ans" "right_print d ans"
  shows "distinct (map fst (map answered_word ans)) \<and>
    mset (map snd (map answered_word ans)) \<subseteq># mset (takeWhile (\<lambda>w. w \<noteq> ''!'') ws) \<and>
    tt_out t = sprintf ''PID: %d'' [AInt pid] @ [NEWLINE] @
      concat (map (\<lambda>(l, w). answer_line w (verdict d w)) (map answered_word ans)) \<and>
    tt_ans t = int (length (map answered_word ans)) \<and>
    tt_acc t = int (length (filter (\<lambda>(l, w). ds_accepts d (ds_q0 d) w) (map answered_word ans))) \<and>
    (left_loop t \<longrightarrow> mset (map snd (map answered_word ans)) = mset (takeWhile (\<lambda>w. w \<noteq> ''!'') ws))"
proof -
  have b: "books_ok reqs ans (tt_loc t)" and i: "input_ok ws reqs t" using assms(1) by (simp_all add: tester_inv_def)
  have f: "fst \<circ> answered_word = fst" by (auto simp: answered_word_def)
  have d: "distinct (map fst (map answered_word ans))" "distinct (map fst reqs)" "set (map answered_word ans) \<subseteq> set reqs"
    using b by (simp_all add: books_ok_def f)
  then have dd: "distinct (map answered_word ans)" "distinct reqs" using distinct_map by blast+
  have words: "takeWhile (\<lambda>w. w \<noteq> ''!'') ws = map snd reqs @ (if tt_read_input t then drop (length reqs) (words_to_send ws) else [])"
    using i by (cases "tt_read_input t") (auto simp: input_ok_def words_to_send_def)
  have "mset (map answered_word ans) \<subseteq># mset reqs"
    using subset_imp_msubset_mset_set [OF d(3)] mset_set_set [OF dd(1)] mset_set_set [OF dd(2)] by simp
  then have "mset (map snd (map answered_word ans)) \<subseteq># mset (map snd reqs)"
    using image_mset_subseteq_mono [of _ _ snd] by (simp only: mset_map)
  then have sub: "mset (map snd (map answered_word ans)) \<subseteq># mset (takeWhile (\<lambda>w. w \<noteq> ''!'') ws)"
    unfolding words mset_append by (rule subset_mset.order_trans) simp
  have r: "\<forall>a \<in> set ans. snd (snd a) = verdict d (fst (snd a))" using assms(2) by (auto simp: right_print_def)
  then have "answers_text ans = concat (map (\<lambda>(l, w). answer_line w (verdict d w)) (map answered_word ans))"
    by (auto simp: answers_text_def answered_word_def split_beta intro!: arg_cong [of _ _ concat])
  moreover have "length (filter (\<lambda>(l, w, r). r \<noteq> 0) ans) = length (filter (\<lambda>(l, w). ds_accepts d (ds_q0 d) w) (map answered_word ans))"
    using r by (induction ans) (auto simp: answered_word_def verdict_def)
  moreover have "mset (map snd (map answered_word ans)) = mset (takeWhile (\<lambda>w. w \<noteq> ''!'') ws)" if "left_loop t"
  proof -
    have "length reqs \<le> length ans" and stop: "\<not> tt_read_input t" using that assms(1) by (auto simp: left_loop_def tester_inv_def)
    then have "set (map answered_word ans) = set reqs" using books_complete [OF b] by simp
    then have "mset (map answered_word ans) = mset reqs" using set_eq_iff_mset_eq_distinct [OF dd] by simp
    moreover have "takeWhile (\<lambda>w. w \<noteq> ''!'') ws = map snd reqs" using words stop by simp
    ultimately show ?thesis by (simp only: mset_map)
  qed
  ultimately show ?thesis using assms(1) d(1) sub by (simp add: tester_inv_def del: map_map)
qed

text \<open>The state of the server and the output of a client, at any moment of any run.\<close>

lemma program_output:
  assumes "runs (\<lambda>pid. lines_text (ws pid)) (server_start g g2 fds (render d) verbose) n" "good_start d g fds"
    and "\<forall>pid. good_input B (ws pid)" "nw_clients n pid = Some c"
  shows "sy_phase (nw_server n) \<noteq> Dead Undefined \<and>
    (\<exists>as :: request list. distinct (map fst as) \<and> mset (map snd as) \<subseteq># mset (takeWhile (\<lambda>w. w \<noteq> ''!'') (ws pid)) \<and>
      tt_out (cl_tester c) = sprintf ''PID: %d'' [AInt pid] @ [NEWLINE] @
        concat (map (\<lambda>(l, w). answer_line w (of_bool (ds_accepts d (ds_q0 d) w))) as) \<and>
      tt_ans (cl_tester c) = int (length as) \<and>
      tt_acc (cl_tester c) = int (length (filter (\<lambda>(l, w). ds_accepts d (ds_q0 d) w) as)) \<and>
      (cl_left c \<and> SentTo (inputQueueName pid) ''exit'' \<notin> set (sv_log (sy_server (nw_server n))) \<longrightarrow>
        mset (map snd as) = mset (takeWhile (\<lambda>w. w \<noteq> ''!'') (ws pid))))"
proof -
  obtain Reqs Ans where inv: "net_inv B d ws (server_start g g2 fds (render d) verbose) Reqs Ans n"
    using runs_from_start [OF assms(1-3)] by blast
  have "runs_well Registering (server_start g g2 fds (render d) verbose)"
    using consistent_start assms(2) by (simp add: runs_well_def good_start_def) (simp add: server_start_def)
  then have safe: "sy_phase (nw_server n) \<noteq> Dead Undefined"
    using safety.reached inv by (auto simp: net_inv_def runs_well_def)
  have "client_inv B d ws n pid (Reqs pid) (Ans pid)" using inv by (simp add: net_inv_def)
  then have c: "tester_inv B pid (ws pid) (cl_tester c) (Reqs pid) (Ans pid)" "right_print d (Ans pid)"
    "cl_left c \<longrightarrow> left_loop (cl_tester c) \<or> SentTo (inputQueueName pid) ''exit'' \<in> set (sv_log (sy_server (nw_server n)))"
    using assms(4) by (simp_all add: client_inv_def)
  show ?thesis
    by (rule conjI [OF safe exI [of _ "map answered_word (Ans pid)"]])
       (use printed_words [OF c(1,2)] c(3) in \<open>unfold verdict_def, blast\<close>)
qed

end
