(* ===== verification/Rounds.thy ===== *)
theory Rounds
  imports Network
begin

text \<open>
  Runs, made of steps. Network says what can happen; here is what makes it happen: in a run of the program
  whose server is at ease (not throttled, not asked to terminate) the server goes around its loop, starts a
  worker for a request, the worker reports, the server answers. Each lemma takes a run to the run in which
  this has happened, and says what has changed. The kernel in these runs grants what it is asked for.
\<close>

text \<open>A run from a good start on good inputs.\<close>

definition program_runs :: "description \<Rightarrow> int \<Rightarrow> (int \<Rightarrow> string list) \<Rightarrow> server \<Rightarrow> network \<Rightarrow> bool" where
  "program_runs d B ws s0 n \<longleftrightarrow> runs (\<lambda>pid. lines_text (ws pid)) s0 n \<and>
     (\<exists>g g2 fds verbose. s0 = server_start g g2 fds (render d) verbose \<and> good_start d g fds) \<and> (\<forall>pid. good_input B (ws pid))"

lemma program_runs_step:
  "program_runs d B ws s0 n \<Longrightarrow> net_step (\<lambda>pid. lines_text (ws pid)) n n' \<Longrightarrow> program_runs d B ws s0 n'"
  by (auto simp: program_runs_def intro: runs.steps)

lemma program_runs_fit: "program_runs d B ws s0 n \<Longrightarrow> queues_fit n"
  by (auto simp: program_runs_def intro: runs_fit)

lemma program_runs_inv: "program_runs d B ws s0 n \<Longrightarrow> \<exists>Reqs Ans. net_inv B d ws s0 Reqs Ans n"
  by (auto simp: program_runs_def intro: runs_from_start)

lemma program_runs_description: "program_runs d B ws s0 n \<Longrightarrow> wf_description d"
  by (auto simp: program_runs_def good_start_def)

text \<open>The server is well whenever the program runs.\<close>

lemma runs_server_well:
  assumes "program_runs d B ws s0 n"
  shows "runs_well (sy_phase (nw_server n)) (sy_server (nw_server n)) \<and> server_ok (sy_server (nw_server n)) \<and>
    (\<exists>Reqs Job rpids. served_inv B d Reqs Job rpids (nw_workers n) (nw_server n))"
proof -
  obtain Reqs Ans where inv: "net_inv B d ws s0 Reqs Ans n" using program_runs_inv [OF assms] by blast
  obtain g g2 fds verbose where "s0 = server_start g g2 fds (render d) verbose" "good_start d g fds"
    using assms by (auto simp: program_runs_def)
  then have "runs_well Registering s0"
    using consistent_start by (simp add: runs_well_def good_start_def) (simp add: server_start_def)
  then have "runs_well (sy_phase (nw_server n)) (sy_server (nw_server n))"
    using safety.reached inv by (auto simp: net_inv_def)
  with inv runs_well_ok show ?thesis by (auto simp: net_inv_def)
qed

section \<open>The server at ease\<close>

text \<open>It waits for a report, with nothing in its queues.\<close>

definition waiting :: "server \<Rightarrow> system" where
  "waiting s = \<lparr> sy_server = s, sy_phase = ReadingReport, sy_register = [], sy_result = [], sy_report = [] \<rparr>"

definition at_ease :: "server \<Rightarrow> bool" where
  "at_ease s \<longleftrightarrow> \<not> sv_throttled s \<and> \<not> sv_shouldTerminate s \<and> in_int (k_next_fd (sv_fds s))"

definition granting_to :: "int \<Rightarrow> kernel" where
  "granting_to wp = \<lparr> ke_mq = True, ke_pipe = True, ke_fork = (\<lambda>_. Some wp), ke_wait = NoneEnded \<rparr>"

lemma granting_to_sel [simp]: "ke_mq (granting_to wp)" "ke_pipe (granting_to wp)" "worker_pid (granting_to wp) = Some wp"
  by (simp_all add: granting_to_def worker_pid_def)

lemma deliver_none [simp]: "deliver [] inbox = inbox" "deliver [Spawned wp argv] inbox = inbox"
  by (rule ext, simp add: deliver_def)+

lemma quiet_move:
  assumes "program_runs d B ws s0 n" "server_step ke (nw_server n) = Some y" "sv_log (sy_server y) = sv_log (sy_server (nw_server n))"
    and "in_int (k_next_fd (sv_fds (sy_server y)))"
  shows "program_runs d B ws s0 (n\<lparr> nw_server := y \<rparr>)"
proof -
  have e: "new_events (nw_server n) y = []" by (simp add: new_events_def assms(3))
  then have "fresh_workers n y" using assms(4) by (simp add: fresh_workers_def)
  from program_runs_step [OF assms(1) net_step.serves [OF assms(2) this]] program_runs_fit [OF assms(1)]
  show ?thesis by (simp add: e queues_fit_def)
qed

text \<open>From the start of a round to the place where a result is read, and from there to the next report.\<close>

lemma serve_start:
  assumes "program_runs d B ws s0 n" "nw_server n = (boot s)\<lparr> sy_result := ms \<rparr>" "at_ease s" "sv_active s \<le> SERVER_PROCESS_LIMIT"
  shows "program_runs d B ws s0 (n\<lparr> nw_server := (boot s)\<lparr> sy_result := ms, sy_phase := ReadingResult \<rparr> \<rparr>)"
  by (rule quiet_move [OF assms(1), of "granting_to 0"])
    (use assms(2-4) in \<open>simp_all add: server_step_def boot_def throttle_lock_off continue_with_def at_ease_def\<close>)

lemma serve_children:
  assumes "program_runs d B ws s0 n" "nw_server n = (waiting s)\<lparr> sy_phase := Children b \<rparr>" "at_ease s"
  shows "program_runs d B ws s0 (n\<lparr> nw_server := waiting s \<rparr>)"
proof -
  have "no_child_ended (granting_to 0)" by (simp add: no_child_ended_def granting_to_def)
  then have "server_step (granting_to 0) (nw_server n) = Some (waiting s)"
    using assms(2,3) by (simp add: server_step_def after_children_def reap_none waiting_def Let_def check_force_def at_ease_def)
  from quiet_move [OF assms(1) this] assms(2,3) show ?thesis by (simp add: waiting_def at_ease_def)
qed

text \<open>A whole round without a result.\<close>

lemma quiet_round:
  assumes "program_runs d B ws s0 n" "nw_server n = boot s" "at_ease s" "sv_active s \<le> SERVER_PROCESS_LIMIT"
  shows "program_runs d B ws s0 (n\<lparr> nw_server := waiting s \<rparr>)"
proof -
  let ?n1 = "n\<lparr> nw_server := (boot s)\<lparr> sy_phase := ReadingResult \<rparr> \<rparr>" and ?n2 = "n\<lparr> nw_server := (waiting s)\<lparr> sy_phase := Children True \<rparr> \<rparr>"
  have r1: "program_runs d B ws s0 ?n1" using serve_start [OF assms(1) _ assms(3,4), of "[]"] assms(2) by (simp add: boot_def)
  have "\<not> sv_run_blocking s"
    using runs_server_well [OF assms(1)] assms(2,3) by (simp add: runs_well_def consistent_def boot_def at_ease_def)
  then have "server_step (granting_to 0) (nw_server ?n1) = Some ((waiting s)\<lparr> sy_phase := Children True \<rparr>)"
    by (simp add: server_step_def boot_def waiting_def)
  from quiet_move [OF r1 this] assms(3) have r2: "program_runs d B ws s0 ?n2" by (simp add: boot_def waiting_def at_ease_def)
  from serve_children [OF r2 _ assms(3)] show ?thesis by simp
qed

section \<open>A word on its way\<close>

text \<open>The server starts a worker for a request.\<close>

lemma request_served:
  assumes r: "program_runs d B ws s0 n" and n: "nw_server n = (waiting s)\<lparr> sy_report := [write_parse pid (inputQueueName pid) l w] \<rparr>"
    and good: "good_request pid (inputQueueName pid) l w" and new: "in_int wp" "wp \<notin> fst ` set (nw_workers n)"
    and fd: "in_int (k_next_fd (sv_fds s) + 2)"
  shows "\<exists>s' argv rs. program_runs d B ws s0 (n\<lparr> nw_server := boot s', nw_workers := nw_workers n @ [(wp, argv, sv_fds s')] \<rparr>) \<and>
    sv_run s' = table_put wp rs (sv_run s) \<and> rs_testerSourcePid rs = pid \<and> rs_loc_id rs = l \<and>
    server_ok s' \<and> sv_active s' = sv_active s + 1 \<and> sv_log s' = sv_log s @ [Spawned wp argv] \<and>
    k_next_fd (sv_fds s') = k_next_fd (sv_fds s) + 2 \<and> sv_throttled s' = sv_throttled s \<and> sv_shouldTerminate s' = sv_shouldTerminate s"
proof -
  let ?m = "write_parse pid (inputQueueName pid) l w" and ?ke = "granting_to wp" and ?in = "\<lambda>pid. lines_text (ws pid)"
  have ok: "server_ok s" using runs_server_well [OF r] n by (simp add: waiting_def)
  obtain s' where s': "handle_report ?ke ?m s = Inr s'" "sv_active s' = sv_active s + 1"
    using handle_request [OF ok good granting_to_sel] by blast
  from request_outcome [OF ok good s'(1)] obtain rs i flags where
    o: "k_next_fd (sv_fds s') = k_next_fd (sv_fds s) + 2" "sv_run s' = table_put wp rs (sv_run s)" "rs_testerSourcePid rs = pid"
      "rs_loc_id rs = l" "sv_log s' = sv_log s @ [Spawned wp ([''run'', snd (msgPipeIDToStr i), w] @ flags)]"
    by (simp del: append_Cons) blast
  let ?argv = "[''run'', snd (msgPipeIDToStr i), w] @ flags"
  have ok': "server_ok s'" "sv_throttled s' = sv_throttled s" "sv_shouldTerminate s' = sv_shouldTerminate s"
    using handle_report_ok [OF ok s'(1)] request_read_write(3) [OF good] by simp_all
  have step: "server_step ?ke (nw_server n) = Some (boot s')"
    using n s'(1) by (simp add: server_step_def waiting_def continue_with_def boot_def)
  have es: "new_events (nw_server n) (boot s') = [Spawned wp ?argv]" using n o(5) by (simp add: new_events_def boot_def waiting_def)
  have "fresh_workers n (boot s')" using n new fd o(1) es by (simp add: fresh_workers_def boot_def waiting_def)
  moreover have "\<forall>pid. in_int pid \<longrightarrow> fits_queue (deliver (new_events (nw_server n) (boot s')) (nw_inbox n) pid)"
    using program_runs_fit [OF r] by (simp add: es queues_fit_def)
  ultimately have "net_step ?in n (n\<lparr> nw_server := boot s', nw_workers := nw_workers n @ [(wp, ?argv, sv_fds s')] \<rparr>)"
    using net_step.serves [OF step, of ?in] es by (simp add: boot_def)
  from program_runs_step [OF r this] show ?thesis
    using s'(2) o ok' by (intro exI [of _ s'] exI [of _ ?argv] exI [of _ rs]) simp
qed

text \<open>A worker reports, into an empty queue.\<close>

lemma worker_reports:
  assumes r: "program_runs d B ws s0 n" and n: "nw_workers n = us @ (wp, argv, k) # vs" "sy_result (nw_server n) = []"
  shows "\<exists>v. in_int v \<and> program_runs d B ws s0
    (n\<lparr> nw_workers := us @ vs, nw_server := (nw_server n)\<lparr> sy_result := [write_run_terminate wp v] \<rparr> \<rparr>)"
proof -
  from runs_server_well [OF r] obtain Reqs Job rpids where "served_inv B d Reqs Job rpids (nw_workers n) (nw_server n)" by blast
  then have "good_worker d Job (wp, argv, k)" and wp: "in_int wp" using n(1) by (simp_all add: served_inv_def)
  then obtain i flags where a: "wf_word (Job wp)" "argv = [''run'', snd (msgPipeIDToStr i), Job wp] @ flags" "graph_pipe i (render d) k"
    by (auto simp: good_worker_def)
  let ?ke = "demo_worker\<lparr> wk_pid := wp \<rparr>" and ?v = "of_bool (ds_accepts d (ds_q0 d) (Job wp)) :: int"
  have ke: "wk_prctl ?ke" "wk_sigaction ?ke" "\<not> wk_parent_killed ?ke j" "wk_mq ?ke" "wk_pid ?ke = wp" for j
    by (simp_all add: demo_worker_def)
  obtain s' k' where m: "run_main ?ke argv (newTransitionGraph demo_graph) k demo_queues = Inr (Some (s', k'))"
    "mq_msgs (sys_queue s' 0) = mq_msgs (sys_queue demo_queues 0) @ [write_run_terminate wp ?v]"
    using run_main_answers [OF program_runs_description [OF r] a(1,3) demo_worker_ok(2,3) ke(1,2) ke(3) ke(3) ke(3) ke(4),
        of flags "newTransitionGraph demo_graph"] a(2) ke(5) wp by auto
  have "shared_queue n 0 demo_queues" using n(2) demo_worker_ok(2) by (simp add: shared_queue_def demo_queues_def config)
  then have "net_step (\<lambda>pid. lines_text (ws pid)) n (n\<lparr> nw_workers := us @ vs, nw_server := (nw_server n)\<lparr> sy_result := [write_run_terminate wp ?v] \<rparr> \<rparr>)"
    using net_step.works [OF _ _ m(1), of n us vs 0 "\<lambda>pid. lines_text (ws pid)"] m(2) n(1) ke(5) by (simp add: demo_queues_def)
  moreover have "in_int ?v" by (simp add: in_int_def)
  ultimately show ?thesis using program_runs_step [OF r] by blast
qed

text \<open>The server passes the answer on, when there is room for it, and waits for the next report.\<close>

lemma result_served:
  assumes r: "program_runs d B ws s0 n" and n: "nw_server n = (boot s)\<lparr> sy_result := [write_run_terminate wp v] \<rparr>" "in_int wp" "in_int v"
    and s: "map_of (sv_run s) wp = Some rs" "at_ease s" "sv_active s \<le> SERVER_PROCESS_LIMIT"
    and box: "in_int (rs_testerSourcePid rs)" "int (length (nw_inbox n (rs_testerSourcePid rs))) < MSG_QUEUE_SIZE"
  defines "e \<equiv> SentTo (inputQueueName (rs_testerSourcePid rs)) (write_answer (rs_loc_id rs) v)"
  shows "\<exists>s'. program_runs d B ws s0 (n\<lparr> nw_server := waiting s', nw_inbox := deliver [e] (nw_inbox n) \<rparr>) \<and>
    sv_log s' = sv_log s @ [e] \<and> sv_run s' = table_del wp (sv_run s) \<and> sv_active s' = sv_active s - 1 \<and> at_ease s' \<and>
    k_next_fd (sv_fds s') = k_next_fd (sv_fds s)"
proof -
  let ?m = "write_run_terminate wp v" and ?in = "\<lambda>pid. lines_text (ws pid)" and ?ke = "granting_to 0"
  let ?y1 = "(boot s)\<lparr> sy_result := [?m], sy_phase := ReadingResult \<rparr>"
  have ok: "server_ok s" and modes: "sv_run_blocking s = sv_throttled s" "sv_report_blocking s = (\<not> sv_throttled s)"
    using runs_server_well [OF r] n(1) by (simp_all add: runs_well_def consistent_def boot_def)
  have r1: "program_runs d B ws s0 (n\<lparr> nw_server := ?y1 \<rparr>)" using serve_start [OF r n(1) s(2,3)] .
  obtain s' ts where s': "handle_run_terminate ?ke ?m s = Inr s'" "map_of (sv_testers s) (rs_testerSourcePid rs) = Some ts"
    "sv_log s' = sv_log s @ [SentTo (ts_queue ts) (write_answer (rs_loc_id rs) v)]"
    using handle_answer [OF ok n(2,3) s(1) granting_to_sel(1)] by blast
  have o: "sv_run s' = table_del wp (sv_run s)" "k_next_fd (sv_fds s') = k_next_fd (sv_fds s)"
    using answer_outcome [OF ok n(2,3) s(1) s'(1)] by blast+
  have rd: "fst (read_run_terminate ?m) = 2" using n(2,3) by (simp add: read_write_run_terminate in_int_llong)
  have st: "sv_active s' = sv_active s - 1" "at_ease s'"
    using handle_run_terminate_ok [OF ok modes s'(1)] rd s(2) o(2) by (simp_all add: at_ease_def)
  from runs_server_well [OF r] n(1) obtain Reqs Job rpids where
    "served_inv B d Reqs Job rpids (nw_workers n) (nw_server n)" by blast
  then have "\<forall>kt \<in> set (sv_testers s). ts_queue (snd kt) = inputQueueName (fst kt)"
    using n(1) by (simp add: served_inv_def net_server_def boot_def)
  with map_of_SomeD [OF s'(2)] have "ts_queue ts = inputQueueName (rs_testerSourcePid rs)" by force
  with s'(3) have log: "sv_log s' = sv_log s @ [e]" by (simp add: e_def)
  let ?y2 = "(waiting s')\<lparr> sy_phase := Children False \<rparr>"
  have step: "server_step ?ke (nw_server (n\<lparr> nw_server := ?y1 \<rparr>)) = Some ?y2"
    using s'(1) by (simp add: server_step_def boot_def waiting_def continue_with_def)
  have es: "new_events (nw_server (n\<lparr> nw_server := ?y1 \<rparr>)) ?y2 = [e]" using log by (simp add: new_events_def boot_def waiting_def)
  then have "fresh_workers (n\<lparr> nw_server := ?y1 \<rparr>) ?y2" using st(2) by (simp add: fresh_workers_def at_ease_def e_def waiting_def)
  moreover have "fits_queue (deliver [e] (nw_inbox n) p)" if "in_int p" for p
    using program_runs_fit [OF r] box that queue_name_inj [OF box(1) that] by (auto simp: deliver_def e_def queues_fit_def fits_queue_def)
  ultimately have "net_step ?in (n\<lparr> nw_server := ?y1 \<rparr>) (n\<lparr> nw_server := ?y2, nw_inbox := deliver [e] (nw_inbox n) \<rparr>)"
    using net_step.serves [OF step, of ?in] es by (cases n) (simp add: e_def)
  from program_runs_step [OF r1 this] have r2: "program_runs d B ws s0 (n\<lparr> nw_server := ?y2, nw_inbox := deliver [e] (nw_inbox n) \<rparr>)" .
  from serve_children [OF this _ st(2)] have "program_runs d B ws s0 (n\<lparr> nw_server := waiting s', nw_inbox := deliver [e] (nw_inbox n) \<rparr>)"
    by (cases n) simp
  with log o st show ?thesis by blast
qed

section \<open>The clients\<close>

definition client_at :: "tester \<Rightarrow> bool \<Rightarrow> client" where
  "client_at t sent = \<lparr> cl_tester = t, cl_sent = sent, cl_left = False \<rparr>"

text \<open>A client that still has words sends the next one, when there is room for it.\<close>

lemma word_read:
  assumes "tester_inv B pid ws t reqs ans" "length reqs < length (words_to_send ws)"
  obtains t' l w where "tester_read pid t = Inr t'" "tester_inv B pid ws t' (reqs @ [(l, w)]) ans" "tt_read_input t'"
    "tt_sent t' = tt_sent t @ [write_parse pid (inputQueueName pid) l w]"
proof -
  from tester_read_inv [OF assms(1)] obtain t' new e where t': "tester_read pid t = Inr t'" "tester_inv B pid ws t' (reqs @ new) ans"
    "tt_sent t' = tt_sent t @ requests_text pid new @ e" "(\<exists>lw. new = [lw] \<and> e = [] \<and> tt_read_input t') \<or> new = [] \<and> \<not> tt_read_input t'"
    by blast
  from t'(4) show thesis
  proof
    assume "\<exists>lw. new = [lw] \<and> e = [] \<and> tt_read_input t'"
    then obtain l w where "new = [(l, w)]" "e = []" "tt_read_input t'" by auto
    with t' that show thesis by (simp add: requests_text_def)
  next
    assume "new = [] \<and> \<not> tt_read_input t'"
    then have "words_to_send ws = map snd reqs" using t'(2) by (simp add: tester_inv_def input_ok_def)
    with assms(2) show thesis by simp
  qed
qed

lemma client_sends:
  assumes r: "program_runs d B ws s0 n" and c: "nw_clients n pid = Some (client_at t False)" "in_int pid"
    and t: "tester_inv B pid (ws pid) t reqs ans" "length reqs < length (words_to_send (ws pid))"
    and room: "int (length (sy_report (nw_server n))) < MSG_QUEUE_SIZE"
  shows "\<exists>t' l w. tester_inv B pid (ws pid) t' (reqs @ [(l, w)]) ans \<and> tt_read_input t' \<and> good_request pid (inputQueueName pid) l w \<and>
    program_runs d B ws s0 (n\<lparr> nw_clients := (nw_clients n)(pid \<mapsto> client_at t' True),
      nw_server := (nw_server n)\<lparr> sy_report := sy_report (nw_server n) @ [write_parse pid (inputQueueName pid) l w] \<rparr> \<rparr>)"
proof -
  from t obtain t' l w where t': "tester_read pid t = Inr t'" "tester_inv B pid (ws pid) t' (reqs @ [(l, w)]) ans" "tt_read_input t'"
    "tt_sent t' = tt_sent t @ [write_parse pid (inputQueueName pid) l w]" by (rule word_read)
  have input: "\<forall>pid. good_input B (ws pid)" using r by (simp add: program_runs_def)
  then have "B < 2 ^ 25" by (simp add: good_input_def)
  then have "good_requests B (\<lambda>p. if p = pid then reqs @ [(l, w)] else [])"
    using good_request_words [OF input c(2) t'(2)] by (auto simp: good_requests_def simp del: set_append)
  from net_request_good [OF this, of l w pid] have g: "good_request pid (inputQueueName pid) l w" by simp
  have "net_step (\<lambda>pid. lines_text (ws pid)) n (n\<lparr> nw_clients := (nw_clients n)(pid \<mapsto> client_at t' True),
      nw_server := (nw_server n)\<lparr> sy_report := sy_report (nw_server n) @ [write_parse pid (inputQueueName pid) l w] \<rparr> \<rparr>)"
    using net_step.sends [of n pid, OF c(1), of t'] t'(1,4) room by (simp add: client_at_def fits_queue_def)
  with t'(2,3) g program_runs_step [OF r] show ?thesis by blast
qed

text \<open>When no answer is there, the client goes on.\<close>

lemma client_finds_nothing:
  assumes "program_runs d B ws s0 n" "nw_clients n pid = Some (client_at t True)" "nw_inbox n pid = []" "tt_read_input t"
  shows "program_runs d B ws s0 (n\<lparr> nw_clients := (nw_clients n)(pid \<mapsto> client_at t False) \<rparr>)"
proof -
  have "tester_receive (nw_inbox n pid) t = Inr (t, [], False)" using assms(3) by (simp add: tester_receive_def)
  then have "net_step (\<lambda>pid. lines_text (ws pid)) n (n\<lparr> nw_clients := (nw_clients n)(pid \<mapsto> client_at t False), nw_inbox := (nw_inbox n)(pid := []) \<rparr>)"
    using net_step.receives [of n pid, OF assms(2), of t "[]" False] assms(4) by (simp add: client_at_def left_loop_def)
  moreover have "(nw_inbox n)(pid := []) = nw_inbox n" using assms(3) by auto
  ultimately show ?thesis using program_runs_step [OF assms(1)] by simp
qed

text \<open>A client comes and is registered before anything else happens.\<close>

lemma client_enters:
  assumes r: "program_runs d B ws s0 n" and n: "nw_server n = boot s" "nw_clients n pid = None" "in_int pid" and s: "at_ease s"
  shows "\<exists>t s'. program_runs d B ws s0 (n\<lparr> nw_clients := (nw_clients n)(pid \<mapsto> client_at t False), nw_server := boot s' \<rparr>) \<and>
    tester_inv B pid (ws pid) t [] [] \<and> tt_read_input t \<and> at_ease s' \<and> sv_log s' = sv_log s \<and> sv_run s' = sv_run s \<and>
    sv_active s' = sv_active s \<and> sv_fds s' = sv_fds s"
proof -
  let ?t = "tester_start pid (fresh_file (lines_text (ws pid)))" and ?m = "write_register pid (inputQueueName pid)"
  let ?in = "\<lambda>pid. lines_text (ws pid)" and ?ke = "granting_to 0"
  let ?n1 = "n\<lparr> nw_clients := (nw_clients n)(pid \<mapsto> client_at ?t False), nw_server := (boot s)\<lparr> sy_register := [?m] \<rparr> \<rparr>"
  have "net_step ?in n ?n1"
    using net_step.enters [of n pid ?in] n by (simp add: boot_def client_at_def fits_queue_def config)
  with r have r1: "program_runs d B ws s0 ?n1" by (rule program_runs_step)
  have i: "good_input B (ws pid)" using r by (simp add: program_runs_def)
  then have "1 \<le> B" "B < 2 ^ 25" "int (length (lines_text (ws pid))) + 48 \<le> B" by (simp_all add: good_input_def)
  from tester_inv_start [OF good_input_lines(1) [OF i] this, of pid] good_input_lines(2) [OF i]
  have t: "tester_inv B pid (ws pid) ?t [] []" by simp
  have m: "read_register ?m = (2, [AInt pid, AStr (inputQueueName pid)])"
    using n(3) by (simp add: read_write_register in_int_llong token_inputQueueName)
  let ?s' = "s\<lparr> sv_buffer_pid := Some pid, sv_buffer2 := inputQueueName pid \<rparr>"
  have "handle_register ?ke ?m s = new_session ?ke pid ?s'" using m by (simp add: handle_register_def got_defs)
  moreover have "length (sv_buffer ?s') < 100" "length (sv_buffer2 ?s') < 50" "mq_name_ok (sv_buffer2 ?s')"
    using queue_name_ok [OF n(3)] runs_server_well [OF r] n(1) by (simp_all add: runs_well_def boot_def)
  ultimately obtain ts where reg: "handle_register ?ke ?m s = Inr (?s'\<lparr> sv_testers := ts \<rparr>)"
    using new_session_result [of ?ke ?s' pid] by simp
  let ?reg = "?s'\<lparr> sv_testers := ts \<rparr>"
  have "server_step ?ke (nw_server ?n1) = Some (boot ?reg)" using reg by (simp add: server_step_def boot_def continue_with_def)
  from quiet_move [OF r1 this] s
  have "program_runs d B ws s0 (n\<lparr> nw_clients := (nw_clients n)(pid \<mapsto> client_at ?t False), nw_server := boot ?reg \<rparr>)"
    by (simp add: boot_def at_ease_def)
  with t s show ?thesis
    by (intro exI [of _ ?t] exI [of _ ?reg]) (simp add: tester_start_def at_ease_def)
qed

lemma program_boots:
  assumes "good_start d g fds" "\<forall>pid. good_input B (ws pid)" "in_int (k_next_fd fds)"
    and "s0 = server_start g g2 fds (render d) verbose"
  shows "program_runs d B ws s0 \<lparr> nw_server = boot s0, nw_clients = (\<lambda>_. None), nw_inbox = (\<lambda>_. []), nw_workers = [] \<rparr> \<and>
    at_ease s0 \<and> sv_active s0 = 0 \<and> sv_log s0 = [] \<and> sv_run s0 = [] \<and> sv_fds s0 = fds"
  using assms runs.boots by (auto simp: program_runs_def at_ease_def server_start_def)

end
