(* ===== verification/Completion.thy ===== *)
theory Completion
  imports Rounds
begin

text \<open>
  The program can finish: from the start there is a run in which a client, whatever words it is given, gets
  all its answers and leaves its loop without being told to exit. The run is the obvious one: word after
  word, the client sends it, the server starts a worker, the worker reports, the server answers, the client
  prints. So what is shown of every run in Network is about runs that exist.
\<close>

text \<open>Between two words: the server waits for a report, the client has its answers, nothing else goes on.\<close>

definition quiet_server :: "int \<Rightarrow> server \<Rightarrow> bool" where
  "quiet_server k s \<longleftrightarrow> sv_active s = 0 \<and> at_ease s \<and> filter is_exit (sv_log s) = [] \<and> k_next_fd (sv_fds s) \<le> 2 ^ 30 + 2 * k"

definition between_words :: "int \<Rightarrow> (int \<Rightarrow> string list) \<Rightarrow> int \<Rightarrow> network \<Rightarrow> tester \<Rightarrow> request list \<Rightarrow> printed list \<Rightarrow> bool" where
  "between_words B ws pid n t reqs ans \<longleftrightarrow>
     nw_clients n pid = Some (client_at t False) \<and> nw_inbox n pid = [] \<and> nw_workers n = [] \<and> in_int pid \<and>
     tester_inv B pid (ws pid) t reqs ans \<and> length ans = length reqs \<and> tt_read_input t \<and>
     (\<exists>s. nw_server n = waiting s \<and> quiet_server (int (length reqs)) s)"

lemma requests_bounded:
  assumes "tester_inv B pid ws t reqs ans"
  shows "length reqs \<le> length (words_to_send ws)" "int (length reqs) \<le> B"
proof -
  have i: "input_ok ws reqs t" "books_ok reqs ans (tt_loc t)" "0 \<le> tt_loc t" "tt_loc t + 47 \<le> B" using assms by (simp_all add: tester_inv_def)
  from i(1) obtain more where "words_to_send ws = map snd reqs @ more" by (cases "tt_read_input t") (auto simp: input_ok_def)
  then show "length reqs \<le> length (words_to_send ws)" by simp
  have "fst ` set reqs \<subseteq> {1 .. tt_loc t}" using i(2) by (auto simp: books_ok_def)
  then have "card (fst ` set reqs) \<le> nat (tt_loc t)" using card_mono [of "{1 .. tt_loc t}"] by fastforce
  moreover have "card (fst ` set reqs) = length reqs" using i(2) distinct_card [of "map fst reqs"] by (simp add: books_ok_def)
  ultimately show "int (length reqs) \<le> B" using i(3,4) by linarith
qed

lemma no_exit: "filter is_exit es = [] \<Longrightarrow> SentTo q ''exit'' \<notin> set es"
  by (auto simp: filter_empty_conv is_exit_def)

text \<open>A request that was just sent is open.\<close>

lemma open_new_request:
  assumes "tester_inv B pid ws t (reqs @ [(l, w)]) ans" "tester_inv B pid ws t0 reqs ans"
  shows "open_words (reqs @ [(l, w)]) ans l = Some w"
proof -
  have "l \<notin> fst ` set reqs" using assms(1) by (auto simp: tester_inv_def books_ok_def)
  moreover have "books_ok reqs ans (tt_loc t0)" using assms(2) by (simp add: tester_inv_def)
  then have "fst ` set ans \<subseteq> fst ` set reqs" by (rule answered_numbers)
  ultimately have "l \<notin> fst ` set ans" "map_of reqs l = None" by (auto simp: map_of_eq_None_iff)
  then show ?thesis by (simp add: open_words_def map_add_def)
qed

section \<open>One word\<close>

text \<open>The client prints the answer, and everything is as before the word.\<close>

lemma word_printed:
  assumes r: "program_runs d B ws s0 n" and c: "nw_clients n pid = Some (client_at t True)" "in_int pid"
    and box: "nw_inbox n pid = [write_answer l v]" and t: "tester_inv B pid (ws pid) t (reqs @ [(l, w)]) ans" "tt_read_input t"
    and all: "tester_inv B pid (ws pid) t0 reqs ans" "length ans = length reqs" and v: "in_int v"
    and n: "nw_server n = waiting s" "nw_workers n = []" "quiet_server (int (length reqs) + 1) s"
  shows "\<exists>n' t'. program_runs d B ws s0 n' \<and> between_words B ws pid n' t' (reqs @ [(l, w)]) (ans @ [(l, w, v)])"
proof -
  have l: "1 \<le> l \<and> l + 47 \<le> B" using tester_inv_requests [OF t(1), of l w] by simp
  then have "answer_for B l v (write_answer l v)" using v by (simp add: answer_for_def)
  from tester_answer_inv [OF t(1) this] open_new_request [OF t(1) all(1)] obtain t' where
    t': "tester_answer (write_answer l v) t = Inr (t', False)" "tt_read_input t'"
    "tester_inv B pid (ws pid) t' (reqs @ [(l, w)]) (ans @ [(l, w, v)])" using t(2) by auto
  have "tt_ans t < tt_req t" using t(1) all(2) by (simp add: tester_inv_def)
  then have rc: "tester_receive (nw_inbox n pid) t = Inr (t', [], False)" using t'(1) box by (simp add: tester_receive_def)
  let ?n = "n\<lparr> nw_clients := (nw_clients n)(pid \<mapsto> client_at t' False), nw_inbox := (nw_inbox n)(pid := []) \<rparr>"
  have "net_step (\<lambda>pid. lines_text (ws pid)) n ?n"
    using net_step.receives [of n pid, OF c(1), of t' "[]" False] rc t'(2) by (simp add: left_loop_def client_at_def)
  with r have "program_runs d B ws s0 ?n" by (rule program_runs_step)
  moreover have "between_words B ws pid ?n t' (reqs @ [(l, w)]) (ans @ [(l, w, v)])"
    using t' c(2) all(2) n by (auto simp: between_words_def add.commute)
  ultimately show ?thesis by blast
qed

text \<open>A word makes its way: sent, given to a worker, decided, answered, printed.\<close>

lemma next_word:
  assumes r: "program_runs d B ws s0 n" and b: "between_words B ws pid n t reqs ans"
    and more: "length reqs < length (words_to_send (ws pid))"
  shows "\<exists>n' t' reqs' ans'. program_runs d B ws s0 n' \<and> between_words B ws pid n' t' reqs' ans' \<and> length reqs' = length reqs + 1"
proof -
  have b': "nw_clients n pid = Some (client_at t False)" "nw_workers n = []" "nw_inbox n pid = []" "in_int pid"
    "tester_inv B pid (ws pid) t reqs ans" "length ans = length reqs"
    using b by (simp_all add: between_words_def)
  obtain s where s: "nw_server n = waiting s" "sv_active s = 0" "at_ease s" "filter is_exit (sv_log s) = []"
    "k_next_fd (sv_fds s) \<le> 2 ^ 30 + 2 * int (length reqs)"
    using b by (auto simp: between_words_def quiet_server_def)
  have "B < 2 ^ 25" using r by (simp add: program_runs_def good_input_def)
  then have "int (length reqs) < 2 ^ 28" using requests_bounded(2) [OF b'(5)] by simp
  with s(3,5) have fd: "in_int (k_next_fd (sv_fds s) + 2)" by (simp add: in_int_def at_ease_def)
  have i77: "in_int 77" by (simp add: in_int_def)
  from client_sends [OF r b'(1,4,5) more] s(1) obtain t1 l w where
    t1: "tester_inv B pid (ws pid) t1 (reqs @ [(l, w)]) ans" "tt_read_input t1" "good_request pid (inputQueueName pid) l w" and
    r1: "program_runs d B ws s0 (n\<lparr> nw_clients := (nw_clients n)(pid \<mapsto> client_at t1 True),
      nw_server := (waiting s)\<lparr> sy_report := [write_parse pid (inputQueueName pid) l w] \<rparr> \<rparr>)"
    by (auto simp: waiting_def config)
  let ?n1 = "n\<lparr> nw_clients := (nw_clients n)(pid \<mapsto> client_at t1 True) \<rparr>"
  from request_served [OF r1 _ t1(3) i77 _ fd] b'(2) obtain s1 argv rs where
    r2: "program_runs d B ws s0 (?n1\<lparr> nw_server := boot s1, nw_workers := [(77, argv, sv_fds s1)] \<rparr>)" and
    s1: "sv_run s1 = table_put 77 rs (sv_run s)" "rs_testerSourcePid rs = pid" "rs_loc_id rs = l" "sv_active s1 = sv_active s + 1"
      "sv_log s1 = sv_log s @ [Spawned 77 argv]" "k_next_fd (sv_fds s1) = k_next_fd (sv_fds s) + 2"
      "sv_throttled s1 = sv_throttled s" "sv_shouldTerminate s1 = sv_shouldTerminate s" by auto
  from worker_reports [OF r2, of "[]" 77 argv "sv_fds s1" "[]"] obtain v where v: "in_int v" and
    r3: "program_runs d B ws s0 (?n1\<lparr> nw_workers := [], nw_server := (boot s1)\<lparr> sy_result := [write_run_terminate 77 v] \<rparr> \<rparr>)"
    by (auto simp: boot_def)
  let ?e = "SentTo (inputQueueName pid) (write_answer l v)"
  have ease: "at_ease s1" using s(3) s1(6-8) fd by (simp add: at_ease_def)
  have "map_of (sv_run s1) 77 = Some rs" by (simp add: s1(1) map_of_put)
  from result_served [OF r3 _ i77 v this ease] s(2) s1(2-4) b'(3,4) obtain s2 where
    r4: "program_runs d B ws s0 (?n1\<lparr> nw_workers := [], nw_server := waiting s2, nw_inbox := deliver [?e] (nw_inbox n) \<rparr>)" and
    s2: "sv_log s2 = sv_log s1 @ [?e]" "sv_active s2 = sv_active s1 - 1" "at_ease s2" "k_next_fd (sv_fds s2) = k_next_fd (sv_fds s1)"
    by (auto simp: config)
  let ?n4 = "?n1\<lparr> nw_workers := [], nw_server := waiting s2, nw_inbox := deliver [?e] (nw_inbox n) \<rparr>"
  have "quiet_server (int (length reqs) + 1) s2"
    using s2 s s1 write_answer_not_exit by (simp add: quiet_server_def is_exit_def)
  note q = this
  have n4: "nw_clients ?n4 pid = Some (client_at t1 True)" "nw_inbox ?n4 pid = [write_answer l v]" "nw_server ?n4 = waiting s2" "nw_workers ?n4 = []"
    using b'(3) by (simp_all add: deliver_def)
  from word_printed [where ws = ws, OF r4 n4(1) b'(4) n4(2) t1(1,2) b'(5,6) v n4(3,4) q] show ?thesis by force
qed

text \<open>At the end of its words the client leaves.\<close>

lemma last_word:
  assumes r: "program_runs d B ws s0 n" and b: "between_words B ws pid n t reqs ans"
    and all: "length reqs = length (words_to_send (ws pid))"
  shows "\<exists>n' c. program_runs d B ws s0 n' \<and> nw_clients n' pid = Some c \<and> cl_left c \<and> filter is_exit (sv_log (sy_server (nw_server n'))) = []"
proof -
  have c: "nw_clients n pid = Some (client_at t False)" and box: "nw_inbox n pid = []"
    and ti: "tester_inv B pid (ws pid) t reqs ans" and eq: "length ans = length reqs"
    using b by (simp_all add: between_words_def)
  obtain s where s: "nw_server n = waiting s" "filter is_exit (sv_log s) = []" using b by (auto simp: between_words_def quiet_server_def)
  from tester_read_inv [OF ti] obtain t' new e where t': "tester_read pid t = Inr t'" "tester_inv B pid (ws pid) t' (reqs @ new) ans"
    "tt_sent t' = tt_sent t @ requests_text pid new @ e" "e = [] \<or> e = [''exit'']" "(\<exists>lw. new = [lw] \<and> e = [] \<and> tt_read_input t') \<or> new = [] \<and> \<not> tt_read_input t'"
    by blast
  have "new = []" using requests_bounded(1) [OF t'(2)] all by simp
  with t' have stop: "\<not> tt_read_input t'" "tt_sent t' = tt_sent t @ e" "tester_inv B pid (ws pid) t' reqs ans"
    by (simp_all add: requests_text_def)
  let ?n = "n\<lparr> nw_clients := (nw_clients n)(pid \<mapsto> client_at t' True), nw_server := (waiting s)\<lparr> sy_report := e \<rparr> \<rparr>"
  have "fits_queue e" using t'(4) by (auto simp: fits_queue_def config)
  then have "net_step (\<lambda>pid. lines_text (ws pid)) n ?n"
    using net_step.sends [of n pid, OF c, of t'] t'(1) stop(2) s(1) by (simp add: waiting_def client_at_def)
  with r have n1: "program_runs d B ws s0 ?n" by (rule program_runs_step)
  have "tt_ans t' = tt_req t'" using stop(3) eq by (simp add: tester_inv_def)
  then have rc: "tester_receive (nw_inbox ?n pid) t' = Inr (t', [], False)" "left_loop t'"
    using stop(1) box by (simp_all add: tester_receive_def left_loop_def)
  let ?c = "(client_at t' True)\<lparr> cl_tester := t', cl_sent := False, cl_left := False \<or> left_loop t' \<rparr>"
  let ?m = "?n\<lparr> nw_clients := (nw_clients ?n)(pid \<mapsto> ?c), nw_inbox := (nw_inbox ?n)(pid := []) \<rparr>"
  have "net_step (\<lambda>pid. lines_text (ws pid)) ?n ?m"
    by (rule net_step.receives) (use rc(1) in \<open>simp_all add: client_at_def\<close>)
  with n1 have "program_runs d B ws s0 ?m" by (rule program_runs_step)
  moreover have "nw_clients ?m pid = Some ?c" "cl_left ?c" "filter is_exit (sv_log (sy_server (nw_server ?m))) = []"
    using rc(2) s(2) by (simp_all add: waiting_def)
  ultimately show ?thesis by blast
qed

section \<open>The program finishes\<close>

lemma all_words:
  shows "program_runs d B ws s0 n \<Longrightarrow> between_words B ws pid n t reqs ans \<Longrightarrow>
    \<exists>n' c. program_runs d B ws s0 n' \<and> nw_clients n' pid = Some c \<and> cl_left c \<and> filter is_exit (sv_log (sy_server (nw_server n'))) = []"
proof (induction "length (words_to_send (ws pid)) - length reqs" arbitrary: n t reqs ans rule: less_induct)
  case less
  have "length reqs \<le> length (words_to_send (ws pid))"
    using less.prems(2) requests_bounded(1) [of B pid "ws pid" t reqs ans] by (simp add: between_words_def)
  then consider "length reqs = length (words_to_send (ws pid))" | "length reqs < length (words_to_send (ws pid))" by linarith
  then show ?case
  proof cases
    case 1
    with less.prems show ?thesis by (rule last_word)
  next
    case more: 2
    with next_word [OF less.prems] obtain n' t' reqs' ans' where
      n': "program_runs d B ws s0 n'" "between_words B ws pid n' t' reqs' ans'" "length reqs' = length reqs + 1" by blast
    have "length (words_to_send (ws pid)) - length reqs' < length (words_to_send (ws pid)) - length reqs" using n'(3) more by simp
    from less.hyps [OF this n'(1,2)] show ?thesis .
  qed
qed

lemma program_can_finish:
  assumes "good_start d g fds" "\<forall>pid. good_input B (ws pid)" "in_int pid" "k_next_fd fds \<le> 2 ^ 30"
  shows "\<exists>n c. runs (\<lambda>pid. lines_text (ws pid)) (server_start g g2 fds (render d) verbose) n \<and> nw_clients n pid = Some c \<and> cl_left c \<and>
    filter is_exit (sv_log (sy_server (nw_server n))) = []"
proof -
  let ?s0 = "server_start g g2 fds (render d) verbose"
  let ?n0 = "\<lparr> nw_server = boot ?s0, nw_clients = (\<lambda>_. None), nw_inbox = (\<lambda>_. []), nw_workers = [] \<rparr>"
  have "in_int (k_next_fd fds)" using assms(1,4) by (simp add: good_start_def in_int_def)
  then have b: "program_runs d B ws ?s0 ?n0" "at_ease ?s0" "sv_active ?s0 = 0" "sv_log ?s0 = []" "sv_fds ?s0 = fds"
    using program_boots [OF assms(1,2) _ refl, of g2 verbose] by simp_all
  from client_enters [OF b(1) _ _ assms(3) b(2)] obtain t s where
    r: "program_runs d B ws ?s0 (?n0\<lparr> nw_clients := [pid \<mapsto> client_at t False], nw_server := boot s \<rparr>)" and
    t: "tester_inv B pid (ws pid) t [] []" "tt_read_input t" and s: "at_ease s" "sv_log s = []" "sv_active s = 0" "sv_fds s = fds"
    using b(3-5) by auto
  from quiet_round [OF r _ s(1)] s(3)
  have "program_runs d B ws ?s0 (?n0\<lparr> nw_clients := [pid \<mapsto> client_at t False], nw_server := waiting s \<rparr>)" by (simp add: config)
  moreover have "between_words B ws pid (?n0\<lparr> nw_clients := [pid \<mapsto> client_at t False], nw_server := waiting s \<rparr>) t [] []"
    using t s assms(3,4) by (auto simp: between_words_def quiet_server_def)
  ultimately obtain n' c where "program_runs d B ws ?s0 n'" "nw_clients n' pid = Some c" "cl_left c"
    "filter is_exit (sv_log (sy_server (nw_server n'))) = []" using all_words by blast
  then show ?thesis by (auto simp: program_runs_def)
qed

section \<open>Properties\<close>


text \<open>One client with the word ''a'', on the example automaton.\<close>

definition demo_fds :: descriptors where
  "demo_fds = \<lparr> k_open = [], k_data = (\<lambda>_. []), k_capacity = 65536, k_next_pipe = 0, k_next_fd = 3 \<rparr>"

lemma demo_program:
  "good_start demo_description [] demo_fds" "\<forall>pid :: int. good_input 100 [''a'']" "in_int 5" "k_next_fd demo_fds \<le> 2 ^ 30"
proof -
  have "length (render demo_description) < 100" by code_simp
  then show "good_start demo_description [] demo_fds"
    using demo_description_wf by (simp add: good_start_def demo_fds_def config)
qed (simp_all add: good_input_def demo_fds_def in_int_def)




end
