(* ===== verification/Blocking.thy ===== *)
theory Blocking
  imports Completion
begin

text \<open>
  The program can also block, for ever. All writes to the queues wait for room, and the server writes
  answers into the queue of a client while clients write requests into the queue of the server. Here is a
  run in which the server waits for room in the queue of one client, and this client and another wait for
  room in the queue of the server: the first has ten unread answers, the second has filled the
  queue of reports. No step of anyone resolves this.
\<close>

section \<open>The way there\<close>

text \<open>The workers of a client, as the server knows them.\<close>

definition works_for :: "server \<Rightarrow> int \<Rightarrow> int \<times> string list \<times> descriptors \<Rightarrow> bool" where
  "works_for s pid wk \<longleftrightarrow> (\<exists>rs. map_of (sv_run s) (fst wk) = Some rs \<and> rs_testerSourcePid rs = pid)"

definition workers_of :: "network \<Rightarrow> int \<Rightarrow> (int \<times> string list \<times> descriptors) list" where
  "workers_of n pid = filter (works_for (sy_server (nw_server n)) pid) (nw_workers n)"

text \<open>A client that has sent its first words and has read no answer.\<close>

definition unanswered :: "int \<Rightarrow> (int \<Rightarrow> string list) \<Rightarrow> network \<Rightarrow> int \<Rightarrow> nat \<Rightarrow> bool" where
  "unanswered B ws n pid i \<longleftrightarrow> (\<exists>t reqs. nw_clients n pid = Some (client_at t False) \<and>
     tester_inv B pid (ws pid) t reqs [] \<and> length reqs = i)"

text \<open>
  On the way: client \<open>p\<close> has sent \<open>i\<close> words, client \<open>q\<close> has sent \<open>j\<close>, all were given to workers, \<open>j\<close> of the
  workers of \<open>p\<close> have ended and their answers wait for \<open>p\<close>.
\<close>

definition on_the_way :: "int \<Rightarrow> (int \<Rightarrow> string list) \<Rightarrow> int \<Rightarrow> int \<Rightarrow> nat \<Rightarrow> nat \<Rightarrow> network \<Rightarrow> bool" where
  "on_the_way B ws p q i j n \<longleftrightarrow> unanswered B ws n p i \<and> unanswered B ws n q j \<and>
     length (nw_inbox n p) = j \<and> nw_inbox n q = [] \<and> length (workers_of n p) = i - j \<and>
     (\<forall>wk \<in> set (nw_workers n). fst wk < int (i + j)) \<and>
     (\<exists>s. nw_server n = waiting s \<and> at_ease s \<and> sv_active s = int i \<and> k_next_fd (sv_fds s) \<le> 2 ^ 30 + 2 * int (i + j))"

text \<open>A client sends a word, it gets a worker, and the client finds no answer.\<close>

lemma word_started:
  assumes r: "program_runs d B ws s0 n" and c: "unanswered B ws n pid i" "in_int pid" "i < length (words_to_send (ws pid))" "nw_inbox n pid = []"
    and s: "nw_server n = waiting s" "at_ease s" "in_int (k_next_fd (sv_fds s) + 2)" and wp: "in_int wp" "wp \<notin> fst ` set (nw_workers n)"
  shows "\<exists>n' s' argv rs. program_runs d B ws s0 n' \<and> unanswered B ws n' pid (i + 1) \<and> nw_server n' = boot s' \<and>
    nw_workers n' = nw_workers n @ [(wp, argv, sv_fds s')] \<and> nw_inbox n' = nw_inbox n \<and>
    (\<forall>p. p \<noteq> pid \<longrightarrow> nw_clients n' p = nw_clients n p) \<and> at_ease s' \<and> sv_active s' = sv_active s + 1 \<and>
    k_next_fd (sv_fds s') = k_next_fd (sv_fds s) + 2 \<and> sv_run s' = table_put wp rs (sv_run s) \<and> rs_testerSourcePid rs = pid"
proof -
  obtain t reqs where t: "nw_clients n pid = Some (client_at t False)" "tester_inv B pid (ws pid) t reqs []" "length reqs = i"
    using c(1) by (auto simp: unanswered_def)
  from client_sends [OF r t(1) c(2) t(2)] c(3) t(3) s(1) obtain t' l w where
    t': "tester_inv B pid (ws pid) t' (reqs @ [(l, w)]) []" "tt_read_input t'" "good_request pid (inputQueueName pid) l w" and
    r1: "program_runs d B ws s0 (n\<lparr> nw_clients := (nw_clients n)(pid \<mapsto> client_at t' True),
      nw_server := (waiting s)\<lparr> sy_report := [write_parse pid (inputQueueName pid) l w] \<rparr> \<rparr>)"
    by (auto simp: waiting_def config)
  let ?n1 = "n\<lparr> nw_clients := (nw_clients n)(pid \<mapsto> client_at t' True) \<rparr>"
  from request_served [OF r1 _ t'(3) wp(1) _ s(3)] wp(2) obtain s' argv rs where
    r2: "program_runs d B ws s0 (?n1\<lparr> nw_server := boot s', nw_workers := nw_workers n @ [(wp, argv, sv_fds s')] \<rparr>)" and
    s': "sv_run s' = table_put wp rs (sv_run s)" "rs_testerSourcePid rs = pid" "sv_active s' = sv_active s + 1"
      "k_next_fd (sv_fds s') = k_next_fd (sv_fds s) + 2" "sv_throttled s' = sv_throttled s" "sv_shouldTerminate s' = sv_shouldTerminate s"
    by auto
  let ?n2 = "?n1\<lparr> nw_server := boot s', nw_workers := nw_workers n @ [(wp, argv, sv_fds s')] \<rparr>"
  let ?n3 = "?n2\<lparr> nw_clients := (nw_clients ?n2)(pid \<mapsto> client_at t' False) \<rparr>"
  from client_finds_nothing [OF r2, of pid t'] t'(2) c(4) have r3: "program_runs d B ws s0 ?n3" by simp
  have "unanswered B ws ?n3 pid (i + 1)" using t'(1) t(3) by (force simp: unanswered_def)
  moreover have "at_ease s'" using s(2,3) s'(4-6) by (simp add: at_ease_def)
  ultimately show ?thesis using r3 s'
    by (intro exI [of _ ?n3] exI [of _ s'] exI [of _ argv] exI [of _ rs]) simp
qed

lemma unanswered_same: "nw_clients n' pid = nw_clients n pid \<Longrightarrow> unanswered B ws n' pid i = unanswered B ws n pid i"
  by (simp add: unanswered_def)

text \<open>A new worker, and a worker that has ended, seen by the others.\<close>

lemma works_for_put:
  "sv_run s' = table_put wp rs (sv_run s) \<Longrightarrow> wp \<notin> fst ` set wks \<Longrightarrow> filter (works_for s' pid) wks = filter (works_for s pid) wks"
  by (intro filter_cong) (auto simp: works_for_def map_of_put)

lemma works_for_del:
  "sv_run s' = table_del wp (sv_run s) \<Longrightarrow> wp \<notin> fst ` set wks \<Longrightarrow> filter (works_for s' pid) wks = filter (works_for s pid) wks"
  by (intro filter_cong) (auto simp: works_for_def map_of_del)

lemma a_worker_of:
  assumes "workers_of n pid \<noteq> []"
  shows "\<exists>us wp argv k vs rs. nw_workers n = us @ (wp, argv, k) # vs \<and> works_for (sy_server (nw_server n)) pid (wp, argv, k) \<and>
    map_of (sv_run (sy_server (nw_server n))) wp = Some rs \<and> rs_testerSourcePid rs = pid"
proof -
  obtain wp argv k where "(wp, argv, k) \<in> set (nw_workers n)" and f: "works_for (sy_server (nw_server n)) pid (wp, argv, k)"
    using assms by (auto simp: workers_of_def filter_empty_conv)
  then obtain us vs where "nw_workers n = us @ (wp, argv, k) # vs" by (meson split_list)
  moreover obtain rs where "map_of (sv_run (sy_server (nw_server n))) wp = Some rs" "rs_testerSourcePid rs = pid"
    using f by (auto simp: works_for_def)
  ultimately show ?thesis using f by blast
qed

lemma distinct_workers: "program_runs d B ws s0 n \<Longrightarrow> distinct (map fst (nw_workers n)) \<and> (\<forall>wk \<in> set (nw_workers n). in_int (fst wk))"
  using runs_server_well [of d B ws s0 n] by (auto simp: served_inv_def)

text \<open>The two clients, and what their inputs must hold for the run.\<close>

definition two_clients :: "(int \<Rightarrow> string list) \<Rightarrow> int \<Rightarrow> int \<Rightarrow> bool" where
  "two_clients ws p q \<longleftrightarrow> in_int p \<and> in_int q \<and> p \<noteq> q \<and>
     12 \<le> length (words_to_send (ws p)) \<and> 22 \<le> length (words_to_send (ws q))"

lemma small_int: "k \<le> 30 \<Longrightarrow> in_int (int k)"
  by (simp add: in_int_def)

lemma on_the_way_fd: "at_ease s \<Longrightarrow> k_next_fd (sv_fds s) \<le> 2 ^ 30 + 2 * int k \<Longrightarrow> k \<le> 30 \<Longrightarrow> in_int (k_next_fd (sv_fds s) + 2)"
  by (simp add: at_ease_def in_int_def)

text \<open>The first client sends a word while nothing else happens.\<close>

lemma first_client_word:
  assumes r: "program_runs d B ws s0 n" and c: "two_clients ws p q" and w: "on_the_way B ws p q i 0 n" "i < 11"
  shows "\<exists>n'. program_runs d B ws s0 n' \<and> on_the_way B ws p q (i + 1) 0 n'"
proof -
  obtain s where s: "nw_server n = waiting s" "at_ease s" "sv_active s = int i" "k_next_fd (sv_fds s) \<le> 2 ^ 30 + 2 * int i"
    using w(1) by (auto simp: on_the_way_def)
  have o: "unanswered B ws n p i" "unanswered B ws n q 0" "nw_inbox n p = []" "nw_inbox n q = []" "length (workers_of n p) = i"
    "\<forall>wk \<in> set (nw_workers n). fst wk < int i" using w(1) by (simp_all add: on_the_way_def)
  have fd: "in_int (k_next_fd (sv_fds s) + 2)" using on_the_way_fd [OF s(2,4)] w(2) by simp
  have new: "in_int (int i)" "int i \<notin> fst ` set (nw_workers n)" using o(6) w(2) by (auto simp: in_int_def)
  have p: "in_int p" "i < length (words_to_send (ws p))" using c w(2) by (simp_all add: two_clients_def)
  from word_started [OF r o(1) p o(3) s(1,2) fd new] obtain n' s' argv rs where
    n': "program_runs d B ws s0 n'" "unanswered B ws n' p (i + 1)" "nw_server n' = boot s'"
      "nw_workers n' = nw_workers n @ [(int i, argv, sv_fds s')]" "nw_inbox n' = nw_inbox n" "nw_clients n' q = nw_clients n q" and
    s': "at_ease s'" "sv_active s' = sv_active s + 1" "k_next_fd (sv_fds s') = k_next_fd (sv_fds s) + 2"
      "sv_run s' = table_put (int i) rs (sv_run s)" "rs_testerSourcePid rs = p"
    using c by (auto simp: two_clients_def)
  let ?n = "n'\<lparr> nw_server := waiting s' \<rparr>"
  have r': "program_runs d B ws s0 ?n" using quiet_round [OF n'(1,3) s'(1)] s(3) s'(2) w(2) by (simp add: config)
  have "workers_of ?n p = workers_of n p @ [(int i, argv, sv_fds s')]"
    using works_for_put [OF s'(4) new(2), of p] s(1) n'(4) s'(4,5)
    by (simp add: workers_of_def waiting_def) (simp add: works_for_def map_of_put)
  then have "on_the_way B ws p q (i + 1) 0 ?n"
    using n' s s' o unanswered_same [of ?n q n] unanswered_same [of ?n p n'] by (auto simp: on_the_way_def)
  with r' show ?thesis by blast
qed

text \<open>The second client sends a word, and a worker of the first reports.\<close>

lemma second_client_word:
  assumes r: "program_runs d B ws s0 n" and c: "two_clients ws p q" and w: "on_the_way B ws p q 11 j n" "j < 10"
  shows "\<exists>n'. program_runs d B ws s0 n' \<and> on_the_way B ws p q 11 (j + 1) n'"
proof -
  obtain s where s: "nw_server n = waiting s" "at_ease s" "sv_active s = 11" "k_next_fd (sv_fds s) \<le> 2 ^ 30 + 2 * int (11 + j)"
    using w(1) by (auto simp: on_the_way_def)
  have o: "unanswered B ws n p 11" "unanswered B ws n q j" "length (nw_inbox n p) = j" "nw_inbox n q = []" "length (workers_of n p) = 11 - j"
    "\<forall>wk \<in> set (nw_workers n). fst wk < int (11 + j)" using w(1) by (simp_all add: on_the_way_def)
  have fd: "in_int (k_next_fd (sv_fds s) + 2)" using on_the_way_fd [OF s(2,4)] w(2) by simp
  have new: "in_int (int (11 + j))" "int (11 + j) \<notin> fst ` set (nw_workers n)" using o(6) w(2) by (auto simp: in_int_def)
  have q: "in_int q" "j < length (words_to_send (ws q))" and p: "in_int p" "p \<noteq> q" using c w(2) by (simp_all add: two_clients_def)
  from word_started [OF r o(2) q o(4) s(1,2) fd new] p(2) obtain n' s' argv rs where
    n': "program_runs d B ws s0 n'" "unanswered B ws n' q (j + 1)" "nw_server n' = boot s'"
      "nw_workers n' = nw_workers n @ [(int (11 + j), argv, sv_fds s')]" "nw_inbox n' = nw_inbox n" "nw_clients n' p = nw_clients n p" and
    s': "at_ease s'" "sv_active s' = sv_active s + 1" "k_next_fd (sv_fds s') = k_next_fd (sv_fds s) + 2"
      "sv_run s' = table_put (int (11 + j)) rs (sv_run s)" "rs_testerSourcePid rs = q" by auto
  have wo: "workers_of n' p = workers_of n p"
    using works_for_put [OF s'(4) new(2), of p] s(1) n'(3,4) s'(4,5) p(2)
    by (simp add: workers_of_def waiting_def boot_def) (simp add: works_for_def map_of_put)
  have "length (workers_of n' p) \<noteq> 0" unfolding wo o(5) using w(2) by simp
  then obtain wp argv' k us vs rs' where wk: "nw_workers n' = us @ (wp, argv', k) # vs" "works_for s' p (wp, argv', k)"
    "map_of (sv_run s') wp = Some rs'" "rs_testerSourcePid rs' = p"
    using a_worker_of [of n' p] n'(3) by (auto simp: boot_def)
  have dw: "in_int wp" "wp \<notin> fst ` set (us @ vs)" using distinct_workers [OF n'(1)] wk(1) by auto
  from worker_reports [OF n'(1) wk(1)] n'(3) obtain v where v: "in_int v" and
    r2: "program_runs d B ws s0 (n'\<lparr> nw_workers := us @ vs, nw_server := (boot s')\<lparr> sy_result := [write_run_terminate wp v] \<rparr> \<rparr>)"
    by (auto simp: boot_def)
  let ?e = "SentTo (inputQueueName p) (write_answer (rs_loc_id rs') v)"
  from result_served [OF r2 _ dw(1) v wk(3) s'(1)] s(3) s'(2) wk(4) p(1) o(3) n'(5) w(2) obtain s'' where
    r3: "program_runs d B ws s0 (n'\<lparr> nw_workers := us @ vs, nw_server := waiting s'', nw_inbox := deliver [?e] (nw_inbox n) \<rparr>)" and
    s'': "sv_run s'' = table_del wp (sv_run s')" "sv_active s'' = sv_active s' - 1" "at_ease s''" "k_next_fd (sv_fds s'') = k_next_fd (sv_fds s')"
    by (auto simp: config)
  let ?n = "n'\<lparr> nw_workers := us @ vs, nw_server := waiting s'', nw_inbox := deliver [?e] (nw_inbox n) \<rparr>"
  have "length (workers_of n' p) = length (workers_of ?n p) + 1"
    using works_for_del [OF s''(1) dw(2), of p] wk(1,2) n'(3) by (simp add: workers_of_def waiting_def boot_def)
  then have "length (workers_of ?n p) = 11 - (j + 1)" using wo o(5) by simp
  moreover have "length (nw_inbox ?n p) = j + 1" using o(3) by (simp add: deliver_def)
  moreover have "nw_inbox ?n q = []" using o(4) queue_name_inj [OF p(1) q(1)] p(2) by (auto simp: deliver_def)
  moreover have "set (us @ vs) \<subseteq> set (nw_workers n')" using wk(1) by auto
  then have "\<forall>wk \<in> set (nw_workers ?n). fst wk < int (11 + (j + 1))" using o(6) n'(4) by fastforce
  ultimately have "on_the_way B ws p q 11 (j + 1) ?n"
    using n'(2,6) s(3,4) s'(2,3) s''(2-4) o(1) unanswered_same [of ?n p n] unanswered_same [of ?n q n'] by (auto simp: on_the_way_def)
  with r3 show ?thesis by blast
qed

text \<open>Eleven words of the first client, then ten of the second.\<close>

lemma first_client_words:
  assumes "program_runs d B ws s0 n" "two_clients ws p q" "on_the_way B ws p q 0 0 n"
  shows "i \<le> 11 \<Longrightarrow> \<exists>n'. program_runs d B ws s0 n' \<and> on_the_way B ws p q i 0 n'"
proof (induction i)
  case 0
  with assms show ?case by blast
next
  case (Suc i)
  then obtain n' where "program_runs d B ws s0 n'" "on_the_way B ws p q i 0 n'" by auto
  with first_client_word [OF _ assms(2)] Suc.prems show ?case by simp
qed

lemma second_client_words:
  assumes "program_runs d B ws s0 n" "two_clients ws p q" "on_the_way B ws p q 11 0 n"
  shows "j \<le> 10 \<Longrightarrow> \<exists>n'. program_runs d B ws s0 n' \<and> on_the_way B ws p q 11 j n'"
proof (induction j)
  case 0
  with assms show ?case by blast
next
  case (Suc j)
  then obtain n' where "program_runs d B ws s0 n'" "on_the_way B ws p q 11 j n'" by auto
  with second_client_word [OF _ assms(2)] Suc.prems show ?case by simp
qed

section \<open>The block\<close>

text \<open>
  The server wants to pass on a result to client \<open>p\<close>, whose queue is full; \<open>r\<close> reports wait, and
  client \<open>q\<close> goes on sending.
\<close>

definition passes_on :: "int \<Rightarrow> string \<Rightarrow> server \<Rightarrow> bool" where
  "passes_on p m s \<longleftrightarrow> at_ease s \<and> (\<exists>wp v rs. m = write_run_terminate wp v \<and> in_int wp \<and> in_int v \<and>
     map_of (sv_run s) wp = Some rs \<and> rs_testerSourcePid rs = p)"

definition full_for :: "int \<Rightarrow> (int \<Rightarrow> string list) \<Rightarrow> int \<Rightarrow> int \<Rightarrow> nat \<Rightarrow> network \<Rightarrow> bool" where
  "full_for B ws p q r n \<longleftrightarrow> unanswered B ws n p 11 \<and> unanswered B ws n q (11 + r) \<and>
     length (nw_inbox n p) = 10 \<and> nw_inbox n q = [] \<and> sy_phase (nw_server n) = ReadingResult \<and>
     length (sy_report (nw_server n)) = r \<and>
     (\<exists>m ms. sy_result (nw_server n) = m # ms \<and> passes_on p m (sy_server (nw_server n)))"

lemma block_begins:
  assumes r: "program_runs d B ws s0 n" and c: "two_clients ws p q" and w: "on_the_way B ws p q 11 10 n"
  shows "\<exists>n'. program_runs d B ws s0 n' \<and> full_for B ws p q 0 n'"
proof -
  obtain s where s: "nw_server n = waiting s" "at_ease s" "sv_active s = 11" "k_next_fd (sv_fds s) \<le> 2 ^ 30 + 2 * int 21"
    using w by (auto simp: on_the_way_def)
  have o: "unanswered B ws n p 11" "unanswered B ws n q 10" "length (nw_inbox n p) = 10" "nw_inbox n q = []" "length (workers_of n p) = 1"
    "\<forall>wk \<in> set (nw_workers n). fst wk < 21" using w by (simp_all add: on_the_way_def)
  have fd: "in_int (k_next_fd (sv_fds s) + 2)" using on_the_way_fd [OF s(2,4)] by simp
  have new: "in_int 21" "21 \<notin> fst ` set (nw_workers n)" using o(6) by (auto simp: in_int_def)
  have q: "in_int q" "10 < length (words_to_send (ws q))" and p: "in_int p" "p \<noteq> q" using c by (simp_all add: two_clients_def)
  from word_started [OF r o(2) q o(4) s(1,2) fd new] p(2) obtain n' s' argv rs where
    n': "program_runs d B ws s0 n'" "unanswered B ws n' q 11" "nw_server n' = boot s'"
      "nw_workers n' = nw_workers n @ [(21, argv, sv_fds s')]" "nw_inbox n' = nw_inbox n" "nw_clients n' p = nw_clients n p" and
    s': "at_ease s'" "sv_active s' = sv_active s + 1" "sv_run s' = table_put 21 rs (sv_run s)" "rs_testerSourcePid rs = q" by auto
  have "workers_of n' p = workers_of n p"
    using works_for_put [OF s'(3) new(2), of p] s(1) n'(3,4) s'(3,4) p(2)
    by (simp add: workers_of_def waiting_def boot_def) (simp add: works_for_def map_of_put)
  then have "workers_of n' p \<noteq> []" using o(5) by auto
  from a_worker_of [OF this] obtain wp argv' k us vs rs' where wk: "nw_workers n' = us @ (wp, argv', k) # vs"
    "map_of (sv_run s') wp = Some rs'" "rs_testerSourcePid rs' = p" using n'(3) by (auto simp: boot_def)
  have dw: "in_int wp" using distinct_workers [OF n'(1)] wk(1) by auto
  from worker_reports [OF n'(1) wk(1)] n'(3) obtain v where v: "in_int v" and
    r2: "program_runs d B ws s0 (n'\<lparr> nw_workers := us @ vs, nw_server := (boot s')\<lparr> sy_result := [write_run_terminate wp v] \<rparr> \<rparr>)"
    by (auto simp: boot_def)
  let ?y = "(boot s')\<lparr> sy_result := [write_run_terminate wp v], sy_phase := ReadingResult \<rparr>"
  let ?n = "n'\<lparr> nw_workers := us @ vs, nw_server := ?y \<rparr>"
  have r3: "program_runs d B ws s0 ?n" using serve_start [OF r2 _ s'(1)] s(3) s'(2) by (simp add: config)
  have "passes_on p (write_run_terminate wp v) s'" using dw v wk(2,3) s'(1) by (auto simp: passes_on_def)
  then have "full_for B ws p q 0 ?n"
    using n'(2,5,6) o(1,3,4) unanswered_same [of ?n p n] unanswered_same [of ?n q n'] by (simp add: full_for_def boot_def)
  with r3 show ?thesis by blast
qed

lemma reports_pile_up:
  assumes r: "program_runs d B ws s0 n" and c: "two_clients ws p q" and f: "full_for B ws p q k n" "k < 10"
  shows "\<exists>n'. program_runs d B ws s0 n' \<and> full_for B ws p q (k + 1) n'"
proof -
  obtain t reqs where t: "nw_clients n q = Some (client_at t False)" "tester_inv B q (ws q) t reqs []" "length reqs = 11 + k"
    using f(1) by (auto simp: full_for_def unanswered_def)
  have c': "in_int q" "length reqs < length (words_to_send (ws q))" "p \<noteq> q" using c f(2) t(3) by (simp_all add: two_clients_def)
  from client_sends [OF r t(1) c'(1) t(2) c'(2)] f obtain t' l w where t': "tester_inv B q (ws q) t' (reqs @ [(l, w)]) []" "tt_read_input t'" and
    r1: "program_runs d B ws s0 (n\<lparr> nw_clients := (nw_clients n)(q \<mapsto> client_at t' True),
      nw_server := (nw_server n)\<lparr> sy_report := sy_report (nw_server n) @ [write_parse q (inputQueueName q) l w] \<rparr> \<rparr>)"
    by (auto simp: full_for_def config)
  let ?n = "n\<lparr> nw_server := (nw_server n)\<lparr> sy_report := sy_report (nw_server n) @ [write_parse q (inputQueueName q) l w] \<rparr>,
      nw_clients := (nw_clients n)(q \<mapsto> client_at t' False) \<rparr>"
  from client_finds_nothing [OF r1, of q t'] t'(2) f(1) have r2: "program_runs d B ws s0 ?n" by (simp add: full_for_def)
  have "unanswered B ws ?n q (11 + (k + 1))" using t' t(3) by (force simp: unanswered_def)
  then have "full_for B ws p q (k + 1) ?n" using f(1) c'(3) unanswered_same [of ?n p n] by (simp add: full_for_def)
  with r2 show ?thesis by blast
qed

lemma reports_full:
  assumes "program_runs d B ws s0 n" "two_clients ws p q" "full_for B ws p q 0 n"
  shows "k \<le> 10 \<Longrightarrow> \<exists>n'. program_runs d B ws s0 n' \<and> full_for B ws p q k n'"
proof (induction k)
  case 0
  with assms show ?case by blast
next
  case (Suc k)
  then obtain n' where "program_runs d B ws s0 n'" "full_for B ws p q k n'" by auto
  with reports_pile_up [OF _ assms(2)] Suc.prems show ?case by simp
qed

section \<open>No way out\<close>

text \<open>Whatever the kernel answers, the server's next move is to write to the queue that is full.\<close>

lemma passing_on:
  assumes r: "program_runs d B ws s0 n" and m: "passes_on p m (sy_server (nw_server n))"
    and n: "sy_phase (nw_server n) = ReadingResult" "sy_result (nw_server n) = m # ms"
    and step: "server_step ke (nw_server n) = Some y"
  shows "\<exists>x. new_events (nw_server n) y = [SentTo (inputQueueName p) x]"
proof -
  let ?s = "sy_server (nw_server n)"
  obtain wp v rs where w: "m = write_run_terminate wp v" "in_int wp" "in_int v" "map_of (sv_run ?s) wp = Some rs"
    "rs_testerSourcePid rs = p" and e: "at_ease ?s" using m by (auto simp: passes_on_def)
  have ok: "server_ok ?s" using runs_server_well [OF r] by blast
  from handle_answer [OF ok w(2,3,4) granting_to_sel(1), of 0] obtain s' ts where
    s': "handle_run_terminate (granting_to 0) m ?s = Inr s'" "map_of (sv_testers ?s) p = Some ts"
      "sv_log s' = sv_log ?s @ [SentTo (ts_queue ts) (write_answer (rs_loc_id rs) v)]" using w(1,5) by auto
  have "handle_run_terminate ke m ?s = handle_run_terminate (granting_to 0) m ?s"
    using e by (simp add: handle_run_terminate_def throttle_unlock_def Let_def at_ease_def split: prod.split option.split)
  then have "sy_server y = s'" using step n s'(1) by (auto simp: server_step_def continue_with_def)
  moreover obtain Reqs Job rpids where "served_inv B d Reqs Job rpids (nw_workers n) (nw_server n)"
    using runs_server_well [OF r] by blast
  then have "\<forall>kt \<in> set (sv_testers ?s). ts_queue (snd kt) = inputQueueName (fst kt)"
    by (simp add: served_inv_def net_server_def)
  with map_of_SomeD [OF s'(2)] have "ts_queue ts = inputQueueName p" by force
  ultimately show ?thesis using s'(3) by (simp add: new_events_def)
qed

text \<open>A client that has a word to send and finds no room.\<close>

definition wants_to_send :: "int \<Rightarrow> (int \<Rightarrow> string list) \<Rightarrow> int \<Rightarrow> client \<Rightarrow> bool" where
  "wants_to_send B ws pid c \<longleftrightarrow> (\<exists>t reqs. c = client_at t False \<and> tester_inv B pid (ws pid) t reqs [] \<and>
     length reqs < length (words_to_send (ws pid)))"

lemma send_blocked:
  assumes "wants_to_send B ws pid c" "tester_read pid (cl_tester c) = Inr t" "length ms = 10"
  shows "\<not> fits_queue (ms @ drop (length (tt_sent (cl_tester c))) (tt_sent t))"
proof -
  obtain t0 reqs where t0: "c = client_at t0 False" "tester_inv B pid (ws pid) t0 reqs []" "length reqs < length (words_to_send (ws pid))"
    using assms(1) by (auto simp: wants_to_send_def)
  from t0(2,3) obtain t' l w where "tester_read pid t0 = Inr t'" "tt_sent t' = tt_sent t0 @ [write_parse pid (inputQueueName pid) l w]"
    by (rule word_read)
  with assms(2,3) t0(1) show ?thesis by (simp add: client_at_def fits_queue_def config)
qed

definition blocked ::
  "int \<Rightarrow> (int \<Rightarrow> string list) \<Rightarrow> int \<Rightarrow> int \<Rightarrow> client \<Rightarrow> client \<Rightarrow> server \<Rightarrow> network \<Rightarrow> bool" where
  "blocked B ws p q cp cq s n \<longleftrightarrow> nw_clients n p = Some cp \<and> nw_clients n q = Some cq \<and>
     wants_to_send B ws p cp \<and> wants_to_send B ws q cq \<and> length (nw_inbox n p) = 10 \<and> length (sy_report (nw_server n)) = 10 \<and>
     sy_server (nw_server n) = s \<and> sy_phase (nw_server n) = ReadingResult \<and>
     (\<exists>m ms. sy_result (nw_server n) = m # ms \<and> passes_on p m s)"

lemma waits_not_sent: "wants_to_send B ws pid c \<Longrightarrow> \<not> cl_sent c \<and> \<not> cl_left c \<and> tt_ans (cl_tester c) = 0"
  by (auto simp: wants_to_send_def client_at_def tester_inv_def)

lemma blocked_step:
  assumes r: "program_runs d B ws s0 n" and b: "blocked B ws p q cp cq s n" and p: "in_int p"
    and step: "net_step (\<lambda>pid. lines_text (ws pid)) n n'"
  shows "blocked B ws p q cp cq s n'"
proof -
  obtain m ms where m: "sy_result (nw_server n) = m # ms" "passes_on p m s" using b by (auto simp: blocked_def)
  have s: "sy_server (nw_server n) = s" "sy_phase (nw_server n) = ReadingResult" "length (nw_inbox n p) = 10"
    "length (sy_report (nw_server n)) = 10" using b by (simp_all add: blocked_def)
  have c: "nw_clients n p = Some cp" "nw_clients n q = Some cq" "wants_to_send B ws p cp" "wants_to_send B ws q cq"
    using b by (simp_all add: blocked_def)
  from step show ?thesis
  proof (cases rule: net_step.cases)
    case (enters pid)
    with b show ?thesis by (auto simp: blocked_def)
  next
    case (sends pid c' t)
    have "pid \<noteq> p" "pid \<noteq> q"
      using sends(2,5,6) c send_blocked [OF c(3) _ s(4)] send_blocked [OF c(4) _ s(4)] by auto
    moreover have "drop (length (tt_sent (cl_tester c'))) (tt_sent t) = []"
      using sends(6) s(4) by (simp add: fits_queue_def config)
    ultimately show ?thesis using b sends(1) by (auto simp: blocked_def)
  next
    case (receives pid c' t x exits)
    have "pid \<noteq> p" "pid \<noteq> q" using receives(2,4) c waits_not_sent [OF c(3)] waits_not_sent [OF c(4)] by auto
    with b receives(1) show ?thesis by (auto simp: blocked_def)
  next
    case (serves ke y)
    have "passes_on p m (sy_server (nw_server n))" using m(2) s(1) by simp
    from passing_on [OF r this s(2) m(1) serves(2)] obtain x where "new_events (nw_server n) y = [SentTo (inputQueueName p) x]" by blast
    then have "length (deliver (new_events (nw_server n) y) (nw_inbox n) p) = 11" using s(3) by (simp add: deliver_def)
    with serves(4) p show ?thesis by (auto simp: fits_queue_def config)
  next
    case (works us ke argv k vs i sq memory s' k')
    obtain Reqs Job rpids where "served_inv B d Reqs Job rpids (nw_workers n) (nw_server n)"
      using runs_server_well [OF r] by blast
    then have "\<exists>ms'. mq_msgs (sys_queue s' i) = m # ms'"
      using works_appends [OF _ program_runs_description [OF r] works(2-4)] m(1) by auto
    with b works(1) m(2) show ?thesis by (auto simp: blocked_def)
  next
    case (dies us w vs)
    with b show ?thesis by (simp add: blocked_def)
  qed
qed

lemma blocked_forever:
  assumes "program_runs d B ws s0 n" "blocked B ws p q cp cq s n" "in_int p"
  shows "rtranclp (net_step (\<lambda>pid. lines_text (ws pid))) n n' \<Longrightarrow> program_runs d B ws s0 n' \<and> blocked B ws p q cp cq s n'"
proof (induction rule: rtranclp_induct)
  case base
  with assms show ?case by blast
next
  case (step n' n'')
  then show ?case using program_runs_step blocked_step assms(3) by blast
qed

lemma program_reaches_block:
  assumes "good_start d g fds" "\<forall>pid. good_input B (ws pid)" "k_next_fd fds \<le> 2 ^ 30" "two_clients ws p q"
    and s0: "s0 = server_start g g2 fds (render d) verbose"
  shows "\<exists>n cp cq s. program_runs d B ws s0 n \<and> blocked B ws p q cp cq s n"
proof -
  have pq: "in_int p" "in_int q" "p \<noteq> q" "12 \<le> length (words_to_send (ws p))" "22 \<le> length (words_to_send (ws q))"
    using assms(4) by (simp_all add: two_clients_def)
  let ?n0 = "\<lparr> nw_server = boot s0, nw_clients = (\<lambda>_. None), nw_inbox = (\<lambda>_. []), nw_workers = [] \<rparr>"
  have "in_int (k_next_fd fds)" using assms(1,3) by (simp add: good_start_def in_int_def)
  from program_boots [OF assms(1,2) this s0] have
    b: "program_runs d B ws s0 ?n0" "at_ease s0" "sv_active s0 = 0" "sv_run s0 = []" "sv_fds s0 = fds" by simp_all
  from client_enters [OF b(1) _ _ pq(1) b(2)] obtain tp s1 where
    r1: "program_runs d B ws s0 (?n0\<lparr> nw_clients := [p \<mapsto> client_at tp False], nw_server := boot s1 \<rparr>)" and
    tp: "tester_inv B p (ws p) tp [] []" and s1: "at_ease s1" "sv_active s1 = 0" "sv_fds s1 = fds" using b(3,5) by auto
  let ?n1 = "?n0\<lparr> nw_clients := [p \<mapsto> client_at tp False], nw_server := boot s1 \<rparr>"
  from client_enters [OF r1 _ _ pq(2) s1(1)] pq(3) obtain tq s2 where
    r2: "program_runs d B ws s0 (?n0\<lparr> nw_clients := [p \<mapsto> client_at tp False, q \<mapsto> client_at tq False], nw_server := boot s2 \<rparr>)" and
    tq: "tester_inv B q (ws q) tq [] []" and s2: "at_ease s2" "sv_active s2 = 0" "sv_fds s2 = fds" using s1(2,3) by auto
  let ?n2 = "?n0\<lparr> nw_clients := [p \<mapsto> client_at tp False, q \<mapsto> client_at tq False], nw_server := waiting s2 \<rparr>"
  have r3: "program_runs d B ws s0 ?n2" using quiet_round [OF r2 _ s2(1)] s2(2) by (simp add: config)
  have "on_the_way B ws p q 0 0 ?n2"
    using tp tq s2 assms(3) pq(3) by (auto simp: on_the_way_def unanswered_def workers_of_def)
  from first_client_words [OF r3 assms(4) this, of 11] obtain n3 where n3: "program_runs d B ws s0 n3" "on_the_way B ws p q 11 0 n3" by auto
  from second_client_words [OF n3(1) assms(4) n3(2), of 10] obtain n4 where
    n4: "program_runs d B ws s0 n4" "on_the_way B ws p q 11 10 n4" by auto
  from block_begins [OF n4(1) assms(4) n4(2)] obtain n5 where n5: "program_runs d B ws s0 n5" "full_for B ws p q 0 n5" by blast
  from reports_full [OF n5(1) assms(4) n5(2), of 10] obtain n where n: "program_runs d B ws s0 n" "full_for B ws p q 10 n" by auto
  obtain cp cq where "nw_clients n p = Some cp" "nw_clients n q = Some cq" "wants_to_send B ws p cp" "wants_to_send B ws q cq"
    using n(2) pq(4,5) by (force simp: full_for_def unanswered_def wants_to_send_def)
  then have "blocked B ws p q cp cq (sy_server (nw_server n)) n" using n(2) by (simp add: full_for_def blocked_def)
  with n(1) show ?thesis by blast
qed

section \<open>Property\<close>

text \<open>
  C3: the program can block for ever. All writes to the queues wait for room; the server writes answers to a
  client while clients write requests to the server. With two clients, one of at least 12 and one of at
  least 22 words, there is a run after which, whatever steps anyone makes, both clients stand where they
  are, with no answer read and their words not all sent, and the server does nothing any more.
\<close>

theorem program_can_block:
  assumes "good_start d g fds" "\<forall>pid. good_input B (ws pid)" "k_next_fd fds \<le> 2 ^ 30" "in_int p" "in_int q" "p \<noteq> q"
    and "12 \<le> length (takeWhile (\<lambda>w. w \<noteq> ''!'') (ws p))" "22 \<le> length (takeWhile (\<lambda>w. w \<noteq> ''!'') (ws q))"
  shows "\<exists>n cp cq. runs (\<lambda>pid. lines_text (ws pid)) (server_start g g2 fds (render d) verbose) n \<and>
    nw_clients n p = Some cp \<and> nw_clients n q = Some cq \<and> \<not> cl_left cp \<and> \<not> cl_left cq \<and>
    tt_ans (cl_tester cp) = 0 \<and> tt_ans (cl_tester cq) = 0 \<and>
    (\<forall>n'. rtranclp (net_step (\<lambda>pid. lines_text (ws pid))) n n' \<longrightarrow>
       nw_clients n' p = Some cp \<and> nw_clients n' q = Some cq \<and> sy_server (nw_server n') = sy_server (nw_server n))"
proof -
  have "two_clients ws p q" using assms(4-8) by (simp add: two_clients_def words_to_send_def)
  from program_reaches_block [OF assms(1-3) this refl] obtain n cp cq s where
    n: "program_runs d B ws (server_start g g2 fds (render d) verbose) n" "blocked B ws p q cp cq s n" by blast
  then have c: "nw_clients n p = Some cp" "nw_clients n q = Some cq" "sy_server (nw_server n) = s"
    "wants_to_send B ws p cp" "wants_to_send B ws q cq" by (simp_all add: blocked_def)
  have "nw_clients n' p = Some cp \<and> nw_clients n' q = Some cq \<and> sy_server (nw_server n') = s"
    if "rtranclp (net_step (\<lambda>pid. lines_text (ws pid))) n n'" for n'
    using blocked_forever [OF n assms(4) that] by (simp add: blocked_def)
  with c n(1) waits_not_sent [OF c(4)] waits_not_sent [OF c(5)] show ?thesis by (auto simp: program_runs_def)
qed

theorem program_can_block_witness:
  "\<exists>n cp. runs (\<lambda>_. lines_text (replicate 22 ''a'')) (server_start [] [] demo_fds (render demo_description) False) n \<and>
     nw_clients n 5 = Some cp \<and> \<not> cl_left cp \<and>
     (\<forall>n'. rtranclp (net_step (\<lambda>_. lines_text (replicate 22 ''a''))) n n' \<longrightarrow> nw_clients n' 5 = Some cp)"
proof -
  have "\<forall>pid :: int. good_input 200 (replicate 22 ''a'')" by (simp add: good_input_def length_concat sum_list_replicate)
  moreover have "takeWhile (\<lambda>w. w \<noteq> ''!'') (replicate 22 ''a'') = replicate 22 ''a''" by (intro takeWhile_eq_all_conv [THEN iffD2]) simp
  moreover have "in_int 5" "in_int 6" by (simp_all add: in_int_def)
  ultimately show ?thesis
    using program_can_block [OF demo_program(1), of 200 "\<lambda>_. replicate 22 ''a''" 5 6 "[]" False] demo_program(4) by auto
qed

end
