(* ===== verification/GCCorrect.thy ===== *)
theory GCCorrect
  imports GC
begin

text \<open>
  What the collector does. \<open>gc_rep N g ps hs\<close> says that it is installed and switched on, that it
  remembers the allocated blocks \<open>ps\<close> and the handlers \<open>hs\<close> in their order, and that its maps have
  at most \<open>N\<close> buckets. Every operation keeps it, with 17 buckets more for each loop over the map
  of the blocks.
\<close>

section \<open>Hashing pointers\<close>

definition hashable :: "int \<Rightarrow> bool" where
  "hashable p \<longleftrightarrow> p \<noteq> 0 \<and> \<bar>wrap32 p\<bar> \<le> 6135667"

lemma key_ok_pointer: "hashable p \<Longrightarrow> key_ok (pointer_size p) []"
  by (auto simp: hashable_def key_ok_def pointer_size_def byte_list_def Let_def)

lemma as_ptr_hashable [simp]: "hashable p \<Longrightarrow> as_ptr p = Some p"
  by (simp add: hashable_def as_ptr_def)

lemma byte_list_pointer: "byte_list (pointer_bytes p)"
  using signed_take_bit_int_greater_eq_minus_exp [of 7] signed_take_bit_int_less_exp [of 7]
  by (auto simp: byte_list_def pointer_bytes_def)

lemma length_pointer_bytes [simp]: "length (pointer_bytes p) = 8"
  by (simp add: pointer_bytes_def)

lemma key_ok_holder: "key_ok 16 (holder_bytes h)"
  using byte_list_pointer by (auto simp: key_ok_def holder_bytes_def byte_list_def)

text \<open>A pointer whose low half is too far from zero makes the hash function overflow.\<close>

lemma HashMapCalcHash_overflow:
  assumes "6135668 \<le> \<bar>wrap32 p\<bar>"
  shows "HashMapCalcHash (pointer_size p) bs = None"
proof -
  have "pointer_size p \<le> -6135668" "\<not> pointer_size p > 0"
    using assms by (auto simp: pointer_size_def Let_def)
  then have "cint (pointer_size p * HASH_MAP_FACT_P) = None" by (auto simp: cint_def config)
  with \<open>\<not> pointer_size p > 0\<close> show ?thesis by (simp add: HashMapCalcHash_def)
qed

section \<open>The map of the blocks\<close>

definition mem_rep :: "nat \<Rightarrow> (int, int) HashMap \<Rightarrow> int list \<Rightarrow> bool" where
  "mem_rep N mem ps \<longleftrightarrow> (\<exists>n \<le> N. 0 < n \<and> hm_rep (2 ^ 24) n mem (map (\<lambda>p. (p, Some p)) ps)) \<and>
     hm_cmp mem = HashMapVoidPtrCmp \<and> distinct ps"

lemma accepts_key_ptr: "accepts_key HashMapVoidPtrCmp k kv \<longleftrightarrow> fst kv = k"
  by (simp add: accepts_key_def HashMapVoidPtrCmp_def)

lemma delete_ptr:
  "distinct ps \<Longrightarrow> delete HashMapVoidPtrCmp p (map (\<lambda>p. (p, Some p)) ps) = map (\<lambda>p. (p, Some p)) (filter (\<lambda>q. q \<noteq> p) ps)"
proof (induction ps)
  case (Cons q ps)
  have "filter (\<lambda>r. r \<noteq> p) ps = ps" if "q = p"
    using Cons.prems that by (intro filter_True) force
  with Cons show ?case by (simp add: delete_def accepts_key_ptr)
qed (simp add: delete_def)

lemma count_loop_ok:
  assumes "hm_rep B n hm kvs" "int n + 47 \<le> B"
  shows "\<exists>hm'. count_loop hm = Some (length kvs, hm') \<and> hm_rep B (n + 17) hm' kvs \<and> hm_cmp hm' = hm_cmp hm"
  using loop_reading_ok [OF assms, of "\<lambda>hm it. Some ((), hm)" "\<lambda>_. ()"] by (auto simp: count_loop_def)

lemma mem_rep_grow:
  assumes "hm_rep (2 ^ 24) n mem (map (\<lambda>p. (p, Some p)) ps)" "0 < n" "n \<le> N" "N + 47 \<le> 2 ^ 24"
    "hm_cmp mem = HashMapVoidPtrCmp" "distinct ps"
  shows "\<exists>k mem'. count_loop mem = Some (k, mem') \<and> mem_rep (N + 17) mem' ps"
proof -
  have "int n + 47 \<le> 2 ^ 24" using assms(3,4) by simp
  from count_loop_ok [OF assms(1) this] obtain mem' where
    m: "count_loop mem = Some (length ps, mem')" "hm_rep (2 ^ 24) (n + 17) mem' (map (\<lambda>p. (p, Some p)) ps)"
    "hm_cmp mem' = HashMapVoidPtrCmp" using assms(5) by auto
  have "mem_rep (N + 17) mem' ps"
    unfolding mem_rep_def by (intro conjI exI [of _ "n + 17"] m(2,3)) (use assms in auto)
  with m(1) show ?thesis by blast
qed

lemma gc_allocated_ok:
  assumes "mem_rep N mem ps" "1017 \<le> N" "N + 47 \<le> 2 ^ 24" "p = 0 \<or> hashable p \<and> p \<notin> set ps"
  shows "\<exists>mem'. gc_allocated p mem = Some mem' \<and> mem_rep (N + 17) mem' (if p = 0 then ps else ps @ [p])"
proof -
  from assms(1) obtain n where n: "n \<le> N" "0 < n" "hm_rep (2 ^ 24) n mem (map (\<lambda>p. (p, Some p)) ps)"
    "hm_cmp mem = HashMapVoidPtrCmp" "distinct ps" by (auto simp: mem_rep_def)
  show ?thesis
  proof (cases "p = 0")
    case True
    with mem_rep_grow [OF n(3,2,1) assms(3) n(4,5)] show ?thesis
      by (auto simp: gc_allocated_def as_ptr_def HashMapSet_def)
  next
    case False
    with assms(4) have p: "hashable p" "p \<notin> set ps" by auto
    have i: "insert_pair HashMapVoidPtrCmp p (Some p) (map (\<lambda>p. (p, Some p)) ps) = map (\<lambda>p. (p, Some p)) (ps @ [p])"
      unfolding insert_pair_def delete_ptr [OF n(5)]
      using p(2) by (subst filter_True) auto
    from HashMapSet_ok [where bytes = "\<lambda>_. []" and key = p, OF n(3) _ key_ok_pointer [OF p(1)], of "Some p"] obtain m1 v where
      m1: "HashMapSet (\<lambda>_. []) mem (pointer_size p) (Some p) (Some p) = Some (v, m1)"
      "hm_rep (2 ^ 24) (reached n) m1 (map (\<lambda>p. (p, Some p)) (ps @ [p]))" "hm_cmp m1 = HashMapVoidPtrCmp"
      unfolding n(4) i by auto
    have "distinct (ps @ [p])" "reached n \<le> N" "0 < reached n" using n(1,5) p(2) assms(2) by (auto simp: reached_def)
    with mem_rep_grow [OF m1(2) _ _ assms(3) m1(3)] m1(1) p(1) False show ?thesis
      by (auto simp: gc_allocated_def)
  qed
qed

lemma gc_freed_ok:
  assumes "mem_rep N mem ps" "1017 \<le> N" "N + 47 \<le> 2 ^ 24" "p = 0 \<or> hashable p"
  shows "\<exists>mem'. gc_freed p mem = Some mem' \<and> mem_rep (N + 17) mem' (if p = 0 then ps else filter (\<lambda>q. q \<noteq> p) ps)"
proof -
  from assms(1) obtain n where n: "n \<le> N" "0 < n" "hm_rep (2 ^ 24) n mem (map (\<lambda>p. (p, Some p)) ps)"
    "hm_cmp mem = HashMapVoidPtrCmp" "distinct ps" by (auto simp: mem_rep_def)
  show ?thesis
  proof (cases "p = 0")
    case True
    with mem_rep_grow [OF n(3,2,1) assms(3) n(4,5)] show ?thesis
      by (auto simp: gc_freed_def as_ptr_def HashMapRemove_def)
  next
    case False
    with assms(4) have p: "hashable p" by simp
    from removal_ok [where bytes = "\<lambda>_. []" and key = p, OF n(3) _ key_ok_pointer [OF p]] obtain m1 v where
      m1: "HashMapRemove (\<lambda>_. []) mem (pointer_size p) (Some p) = Some (v, m1)"
      "hm_rep (2 ^ 24) (reached n) m1 (map (\<lambda>p. (p, Some p)) (filter (\<lambda>q. q \<noteq> p) ps))" "hm_cmp m1 = HashMapVoidPtrCmp"
      unfolding n(4) delete_ptr [OF n(5)] by auto
    have "distinct (filter (\<lambda>q. q \<noteq> p) ps)" "reached n \<le> N" "0 < reached n"
      using n(1,5) assms(2) by (auto simp: reached_def)
    with mem_rep_grow [OF m1(2) _ _ assms(3) m1(3)] m1(1) p False show ?thesis
      by (auto simp: gc_freed_def)
  qed
qed

section \<open>The map of the handlers\<close>

text \<open>A handler: its type id, its pointer and its destructor. An entry has the two cells in front.\<close>

type_synonym handler = "int \<times> int \<times> destructor"
type_synonym handler_ent = "nat \<times> nat \<times> handler"

definition handler_pair :: "handler_ent \<Rightarrow> holder_addr \<times> nat option" where
  "handler_pair e = (OnHeap (fst e), Some (fst (snd e)))"

definition cell_ok :: "gc \<Rightarrow> handler_ent \<Rightarrow> bool" where
  "cell_ok g e \<longleftrightarrow> (case e of (a, b, ty, p, d) \<Rightarrow>
     gc_holder g a = Some \<lparr> ch_ptr = p, ch_type_id = ty \<rparr> \<and>
     gc_destr g b = Some \<lparr> cd_ptr = p, cd_destr = Some d \<rparr> \<and> a < gc_next g \<and> b < gc_next g)"

definition cells_ok :: "gc \<Rightarrow> handler_ent list \<Rightarrow> bool" where
  "cells_ok g es \<longleftrightarrow> distinct (map fst es) \<and> distinct (map (fst \<circ> snd) es) \<and> (\<forall>e \<in> set es. cell_ok g e)"

definition handlers_rep :: "nat \<Rightarrow> (holder_addr, nat) HashMap \<Rightarrow> gc \<Rightarrow> handler list \<Rightarrow> bool" where
  "handlers_rep N handlers g hs \<longleftrightarrow> (\<exists>n es. n \<le> N \<and> 0 < n \<and> hm_rep (2 ^ 24) n handlers (map handler_pair es) \<and>
     cells_ok g es \<and> hs = map (snd \<circ> snd) es) \<and> hm_cmp handlers = HashMapVoidPtrCmp"

lemma handlers_repI:
  "hm_rep (2 ^ 24) n handlers (map handler_pair es) \<Longrightarrow> n \<le> N \<Longrightarrow> 0 < n \<Longrightarrow> cells_ok g es \<Longrightarrow>
   hm_cmp handlers = HashMapVoidPtrCmp \<Longrightarrow> handlers_rep N handlers g (map (snd \<circ> snd) es)"
  unfolding handlers_rep_def by blast

lemma delete_absent: "\<forall>kv \<in> set kvs. \<not> accepts_key cmp k kv \<Longrightarrow> delete cmp k kvs = kvs"
  unfolding delete_def by (rule remove_first_none) (auto simp: find_None_iff)

lemma find_absent: "\<forall>kv \<in> set kvs. \<not> accepts_key cmp k kv \<Longrightarrow> find (accepts_key cmp k) kvs = None"
  by (auto simp: find_None_iff)

lemma deleted_frees_absent: "\<forall>kv \<in> set kvs. \<not> accepts_key cmp k kv \<Longrightarrow> deleted_frees cmp k kvs = []"
  by (simp add: deleted_frees_def find_absent)

lemma cells_ok_new:
  assumes "cells_ok g es"
  shows "cells_ok (g\<lparr> gc_holder := (gc_holder g)(gc_next g \<mapsto> \<lparr> ch_ptr = p, ch_type_id = ty \<rparr>),
      gc_destr := (gc_destr g)(Suc (gc_next g) \<mapsto> \<lparr> cd_ptr = p, cd_destr = Some d \<rparr>), gc_next := Suc (Suc (gc_next g)) \<rparr>)
    (es @ [(gc_next g, Suc (gc_next g), ty, p, d)])"
  using assms by (fastforce simp: cells_ok_def cell_ok_def)

lemma gc_new_ok:
  assumes "handlers_rep N handlers g hs" "1017 \<le> N" "p \<noteq> 0"
  shows "\<exists>handlers' g'. gc_new p (Some d) ty handlers g = Some (handlers', g') \<and>
    handlers_rep N handlers' g' (hs @ [(ty, p, d)]) \<and> gc_funct g' = gc_funct g \<and> gc_maps g' = gc_maps g \<and>
    gc_current_mode g' = gc_current_mode g"
proof -
  from assms(1) obtain n es where n: "n \<le> N" "0 < n" "hm_rep (2 ^ 24) n handlers (map handler_pair es)"
    "cells_ok g es" "hs = map (snd \<circ> snd) es" and cmp: "hm_cmp handlers = HashMapVoidPtrCmp"
    by (auto simp: handlers_rep_def)
  let ?a = "gc_next g" and ?data = "\<lparr> ch_ptr = p, ch_type_id = ty \<rparr>"
  let ?e = "(?a, Suc ?a, ty, p, d)"
  let ?g = "g\<lparr> gc_holder := (gc_holder g)(?a \<mapsto> ?data),
    gc_destr := (gc_destr g)(Suc ?a \<mapsto> \<lparr> cd_ptr = p, cd_destr = Some d \<rparr>), gc_next := Suc (Suc ?a) \<rparr>"
  have k: "key_ok 16 (key_bytes ?g ?data (OnHeap ?a))" using key_ok_holder by (simp add: key_bytes_def)
  have absent: "\<forall>kv \<in> set (map handler_pair es). \<not> accepts_key HashMapVoidPtrCmp (OnHeap ?a) kv"
    using n(4) by (auto simp: accepts_key_ptr handler_pair_def cells_ok_def cell_ok_def)
  from HashMapSet_ok [where bytes = "key_bytes ?g ?data" and key = "OnHeap ?a", OF n(3) _ k, of "Some (Suc ?a)"] obtain m1 where
    m1: "HashMapSetDeep (key_bytes ?g ?data) handlers 16 (Some (OnHeap ?a)) (Some (Suc ?a)) = Some ([], m1)"
    "hm_rep (2 ^ 24) (reached n) m1 (map handler_pair (es @ [?e]))" "hm_cmp m1 = HashMapVoidPtrCmp"
    unfolding cmp insert_pair_def delete_absent [OF absent] deleted_frees_absent [OF absent]
    by (auto simp: handler_pair_def)
  have "handlers_rep N m1 ?g (map (snd \<circ> snd) (es @ [?e]))"
    by (rule handlers_repI [OF m1(2) _ _ cells_ok_new [OF n(4)] m1(3)])
       (use n(1) assms(2) in \<open>auto simp: reached_def\<close>)
  with m1(1) assms(3) n(5) show ?thesis
    by (intro exI [of _ m1] exI [of _ ?g]) (simp add: gc_new_def Let_def)
qed

text \<open>GC_D looks for the address of its own variable, which no key is.\<close>

lemma gc_del_ok:
  assumes "handlers_rep N handlers g hs" "1017 \<le> N"
  shows "\<exists>handlers'. gc_del p ty handlers g = Some (handlers', g) \<and> handlers_rep N handlers' g hs"
proof -
  from assms(1) obtain n es where n: "n \<le> N" "0 < n" "hm_rep (2 ^ 24) n handlers (map handler_pair es)"
    "cells_ok g es" "hs = map (snd \<circ> snd) es" and cmp: "hm_cmp handlers = HashMapVoidPtrCmp"
    by (auto simp: handlers_rep_def)
  let ?data = "\<lparr> ch_ptr = p, ch_type_id = ty \<rparr>"
  have k: "key_ok 16 (key_bytes g ?data OnStack)" using key_ok_holder by (simp add: key_bytes_def)
  have absent: "\<forall>kv \<in> set (map handler_pair es). \<not> accepts_key HashMapVoidPtrCmp OnStack kv"
    by (auto simp: accepts_key_ptr handler_pair_def)
  then have "lookup HashMapVoidPtrCmp OnStack (map handler_pair es) = None"
    by (simp only: lookup_def find_absent option.case)
  with HashMapGet_ok [where bytes = "key_bytes g ?data" and key = OnStack, OF n(3) _ k] obtain m2 where
    m2: "HashMapGet (key_bytes g ?data) handlers 16 (Some OnStack) = Some (None, m2)"
    "hm_rep (2 ^ 24) (reached n) m2 (map handler_pair es)" "hm_cmp m2 = HashMapVoidPtrCmp"
    unfolding cmp by auto
  from removal_ok [where bytes = "key_bytes g ?data" and key = OnStack, OF n(3) _ k] obtain m1 where
    m1: "HashMapRemoveDeep (key_bytes g ?data) handlers 16 (Some OnStack) = Some ([], m1)"
    "hm_rep (2 ^ 24) (reached n) m1 (map handler_pair es)" "hm_cmp m1 = HashMapVoidPtrCmp"
    unfolding cmp delete_absent [OF absent] deleted_frees_absent [OF absent] by auto
  have r: "reached n \<le> N" "0 < reached n" using n(1) assms(2) by (auto simp: reached_def)
  from handlers_repI [OF m1(2) r n(4) m1(3)] handlers_repI [OF m2(2) r n(4) m2(3)] m1(1) m2(1) n(5)
  show ?thesis by (cases "gc_logEnabled g = 0") (simp_all add: gc_del_def remove_handler_def Let_def)
qed

section \<open>Cleaning up\<close>

definition closes :: "handler list \<Rightarrow> close_call list" where
  "closes hs = concat (map (\<lambda>(_, p, d). if wrap32 p = -1 then []
     else [case d of pipe_close \<Rightarrow> Close (wrap32 p) | msgq_close \<Rightarrow> MqClose (wrap32 p)]) hs)"

lemma call_destructors_ok:
  "\<forall>e \<in> set es. cell_ok g e \<Longrightarrow>
   call_destructors g (map (\<lambda>e. (Some (OnHeap (fst e)), Some (fst (snd e)))) es) w =
     Some (w\<lparr> p_closed := p_closed w @ closes (map (snd \<circ> snd) es) \<rparr>)"
proof (induction es arbitrary: w)
  case (Cons e es)
  obtain a b ty p d where e: "e = (a, b, ty, p, d)" by (metis prod.collapse)
  then have "gc_holder g a = Some \<lparr> ch_ptr = p, ch_type_id = ty \<rparr>"
    "gc_destr g b = Some \<lparr> cd_ptr = p, cd_destr = Some d \<rparr>" using Cons.prems by (auto simp: cell_ok_def)
  then have "call_destructor g (Some (OnHeap a), Some b) w = Some (destruct d p w)"
    by (simp add: call_destructor_def)
  with Cons e show ?case by (cases "wrap32 p = -1"; cases d) (simp_all add: destructor_defs closes_def Let_def)
qed (simp add: closes_def)

lemma free_all_ok:
  "distinct ps \<Longrightarrow> set ps \<subseteq> p_live w \<Longrightarrow> free_all (map Some ps) w = Some (w\<lparr> p_live := p_live w - set ps \<rparr>)"
proof (induction ps arbitrary: w)
  case (Cons p ps)
  have "p_live w - {p} - set ps = p_live w - insert p (set ps)" by auto
  with Cons show ?case by (simp add: libc_free_def subset_Diff_insert)
qed simp

lemma cell_ok_forget:
  "cell_ok g e \<Longrightarrow> fst e \<noteq> a \<Longrightarrow> fst (snd e) \<noteq> b \<Longrightarrow>
   cell_ok (g\<lparr> gc_destr := (gc_destr g)(b := None), gc_holder := (gc_holder g)(a := None) \<rparr>) e"
  by (cases e) (simp add: cell_ok_def)

lemma forget_ok:
  "cells_ok g es \<Longrightarrow> \<exists>g'. forget (all_frees (map handler_pair es)) g = Some g' \<and>
    gc_funct g' = gc_funct g \<and> gc_maps g' = gc_maps g \<and> gc_current_mode g' = gc_current_mode g"
proof (induction es arbitrary: g)
  case (Cons e es)
  obtain a b ty p d where e: "e = (a, b, ty, p, d)" by (metis prod.collapse)
  let ?g = "g\<lparr> gc_destr := (gc_destr g)(b := None), gc_holder := (gc_holder g)(a := None) \<rparr>"
  have fresh: "\<forall>e' \<in> set es. fst e' \<noteq> a \<and> fst (snd e') \<noteq> b"
    using Cons.prems e by (auto simp: cells_ok_def image_iff)
  then have "cells_ok ?g es" using Cons.prems cell_ok_forget by (auto simp: cells_ok_def)
  from Cons.IH [OF this] obtain g' where g': "forget (all_frees (map handler_pair es)) ?g = Some g'"
    "gc_funct g' = gc_funct g" "gc_maps g' = gc_maps g" "gc_current_mode g' = gc_current_mode g" by auto
  have "gc_holder g a \<noteq> None" "gc_destr g b \<noteq> None" using Cons.prems e by (auto simp: cells_ok_def cell_ok_def)
  moreover have "all_frees (map handler_pair (e # es)) =
      FreedValue b # FreedKey (OnHeap a) # all_frees (map handler_pair es)"
    by (simp add: e all_frees_def frees_def handler_pair_def)
  ultimately show ?case using g' by (intro exI [of _ g']) auto
qed (simp add: all_frees_def)

definition gc_rep :: "nat \<Rightarrow> gc \<Rightarrow> int list \<Rightarrow> handler list \<Rightarrow> bool" where
  "gc_rep N g ps hs \<longleftrightarrow> gc_funct g \<and> gc_current_mode g \<and> 1017 \<le> N \<and> (case gc_maps g of
     None \<Rightarrow> ps = [] \<and> hs = []
   | Some (mem, handlers) \<Rightarrow> mem_rep N mem ps \<and> handlers_rep N handlers g hs)"

text \<open>The first call of the collector makes the maps.\<close>

definition first_maps :: "gc \<Rightarrow> ((int, int) HashMap \<times> (holder_addr, nat) HashMap) option" where
  "first_maps g = (case gc_maps g of Some maps \<Rightarrow> Some maps
     | None \<Rightarrow> do {
         mem \<leftarrow> HashMapNew HashMapVoidPtrCmp;
         handlers \<leftarrow> HashMapNew HashMapVoidPtrCmp;
         Some (mem, handlers) })"

lemma handlers_rep_cong:
  "handlers_rep N handlers g hs \<Longrightarrow> gc_holder g' = gc_holder g \<Longrightarrow> gc_destr g' = gc_destr g \<Longrightarrow> gc_next g' = gc_next g \<Longrightarrow>
   handlers_rep N handlers g' hs"
  unfolding handlers_rep_def cells_ok_def cell_ok_def by (simp add: split_beta)

lemma mem_rep_mono: "mem_rep N mem ps \<Longrightarrow> N \<le> M \<Longrightarrow> mem_rep M mem ps"
  unfolding mem_rep_def by (meson le_trans)

lemma handlers_rep_mono: "handlers_rep N handlers g hs \<Longrightarrow> N \<le> M \<Longrightarrow> handlers_rep M handlers g hs"
  unfolding handlers_rep_def by (elim conjE exE, intro conjI exI) auto

lemma first_maps_ok:
  assumes "gc_rep N g ps hs"
  shows "\<exists>mem handlers. first_maps g = Some (mem, handlers) \<and> mem_rep N mem ps \<and> handlers_rep N handlers g hs"
proof (cases "gc_maps g")
  case None
  with assms have e: "ps = []" "hs = []" "1017 \<le> N" by (auto simp: gc_rep_def)
  have B: "130 \<le> (2 ^ 24 :: int)" "(2 ^ 24 :: int) < 2 ^ 25" by simp_all
  from HashMapNew_ok [OF B] obtain mem :: "(int, int) HashMap" where
    m: "HashMapNew HashMapVoidPtrCmp = Some mem" "hm_cmp mem = HashMapVoidPtrCmp" "hm_rep (2 ^ 24) 100 mem []" by blast
  from HashMapNew_ok [OF B] obtain handlers :: "(holder_addr, nat) HashMap" where
    h: "HashMapNew HashMapVoidPtrCmp = Some handlers" "hm_cmp handlers = HashMapVoidPtrCmp"
    "hm_rep (2 ^ 24) 100 handlers []" by blast
  have "mem_rep N mem ps" unfolding mem_rep_def e using m e(3) by (intro conjI exI [of _ 100]) simp_all
  moreover have "handlers_rep N handlers g hs"
    unfolding handlers_rep_def e using h e(3)
    by (intro conjI exI [of _ 100] exI [of _ "[]"]) (simp_all add: cells_ok_def)
  ultimately show ?thesis using None m(1) h(1) by (simp add: first_maps_def)
next
  case (Some maps)
  with assms show ?thesis by (cases maps) (auto simp: gc_rep_def first_maps_def)
qed

lemma gc_mem_tree_on:
  assumes "gc_funct g" "gc_current_mode g" "first_maps g = Some (mem, handlers)"
    "g' = g\<lparr> gc_current_mode := False, gc_maps := Some (mem, handlers) \<rparr>"
  shows "gc_mem_tree_proxy mode p q r (g, w) = gc_bind
         (if mode = 0 then do {
            mem \<leftarrow> gc_allocated p mem; Some (Returns (g'\<lparr> gc_maps := Some (mem, handlers) \<rparr>, w)) }
          else if mode = 1 then do {
            mem \<leftarrow> gc_freed p mem; Some (Returns (g'\<lparr> gc_maps := Some (mem, handlers) \<rparr>, w)) }
          else if mode = 2 \<or> mode = 3 \<or> mode = 5 then gc_cleanup mode p mem handlers g' w
          else if mode = 4 then Some (Returns (g'\<lparr> gc_logEnabled := wrap32 p \<rparr>, w))
          else if mode = 6 then do {
            (handlers, g) \<leftarrow> gc_new p q r handlers g';
            Some (Returns (g\<lparr> gc_maps := Some (mem, handlers) \<rparr>, w)) }
          else if mode = 7 then do {
            (handlers, g) \<leftarrow> gc_del p r handlers g';
            Some (Returns (g\<lparr> gc_maps := Some (mem, handlers) \<rparr>, w)) }
          else Some (Returns (g', w)))
         (\<lambda>(g, w). Some (Returns (GC_ON g, w)))"
  using assms by (simp add: gc_mem_tree_proxy_def gc_mem_tree_def gc_defs first_maps_def Let_def)

lemma gc_rep_set:
  assumes "mem_rep N mem ps" "handlers_rep N handlers g hs" "1017 \<le> N" "gc_funct g"
  shows "gc_rep N (GC_ON (g\<lparr> gc_maps := Some (mem, handlers) \<rparr>)) ps hs"
  using assms handlers_rep_cong [OF assms(2)] by (simp add: gc_rep_def gc_defs)

lemma handlers_rep_off:
  "handlers_rep N handlers g hs \<Longrightarrow> handlers_rep N handlers (g\<lparr> gc_current_mode := m, gc_maps := x \<rparr>) hs"
  by (erule handlers_rep_cong) simp_all

text \<open>The operations.\<close>

lemma GC_ON_ALLOC_ok:
  assumes "gc_rep N g ps hs" "N + 47 \<le> 2 ^ 24" "p = 0 \<or> hashable p \<and> p \<notin> set ps"
  shows "\<exists>g'. GC_ON_ALLOC p (g, w) = Some (Returns (g', w)) \<and>
    gc_rep (N + 17) g' (if p = 0 then ps else ps @ [p]) hs"
proof -
  from first_maps_ok [OF assms(1)] obtain mem handlers where
    f: "first_maps g = Some (mem, handlers)" "mem_rep N mem ps" "handlers_rep N handlers g hs" by blast
  have g: "gc_funct g" "gc_current_mode g" "1017 \<le> N" using assms(1) by (auto simp: gc_rep_def)
  let ?g = "g\<lparr> gc_current_mode := False, gc_maps := Some (mem, handlers) \<rparr>"
  from gc_allocated_ok [OF f(2) g(3) assms(2,3)] obtain mem' where
    m: "gc_allocated p mem = Some mem'" "mem_rep (N + 17) mem' (if p = 0 then ps else ps @ [p])" by blast
  have "gc_rep (N + 17) (GC_ON (?g\<lparr> gc_maps := Some (mem', handlers) \<rparr>)) (if p = 0 then ps else ps @ [p]) hs"
    by (rule gc_rep_set [OF m(2)]) (use handlers_rep_mono [OF handlers_rep_off [OF f(3)]] g in auto)
  with m(1) show ?thesis
    unfolding GC_ON_ALLOC_def gc_mem_tree_on [OF g(1,2) f(1) refl] by simp
qed

lemma GC_ON_FREE_ok:
  assumes "gc_rep N g ps hs" "N + 47 \<le> 2 ^ 24" "p = 0 \<or> hashable p"
  shows "\<exists>g'. GC_ON_FREE p (g, w) = Some (Returns (g', w)) \<and>
    gc_rep (N + 17) g' (if p = 0 then ps else filter (\<lambda>q. q \<noteq> p) ps) hs"
proof -
  from first_maps_ok [OF assms(1)] obtain mem handlers where
    f: "first_maps g = Some (mem, handlers)" "mem_rep N mem ps" "handlers_rep N handlers g hs" by blast
  have g: "gc_funct g" "gc_current_mode g" "1017 \<le> N" using assms(1) by (auto simp: gc_rep_def)
  let ?g = "g\<lparr> gc_current_mode := False, gc_maps := Some (mem, handlers) \<rparr>"
  from gc_freed_ok [OF f(2) g(3) assms(2,3)] obtain mem' where
    m: "gc_freed p mem = Some mem'" "mem_rep (N + 17) mem' (if p = 0 then ps else filter (\<lambda>q. q \<noteq> p) ps)" by blast
  have "gc_rep (N + 17) (GC_ON (?g\<lparr> gc_maps := Some (mem', handlers) \<rparr>))
      (if p = 0 then ps else filter (\<lambda>q. q \<noteq> p) ps) hs"
    by (rule gc_rep_set [OF m(2)]) (use handlers_rep_mono [OF handlers_rep_off [OF f(3)]] g in auto)
  with m(1) show ?thesis
    unfolding GC_ON_FREE_def gc_mem_tree_on [OF g(1,2) f(1) refl] by simp
qed

lemma GC_N_ok:
  assumes "gc_rep N g ps hs" "p \<noteq> 0"
  shows "\<exists>g'. GC_N ty p d (g, w) = Some (Returns (g', w)) \<and> gc_rep N g' ps (hs @ [(ty, p, d)])"
proof -
  from first_maps_ok [OF assms(1)] obtain mem handlers where
    f: "first_maps g = Some (mem, handlers)" "mem_rep N mem ps" "handlers_rep N handlers g hs" by blast
  have g: "gc_funct g" "gc_current_mode g" "1017 \<le> N" using assms(1) by (auto simp: gc_rep_def)
  let ?g = "g\<lparr> gc_current_mode := False, gc_maps := Some (mem, handlers) \<rparr>"
  have "handlers_rep N handlers ?g hs" by (rule handlers_rep_off [OF f(3)])
  from gc_new_ok [OF this g(3) assms(2), of d ty] obtain handlers' g' where
    h: "gc_new p (Some d) ty handlers ?g = Some (handlers', g')" "handlers_rep N handlers' g' (hs @ [(ty, p, d)])"
    "gc_funct g' = gc_funct g" by auto
  have "gc_rep N (GC_ON (g'\<lparr> gc_maps := Some (mem, handlers') \<rparr>)) ps (hs @ [(ty, p, d)])"
    by (rule gc_rep_set [OF f(2) h(2)]) (use g h(3) in auto)
  with h(1) show ?thesis
    unfolding GC_N_def gc_mem_tree_on [OF g(1,2) f(1) refl] by simp
qed

lemma GC_D_ok:
  assumes "gc_rep N g ps hs"
  shows "\<exists>g'. GC_D ty p (g, w) = Some (Returns (g', w)) \<and> gc_rep N g' ps hs"
proof -
  from first_maps_ok [OF assms(1)] obtain mem handlers where
    f: "first_maps g = Some (mem, handlers)" "mem_rep N mem ps" "handlers_rep N handlers g hs" by blast
  have g: "gc_funct g" "gc_current_mode g" "1017 \<le> N" using assms(1) by (auto simp: gc_rep_def)
  let ?g = "g\<lparr> gc_current_mode := False, gc_maps := Some (mem, handlers) \<rparr>"
  from gc_del_ok [OF handlers_rep_off [OF f(3)] g(3)] obtain handlers' where
    h: "gc_del p ty handlers ?g = Some (handlers', ?g)" "handlers_rep N handlers' ?g hs" by blast
  have "gc_rep N (GC_ON (?g\<lparr> gc_maps := Some (mem, handlers') \<rparr>)) ps hs"
    by (rule gc_rep_set [OF f(2) h(2)]) (use g in auto)
  with h(1) show ?thesis
    unfolding GC_D_def gc_mem_tree_on [OF g(1,2) f(1) refl] by simp
qed

lemma read_handler_ok:
  "element_at hm it = Some (Some \<lparr> he_key = Some k, he_value = v \<rparr>, hm) \<Longrightarrow> read_handler hm it = Some ((Some k, v), hm)"
  by (simp add: read_handler_def HashMapGetKey_def HashMapGetValue_def)

lemma cleanup_loops_ok:
  assumes "mem_rep N mem ps" "handlers_rep N handlers g hs" "N + 47 \<le> 2 ^ 24" "set ps \<subseteq> p_live w"
  shows "\<exists>kvs handlers' mem'. loop_reading read_handler handlers = Some (kvs, handlers') \<and>
    call_destructors g kvs w = Some (w\<lparr> p_closed := p_closed w @ closes hs \<rparr>) \<and>
    LOOP_HASHMAP mem = Some (map Some ps, mem') \<and>
    free_all (map Some ps) (w\<lparr> p_closed := p_closed w @ closes hs \<rparr>) =
      Some (w\<lparr> p_live := p_live w - set ps, p_closed := p_closed w @ closes hs \<rparr>) \<and>
    mem_rep (N + 17) mem' ps \<and> handlers_rep (N + 17) handlers' g hs"
proof -
  from assms(1) obtain n where n: "n \<le> N" "0 < n" "hm_rep (2 ^ 24) n mem (map (\<lambda>p. (p, Some p)) ps)"
    "hm_cmp mem = HashMapVoidPtrCmp" "distinct ps" by (auto simp: mem_rep_def)
  from assms(2) obtain m es where m: "m \<le> N" "0 < m" "hm_rep (2 ^ 24) m handlers (map handler_pair es)"
    "cells_ok g es" "hs = map (snd \<circ> snd) es" "hm_cmp handlers = HashMapVoidPtrCmp"
    by (auto simp: handlers_rep_def)
  have le: "int n + 47 \<le> 2 ^ 24" "int m + 47 \<le> 2 ^ 24" using n(1) m(1) assms(3) by simp_all
  let ?kv = "\<lambda>e. (Some (OnHeap (fst e)), Some (fst (snd e)))"
  from loop_reading_ok [OF m(3) le(2), of read_handler "\<lambda>(k, v). (Some k, v)"] read_handler_ok obtain handlers' where
    h: "loop_reading read_handler handlers = Some (map (\<lambda>(k, v). (Some k, v)) (map handler_pair es), handlers')"
    "hm_rep (2 ^ 24) (m + 17) handlers' (map handler_pair es)" "hm_cmp handlers' = hm_cmp handlers" by auto
  have kv: "map (\<lambda>(k, v). (Some k, v)) (map handler_pair es) = map ?kv es" by (simp add: handler_pair_def)
  have c: "call_destructors g (map ?kv es) w = Some (w\<lparr> p_closed := p_closed w @ closes hs \<rparr>)"
    using call_destructors_ok [of es g w] m(4,5) by (auto simp: cells_ok_def)
  from LOOP_HASHMAP_ok [OF n(3) le(1)] obtain mem' where
    l: "LOOP_HASHMAP mem = Some (map Some ps, mem')" "hm_rep (2 ^ 24) (n + 17) mem' (map (\<lambda>p. (p, Some p)) ps)"
    "hm_cmp mem' = hm_cmp mem" by (auto simp: comp_def)
  have "free_all (map Some ps) (w\<lparr> p_closed := p_closed w @ closes hs \<rparr>) =
      Some (w\<lparr> p_live := p_live w - set ps, p_closed := p_closed w @ closes hs \<rparr>)"
    using free_all_ok [OF n(5), of "w\<lparr> p_closed := p_closed w @ closes hs \<rparr>"] assms(4) by simp
  moreover have "mem_rep (N + 17) mem' ps"
    unfolding mem_rep_def using l n by (intro conjI exI [of _ "n + 17"]) auto
  moreover have "handlers_rep (N + 17) handlers' g hs"
    unfolding m(5) using h m by (intro handlers_repI [OF h(2)]) auto
  ultimately show ?thesis using h(1) c l(1) unfolding kv by blast
qed

lemma destroy_maps_ok:
  assumes "mem_rep N mem ps" "handlers_rep N handlers g hs"
  shows "\<exists>mem' freed handlers' g'. HashMapDestroy mem = Some mem' \<and>
    HashMapDestroyDeep handlers = Some (freed, handlers') \<and> forget freed g = Some g' \<and> gc_funct g' = gc_funct g \<and>
    gc_current_mode g' = gc_current_mode g"
proof -
  from assms(1) obtain n where n: "0 < n" "hm_rep (2 ^ 24) n mem (map (\<lambda>p. (p, Some p)) ps)"
    by (auto simp: mem_rep_def)
  from assms(2) obtain m es where m: "0 < m" "hm_rep (2 ^ 24) m handlers (map handler_pair es)" "cells_ok g es"
    by (auto simp: handlers_rep_def)
  from forget_ok [OF m(3)] obtain g' where "forget (all_frees (map handler_pair es)) g = Some g'" "gc_funct g' = gc_funct g"
    "gc_current_mode g' = gc_current_mode g" by blast
  with destroy_map_ok [OF n(2,1), of False] destroy_map_ok [OF m(2,1), of True] show ?thesis
    by (auto simp: HashMapDestroy_def HashMapDestroyDeep_def)
qed

text \<open>What is left of the process behind a cleanup.\<close>

definition cleaned :: "int list \<Rightarrow> handler list \<Rightarrow> wait_answer list \<Rightarrow> process \<Rightarrow> process" where
  "cleaned ps hs waits w = w\<lparr> p_live := p_live w - set ps, p_closed := p_closed w @ closes hs, p_waits := waits \<rparr>"

lemma gc_cleanup_ok:
  assumes "mem_rep N mem ps" "handlers_rep N handlers g hs" "N + 47 \<le> 2 ^ 24" "set ps \<subseteq> p_live w"
    "processWaitForAll (p_waits w) = Some (st, waits)"
  shows "\<exists>g' mem' handlers'. gc_cleanup mode p mem handlers g w =
      Some (if mode = 5 then Returns (g\<lparr> gc_maps := Some (mem', handlers') \<rparr>, cleaned ps hs (p_waits w) w)
        else if mode = 3 then Exits (wrap32 p) (g', cleaned ps hs waits w) else Returns (g', cleaned ps hs waits w)) \<and>
    gc_funct g' = gc_funct g \<and> gc_current_mode g' = gc_current_mode g \<and> mem_rep (N + 17) mem' ps \<and> handlers_rep (N + 17) handlers' g hs"
proof -
  from cleanup_loops_ok [OF assms(1-4)] obtain kvs handlers' mem' where
    l: "loop_reading read_handler handlers = Some (kvs, handlers')"
    "call_destructors g kvs w = Some (w\<lparr> p_closed := p_closed w @ closes hs \<rparr>)"
    "LOOP_HASHMAP mem = Some (map Some ps, mem')"
    "free_all (map Some ps) (w\<lparr> p_closed := p_closed w @ closes hs \<rparr>) =
      Some (w\<lparr> p_live := p_live w - set ps, p_closed := p_closed w @ closes hs \<rparr>)"
    "mem_rep (N + 17) mem' ps" "handlers_rep (N + 17) handlers' g hs" by blast
  from destroy_maps_ok [OF l(5,6)] obtain mem'' freed handlers'' g' where
    d: "HashMapDestroy mem' = Some mem''" "HashMapDestroyDeep handlers' = Some (freed, handlers'')"
    "forget freed g = Some g'" "gc_funct g' = gc_funct g" "gc_current_mode g' = gc_current_mode g" by blast
  show ?thesis
    by (rule exI [of _ "g'\<lparr> gc_maps := Some (mem'', handlers'') \<rparr>"], rule exI [of _ mem'], rule exI [of _ handlers'])
       (use l d assms(5) in \<open>simp add: gc_cleanup_def cleaned_def Let_def\<close>)
qed

lemma GC_FREE_ALL_ok:
  assumes "gc_rep N g ps hs" "N + 47 \<le> 2 ^ 24" "set ps \<subseteq> p_live w"
    "processWaitForAll (p_waits w) = Some (st, waits)"
  shows "\<exists>g'. GC_FREE_ALL (g, w) = Some (Returns (g', cleaned ps hs waits w))"
proof -
  from first_maps_ok [OF assms(1)] obtain mem handlers where
    f: "first_maps g = Some (mem, handlers)" "mem_rep N mem ps" "handlers_rep N handlers g hs" by blast
  have g: "gc_funct g" "gc_current_mode g" using assms(1) by (auto simp: gc_rep_def)
  from gc_cleanup_ok [OF f(2) handlers_rep_off [OF f(3), where m = False and x = "Some (mem, handlers)"] assms(2-4), of 2 0]
  show ?thesis unfolding GC_FREE_ALL_def gc_mem_tree_on [OF g f(1) refl] by auto
qed

lemma GC_FORK_FREE_ok:
  assumes "gc_rep N g ps hs" "N + 47 \<le> 2 ^ 24" "set ps \<subseteq> p_live w"
    "processWaitForAll (p_waits w) = Some (st, waits)"
  shows "\<exists>g'. GC_FORK_FREE (g, w) = Some (Returns (g', cleaned ps hs (p_waits w) w)) \<and> gc_rep (N + 17) g' ps hs"
proof -
  from first_maps_ok [OF assms(1)] obtain mem handlers where
    f: "first_maps g = Some (mem, handlers)" "mem_rep N mem ps" "handlers_rep N handlers g hs" by blast
  have g: "gc_funct g" "gc_current_mode g" "1017 \<le> N" using assms(1) by (auto simp: gc_rep_def)
  let ?g = "g\<lparr> gc_current_mode := False, gc_maps := Some (mem, handlers) \<rparr>"
  from gc_cleanup_ok [OF f(2) handlers_rep_off [OF f(3), where m = False and x = "Some (mem, handlers)"] assms(2-4), of 5 0] obtain mem' handlers' where
    c: "gc_cleanup 5 0 mem handlers ?g w = Some (Returns (?g\<lparr> gc_maps := Some (mem', handlers') \<rparr>, cleaned ps hs (p_waits w) w))"
    "mem_rep (N + 17) mem' ps" "handlers_rep (N + 17) handlers' ?g hs" by auto
  have "gc_rep (N + 17) (GC_ON (?g\<lparr> gc_maps := Some (mem', handlers') \<rparr>)) ps hs"
    by (rule gc_rep_set [OF c(2,3)]) (use g in auto)
  with c(1) show ?thesis unfolding GC_FORK_FREE_def gc_mem_tree_on [OF g(1,2) f(1) refl] by auto
qed

text \<open>GC_EXIT leaves the collector switched off, so that the hook of exit finds nothing to do.\<close>

lemma gc_off_hook: "\<not> gc_current_mode g \<Longrightarrow> gc_exit_hook (g, v) = Some (Returns (g, v))"
  by (simp add: gc_exit_hook_def GC_FREE_ALL_def gc_mem_tree_proxy_def gc_mem_tree_def gc_defs)

lemma GC_EXIT_ok:
  assumes "gc_rep N g ps hs" "N + 47 \<le> 2 ^ 24" "set ps \<subseteq> p_live w"
    "processWaitForAll (p_waits w) = Some (st, waits)"
  shows "\<exists>g'. GC_EXIT code (g, w) = Some (Exits (wrap32 code) (g', cleaned ps hs waits w)) \<and>
    gc_exit_hook (g', v) = Some (Returns (g', v))"
proof -
  from first_maps_ok [OF assms(1)] obtain mem handlers where
    f: "first_maps g = Some (mem, handlers)" "mem_rep N mem ps" "handlers_rep N handlers g hs" by blast
  have g: "gc_funct g" "gc_current_mode g" using assms(1) by (auto simp: gc_rep_def)
  from gc_cleanup_ok [OF f(2) handlers_rep_off [OF f(3), where m = False and x = "Some (mem, handlers)"] assms(2-4), of 3 code]
  show ?thesis unfolding GC_EXIT_def gc_mem_tree_on [OF g f(1) refl] by (auto intro: gc_off_hook)
qed

end
