(* ===== verification/Memalloc.thy ===== *)
theory Memalloc
  imports GCCorrect
begin

text \<open>
  The allocators of memalloc.h. They report every block to the collector through the macros of gc.h,
  which have two meanings: with ENABLE_GC those of \<open>GC\<close>, without it they do nothing. So the
  allocators take the two operations \<open>on_alloc\<close> and \<open>on_free\<close>, and the locale \<open>collector\<close> is what
  the proofs need of them; both meanings are interpretations.

  What malloc, calloc and realloc give back is the argument \<open>answer\<close>, 0 for NULL. The state is the
  one of the collector and the \<open>process\<close> with its live blocks. syserr and syserrv are exits with -1.
\<close>

type_synonym 'g step = "'g \<times> process \<Rightarrow> ('g \<times> process, 'g \<times> process) gc_end option"
type_synonym 'g allocation = "('g \<times> process, int \<times> 'g \<times> process) gc_end option"

section \<open>The C library\<close>

definition libc_alloc :: "int \<Rightarrow> 'g \<times> process \<Rightarrow> 'g \<times> process" where
  "libc_alloc answer s = (case s of (g, w) \<Rightarrow>
     (g, if answer = 0 then w else w\<lparr> p_live := insert answer (p_live w) \<rparr>))"

text \<open>realloc of NULL allocates; of a block that is not live it is undefined; when it fails the block stays.\<close>

definition libc_realloc :: "int \<Rightarrow> int \<Rightarrow> 'g \<times> process \<Rightarrow> ('g \<times> process) option" where
  "libc_realloc p answer s = (case s of (g, w) \<Rightarrow>
     if p \<noteq> 0 \<and> p \<notin> p_live w then None
     else Some (g, if answer = 0 then w else w\<lparr> p_live := insert answer (p_live w - {p}) \<rparr>))"

section \<open>The allocators\<close>

text \<open>The end that the four allocators share: \<open>if(data == NULL) syserr(...); return data;\<close>\<close>

definition or_syserr :: "int \<Rightarrow> 'g \<times> process \<Rightarrow> 'g allocation" where
  "or_syserr data s = Some (if data = 0 then Exits (-1) s else Returns (data, s))"

definition AllocateMemoryBlock :: "(int \<Rightarrow> 'g step) \<Rightarrow> int \<Rightarrow> int \<Rightarrow> 'g \<times> process \<Rightarrow> 'g allocation" where
  "AllocateMemoryBlock on_alloc answer nbytes s =
     (if nbytes < 0 then Some (Exits (-1) s)
      else gc_bind (on_alloc answer (libc_alloc answer s)) (or_syserr answer))"

definition ReallocateMemoryBlock ::
  "(int \<Rightarrow> 'g step) \<Rightarrow> (int \<Rightarrow> 'g step) \<Rightarrow> int \<Rightarrow> int \<Rightarrow> int \<Rightarrow> 'g \<times> process \<Rightarrow> 'g allocation" where
  "ReallocateMemoryBlock on_alloc on_free answer p nbytes s =
     (if p = 0 then AllocateMemoryBlock on_alloc answer nbytes s
      else if nbytes < 0 then Some (Exits (-1) s)
      else do {
        s \<leftarrow> libc_realloc p answer s;
        gc_bind (on_free p s) (\<lambda>s. gc_bind (on_alloc answer s) (or_syserr answer)) })"

definition AllocateMemoryBlockArray ::
  "(int \<Rightarrow> 'g step) \<Rightarrow> int \<Rightarrow> int \<Rightarrow> int \<Rightarrow> 'g \<times> process \<Rightarrow> 'g allocation" where
  "AllocateMemoryBlockArray on_alloc answer count nbytes s =
     (if nbytes < 0 then Some (Exits (-1) s)
      else if count < 0 then Some (Exits (-1) s)
      else gc_bind (on_alloc answer (libc_alloc answer s)) (or_syserr answer))"

definition ReallocateMemoryBlockArray ::
  "(int \<Rightarrow> 'g step) \<Rightarrow> (int \<Rightarrow> 'g step) \<Rightarrow> int \<Rightarrow> int \<Rightarrow> int \<Rightarrow> int \<Rightarrow> 'g \<times> process \<Rightarrow> 'g allocation" where
  "ReallocateMemoryBlockArray on_alloc on_free answer p count nbytes s =
     (if nbytes < 0 then Some (Exits (-1) s)
      else if count < 0 then Some (Exits (-1) s)
      else do {
        total \<leftarrow> cint (count * nbytes);
        s \<leftarrow> libc_realloc p answer s;
        gc_bind (on_free p s) (\<lambda>s. gc_bind (on_alloc answer s) (or_syserr answer)) })"

definition FreePtr :: "(int \<Rightarrow> 'g step) \<Rightarrow> int \<Rightarrow> 'g step" where
  "FreePtr on_free p s =
     (if p \<noteq> 0
      then gc_bind (on_free p s) (\<lambda>(g, w). map_option (\<lambda>w. Returns (g, w)) (libc_free (Some p) w))
      else Some (Returns s))"

section \<open>A program that allocates\<close>

text \<open>
  The calls a program makes: the allocators with the answers they get, and the registration of
  custom destructors.
\<close>

datatype mem_op = Alloc int int | AllocArray int int int | Realloc int int int
  | ReallocArray int int int int | Free int

definition discard :: "'g allocation \<Rightarrow> ('g \<times> process, 'g \<times> process) gc_end option" where
  "discard r = gc_bind r (\<lambda>(p, s). Some (Returns s))"

definition mem_step :: "(int \<Rightarrow> 'g step) \<Rightarrow> (int \<Rightarrow> 'g step) \<Rightarrow> mem_op \<Rightarrow> 'g step" where
  "mem_step on_alloc on_free c s = (case c of
     Alloc answer nbytes \<Rightarrow> discard (AllocateMemoryBlock on_alloc answer nbytes s)
   | AllocArray answer count nbytes \<Rightarrow> discard (AllocateMemoryBlockArray on_alloc answer count nbytes s)
   | Realloc answer p nbytes \<Rightarrow> discard (ReallocateMemoryBlock on_alloc on_free answer p nbytes s)
   | ReallocArray answer p count nbytes \<Rightarrow> discard (ReallocateMemoryBlockArray on_alloc on_free answer p count nbytes s)
   | Free p \<Rightarrow> FreePtr on_free p s)"

text \<open>
  What the program and the C library owe: sizes and counts are not negative and their product is an
  \<open>int\<close>, the library gives out blocks that are not in use, and only blocks in use are freed or
  reallocated. \<open>blocks\<close> is the list of blocks in use afterwards.
\<close>

definition fresh :: "int \<Rightarrow> int list \<Rightarrow> bool" where
  "fresh answer ps \<longleftrightarrow> hashable answer \<and> answer \<notin> set ps"

definition without :: "int \<Rightarrow> int list \<Rightarrow> int list" where
  "without p ps = filter (\<lambda>q. q \<noteq> p) ps"

fun fair :: "mem_op \<Rightarrow> int list \<Rightarrow> bool" where
  "fair (Alloc answer nbytes) ps = (0 \<le> nbytes \<and> fresh answer ps)"
| "fair (AllocArray answer count nbytes) ps = (0 \<le> count \<and> 0 \<le> nbytes \<and> fresh answer ps)"
| "fair (Realloc answer p nbytes) ps = (0 \<le> nbytes \<and> (p = 0 \<or> p \<in> set ps) \<and> fresh answer (without p ps))"
| "fair (ReallocArray answer p count nbytes) ps = (0 \<le> count \<and> 0 \<le> nbytes \<and> in_int (count * nbytes) \<and>
     (p = 0 \<or> p \<in> set ps) \<and> fresh answer (without p ps))"
| "fair (Free p) ps = (p = 0 \<or> p \<in> set ps)"

fun blocks :: "mem_op \<Rightarrow> int list \<Rightarrow> int list" where
  "blocks (Alloc answer nbytes) ps = ps @ [answer]"
| "blocks (AllocArray answer count nbytes) ps = ps @ [answer]"
| "blocks (Realloc answer p nbytes) ps = without p ps @ [answer]"
| "blocks (ReallocArray answer p count nbytes) ps = without p ps @ [answer]"
| "blocks (Free p) ps = without p ps"

text \<open>What the allocators rely on: the collector follows the blocks in use.\<close>

locale collector =
  fixes on_alloc :: "int \<Rightarrow> 'g step" and on_free :: "int \<Rightarrow> 'g step"
    and tracks :: "nat \<Rightarrow> 'g \<Rightarrow> int list \<Rightarrow> bool"
  assumes alloc_law: "tracks N g ps \<Longrightarrow> N + 47 \<le> 2 ^ 24 \<Longrightarrow> p = 0 \<or> hashable p \<and> p \<notin> set ps \<Longrightarrow>
      \<exists>g'. on_alloc p (g, w) = Some (Returns (g', w)) \<and> tracks (N + 17) g' (if p = 0 then ps else ps @ [p])"
    and free_law: "tracks N g ps \<Longrightarrow> N + 47 \<le> 2 ^ 24 \<Longrightarrow> p = 0 \<or> hashable p \<Longrightarrow>
      \<exists>g'. on_free p (g, w) = Some (Returns (g', w)) \<and> tracks (N + 17) g' (if p = 0 then ps else without p ps)"
    and mono_law: "tracks N g ps \<Longrightarrow> N \<le> M \<Longrightarrow> tracks M g ps"
begin

definition holds :: "nat \<Rightarrow> int list \<Rightarrow> 'g \<times> process \<Rightarrow> bool" where
  "holds N ps s \<longleftrightarrow> tracks N (fst s) ps \<and> p_live (snd s) = set ps \<and> (\<forall>p \<in> set ps. hashable p)"

text \<open>The process is left alone apart from its live blocks.\<close>

definition same_rest :: "'g \<times> process \<Rightarrow> 'g \<times> process \<Rightarrow> bool" where
  "same_rest s t \<longleftrightarrow> p_closed (snd t) = p_closed (snd s) \<and> p_waits (snd t) = p_waits (snd s)"

lemma without_0: "\<forall>p \<in> set ps. hashable p \<Longrightarrow> without 0 ps = ps"
  unfolding without_def by (rule filter_True) (auto simp: hashable_def)

lemma allocation_ok:
  assumes "holds N ps s" "N + 47 \<le> 2 ^ 24" "fresh answer ps"
  shows "\<exists>t. gc_bind (on_alloc answer (libc_alloc answer s)) (or_syserr answer) = Some (Returns (answer, t)) \<and>
    holds (N + 17) (ps @ [answer]) t \<and> same_rest s t"
proof -
  obtain g w where s: "s = (g, w)" by force
  let ?w = "w\<lparr> p_live := insert answer (p_live w) \<rparr>"
  have a: "answer \<noteq> 0" "hashable answer" "answer \<notin> set ps" using assms(3) by (auto simp: fresh_def hashable_def)
  from alloc_law [of N g ps answer ?w] assms(1,2) a s obtain g' where
    "on_alloc answer (g, ?w) = Some (Returns (g', ?w))" "tracks (N + 17) g' (ps @ [answer])"
    by (auto simp: holds_def)
  with assms(1) a s show ?thesis
    by (intro exI [of _ "(g', ?w)"]) (auto simp: libc_alloc_def or_syserr_def holds_def same_rest_def)
qed

lemma reallocation_ok:
  assumes "holds N ps s" "N + 64 \<le> 2 ^ 24" "p = 0 \<or> p \<in> set ps" "fresh answer (without p ps)"
  shows "\<exists>t. do { s \<leftarrow> libc_realloc p answer s;
      gc_bind (on_free p s) (\<lambda>s. gc_bind (on_alloc answer s) (or_syserr answer)) } = Some (Returns (answer, t)) \<and>
    holds (N + 34) (without p ps @ [answer]) t \<and> same_rest s t"
proof -
  obtain g w where s: "s = (g, w)" by force
  let ?w = "w\<lparr> p_live := insert answer (p_live w - {p}) \<rparr>"
  have h: "\<forall>q \<in> set ps. hashable q" using assms(1) by (simp add: holds_def)
  have a: "answer \<noteq> 0" "hashable answer" "answer \<notin> set (without p ps)"
    using assms(4) by (auto simp: fresh_def hashable_def)
  have w: "(if p = 0 then ps else without p ps) = without p ps" using without_0 [OF h] by simp
  from free_law [of N g ps p ?w] assms(1,2,3) h s obtain g1 where
    g1: "on_free p (g, ?w) = Some (Returns (g1, ?w))" "tracks (N + 17) g1 (without p ps)"
    unfolding w by (auto simp: holds_def)
  have e: "N + 17 + 17 = N + 34" by simp
  from alloc_law [OF g1(2), of answer ?w, unfolded e] assms(2) a obtain g2 where
    g2: "on_alloc answer (g1, ?w) = Some (Returns (g2, ?w))" "tracks (N + 34) g2 (without p ps @ [answer])"
    by auto
  have "0 \<notin> set ps" using h by (auto simp: hashable_def)
  with assms(1,3) a s g1(1) g2 show ?thesis
    by (intro exI [of _ "(g2, ?w)"])
       (auto simp: libc_realloc_def or_syserr_def holds_def same_rest_def without_def)
qed

lemma free_ok:
  assumes "holds N ps s" "N + 47 \<le> 2 ^ 24" "p = 0 \<or> p \<in> set ps"
  shows "\<exists>t. FreePtr on_free p s = Some (Returns t) \<and> holds (N + 17) (without p ps) t \<and> same_rest s t"
proof -
  obtain g w where s: "s = (g, w)" by force
  have h: "\<forall>q \<in> set ps. hashable q" using assms(1) by (simp add: holds_def)
  show ?thesis
  proof (cases "p = 0")
    case True
    with without_0 [OF h] mono_law assms(1) s show ?thesis by (auto simp: FreePtr_def holds_def same_rest_def)
  next
    case False
    with assms(3) h have p: "p \<in> set ps" "hashable p" by auto
    from free_law [of N g ps p w] assms(1,2) False p s obtain g' where
      g': "on_free p (g, w) = Some (Returns (g', w))" "tracks (N + 17) g' (without p ps)" by (auto simp: holds_def)
    with assms(1) p False s show ?thesis
      by (auto simp: FreePtr_def libc_free_def holds_def same_rest_def without_def)
  qed
qed

lemma holds_mono: "holds N ps s \<Longrightarrow> N \<le> M \<Longrightarrow> holds M ps s"
  using mono_law by (auto simp: holds_def)

text \<open>Every call of the program succeeds and keeps the collector in step with the blocks in use.\<close>

lemma step_ok:
  assumes "holds N ps s" "N + 64 \<le> 2 ^ 24" "fair c ps"
  shows "\<exists>t. mem_step on_alloc on_free c s = Some (Returns t) \<and> holds (N + 34) (blocks c ps) t \<and> same_rest s t"
proof -
  have N: "N + 47 \<le> 2 ^ 24" using assms(2) by simp
  note grow = holds_mono [of "N + 17" _ _ "N + 34"]
  show ?thesis
  proof (cases c)
    case (Alloc answer nbytes)
    with allocation_ok [OF assms(1) N] assms(3) grow show ?thesis
      by (fastforce simp: mem_step_def AllocateMemoryBlock_def discard_def)
  next
    case (AllocArray answer count nbytes)
    with allocation_ok [OF assms(1) N] assms(3) grow show ?thesis
      by (fastforce simp: mem_step_def AllocateMemoryBlockArray_def discard_def)
  next
    case (Realloc answer p nbytes)
    show ?thesis
    proof (cases "p = 0")
      case True
      have "without 0 ps = ps" using assms(1) by (intro without_0) (simp add: holds_def)
      with allocation_ok [OF assms(1) N] assms(3) grow Realloc True show ?thesis
        by (fastforce simp: mem_step_def ReallocateMemoryBlock_def AllocateMemoryBlock_def discard_def)
    next
      case False
      with reallocation_ok [OF assms(1,2), of p answer] assms(3) Realloc show ?thesis
        by (auto simp: mem_step_def ReallocateMemoryBlock_def discard_def)
    qed
  next
    case (ReallocArray answer p count nbytes)
    with reallocation_ok [OF assms(1,2), of p answer] assms(3) show ?thesis
      by (auto simp: mem_step_def ReallocateMemoryBlockArray_def discard_def)
  next
    case (Free p)
    with free_ok [OF assms(1) N, of p] assms(3) grow show ?thesis by (fastforce simp: mem_step_def)
  qed
qed

end

text \<open>
  The calls that end the process: a negative size, or nothing from the C library. \<open>still\<close> is what
  the collector then remembers; a block whose reallocation failed is no longer among it.
\<close>

fun fails :: "mem_op \<Rightarrow> int list \<Rightarrow> bool" where
  "fails (Alloc answer nbytes) ps = (nbytes < 0 \<or> answer = 0)"
| "fails (AllocArray answer count nbytes) ps = (nbytes < 0 \<or> count < 0 \<or> answer = 0)"
| "fails (Realloc answer p nbytes) ps = ((p = 0 \<or> p \<in> set ps) \<and> (nbytes < 0 \<or> 0 < nbytes \<and> answer = 0))"
| "fails (ReallocArray answer p count nbytes) ps = ((p = 0 \<or> p \<in> set ps) \<and>
     (nbytes < 0 \<or> count < 0 \<or> 0 < count * nbytes \<and> in_int (count * nbytes) \<and> answer = 0))"
| "fails (Free p) ps = False"

fun still :: "mem_op \<Rightarrow> int list \<Rightarrow> int list" where
  "still (Realloc answer p nbytes) ps = (if nbytes < 0 then ps else without p ps)"
| "still (ReallocArray answer p count nbytes) ps = (if nbytes < 0 \<or> count < 0 then ps else without p ps)"
| "still c ps = ps"

context collector
begin

definition remembers :: "nat \<Rightarrow> int list \<Rightarrow> int list \<Rightarrow> 'g \<times> process \<Rightarrow> bool" where
  "remembers N qs ps s \<longleftrightarrow> tracks N (fst s) qs \<and> set qs \<subseteq> set ps \<and> p_live (snd s) = set ps"

lemma holds_remembers: "holds N ps s \<Longrightarrow> N \<le> M \<Longrightarrow> remembers M ps ps s"
  using mono_law by (auto simp: holds_def remembers_def)

lemma no_block:
  assumes "holds N ps s" "N + 64 \<le> 2 ^ 24"
  shows "\<exists>t. gc_bind (on_alloc 0 (libc_alloc 0 s)) (or_syserr 0) = Some (Exits (-1) t) \<and>
    remembers (N + 34) ps ps t \<and> same_rest s t"
proof -
  obtain g w where s: "s = (g, w)" by force
  from alloc_law [of N g ps 0 w] assms s obtain g' where
    "on_alloc 0 (g, w) = Some (Returns (g', w))" "tracks (N + 17) g' ps" by (auto simp: holds_def)
  with assms(1) s mono_law [of "N + 17" g' ps "N + 34"] show ?thesis
    by (intro exI [of _ "(g', w)"]) (auto simp: libc_alloc_def or_syserr_def holds_def remembers_def same_rest_def)
qed

lemma no_new_block:
  assumes "holds N ps s" "N + 64 \<le> 2 ^ 24" "p = 0 \<or> p \<in> set ps"
  shows "\<exists>t. do { s \<leftarrow> libc_realloc p 0 s;
      gc_bind (on_free p s) (\<lambda>s. gc_bind (on_alloc 0 s) (or_syserr 0)) } = Some (Exits (-1) t) \<and>
    remembers (N + 34) (without p ps) ps t \<and> same_rest s t"
proof -
  obtain g w where s: "s = (g, w)" by force
  have h: "\<forall>q \<in> set ps. hashable q" using assms(1) by (simp add: holds_def)
  have w: "(if p = 0 then ps else without p ps) = without p ps" using without_0 [OF h] by simp
  from free_law [of N g ps p w] assms h s obtain g1 where
    g1: "on_free p (g, w) = Some (Returns (g1, w))" "tracks (N + 17) g1 (without p ps)"
    unfolding w by (auto simp: holds_def)
  have e: "N + 17 + 17 = N + 34" by simp
  from alloc_law [OF g1(2), of 0 w, unfolded e] assms(2) obtain g2 where
    g2: "on_alloc 0 (g1, w) = Some (Returns (g2, w))" "tracks (N + 34) g2 (without p ps)" by auto
  with assms(1,3) s g1(1) show ?thesis
    by (intro exI [of _ "(g2, w)"])
       (auto simp: libc_realloc_def or_syserr_def holds_def remembers_def same_rest_def without_def)
qed

lemma fail_ok:
  assumes "holds N ps s" "N + 64 \<le> 2 ^ 24" "fails c ps"
  shows "\<exists>t. mem_step on_alloc on_free c s = Some (Exits (-1) t) \<and> remembers (N + 34) (still c ps) ps t \<and> same_rest s t"
proof -
  obtain g w where s: "s = (g, w)" by force
  have same: "remembers (N + 34) ps ps s" "same_rest s s"
    using holds_remembers [OF assms(1)] by (simp_all add: same_rest_def)
  note none = no_block [OF assms(1,2)] no_new_block [OF assms(1,2)]
  show ?thesis
  proof (cases c)
    case (Alloc answer nbytes)
    with s same none(1) assms(3) show ?thesis
      by (cases "nbytes < 0") (auto simp: mem_step_def AllocateMemoryBlock_def discard_def)
  next
    case (AllocArray answer count nbytes)
    with s same none(1) assms(3) show ?thesis
      by (cases "nbytes < 0 \<or> count < 0") (auto simp: mem_step_def AllocateMemoryBlockArray_def discard_def)
  next
    case (Realloc answer p nbytes)
    have "without 0 ps = ps" using assms(1) by (intro without_0) (simp add: holds_def)
    with s same none(1) none(2) [of p] assms(3) Realloc show ?thesis
      by (cases "nbytes < 0"; cases "p = 0")
         (auto simp: mem_step_def ReallocateMemoryBlock_def AllocateMemoryBlock_def discard_def)
  next
    case (ReallocArray answer p count nbytes)
    with s same none(2) [of p] assms(3) show ?thesis
      by (cases "nbytes < 0 \<or> count < 0") (auto simp: mem_step_def ReallocateMemoryBlockArray_def discard_def)
  qed (use assms(3) in simp)
qed

end

text \<open>With ENABLE_GC.\<close>

interpretation gc: collector GC_ON_ALLOC GC_ON_FREE "\<lambda>N g ps. gc_rep N g ps hs" for hs
proof unfold_locales
  fix N g ps p w assume "gc_rep N g ps hs" "N + 47 \<le> 2 ^ 24" "p = 0 \<or> hashable p \<and> p \<notin> set ps"
  then show "\<exists>g'. GC_ON_ALLOC p (g, w) = Some (Returns (g', w)) \<and> gc_rep (N + 17) g' (if p = 0 then ps else ps @ [p]) hs"
    by (rule GC_ON_ALLOC_ok)
next
  fix N g ps p w assume "gc_rep N g ps hs" "N + 47 \<le> 2 ^ 24" "p = 0 \<or> hashable p"
  then show "\<exists>g'. GC_ON_FREE p (g, w) = Some (Returns (g', w)) \<and> gc_rep (N + 17) g' (if p = 0 then ps else without p ps) hs"
    unfolding without_def by (rule GC_ON_FREE_ok)
next
  fix N M g ps assume "gc_rep N g ps hs" "N \<le> M"
  then show "gc_rep M g ps hs"
    using mem_rep_mono handlers_rep_mono by (fastforce simp: gc_rep_def split: option.splits)
qed

text \<open>Without it the macros are empty, and nothing follows the blocks.\<close>

definition no_gc :: "int \<Rightarrow> unit step" where
  "no_gc p s = Some (Returns s)"

interpretation no_gc: collector no_gc no_gc "\<lambda>N g ps. True"
  by unfold_locales (simp_all add: no_gc_def)

section \<open>A run of a program\<close>

text \<open>The program also registers and unregisters what msg_pipe.h and msg_queue.h open.\<close>

datatype prog_op = Mem mem_op | Register int int destructor | Unregister int int

fun prog_step :: "prog_op \<Rightarrow> gc_step" where
  "prog_step (Mem c) s = mem_step GC_ON_ALLOC GC_ON_FREE c s"
| "prog_step (Register ty p d) s = GC_N ty p d s"
| "prog_step (Unregister ty p) s = GC_D ty p s"

fun prog_run :: "prog_op list \<Rightarrow> gc_step" where
  "prog_run [] s = Some (Returns s)"
| "prog_run (c # cs) s = gc_bind (prog_step c s) (prog_run cs)"

fun blocks_after :: "prog_op list \<Rightarrow> int list \<Rightarrow> int list" where
  "blocks_after [] ps = ps"
| "blocks_after (Mem c # cs) ps = blocks_after cs (blocks c ps)"
| "blocks_after (_ # cs) ps = blocks_after cs ps"

fun fair_run :: "prog_op list \<Rightarrow> int list \<Rightarrow> bool" where
  "fair_run [] ps = True"
| "fair_run (Mem c # cs) ps = (fair c ps \<and> fair_run cs (blocks c ps))"
| "fair_run (Register ty p d # cs) ps = (p \<noteq> 0 \<and> fair_run cs ps)"
| "fair_run (Unregister ty p # cs) ps = fair_run cs ps"

fun registered :: "prog_op list \<Rightarrow> handler list" where
  "registered [] = []"
| "registered (Register ty p d # cs) = (ty, p, d) # registered cs"
| "registered (_ # cs) = registered cs"

text \<open>The one handler in the slot of the collector, as exit calls it.\<close>

definition exit_call :: "unit \<Rightarrow> gc \<times> process \<Rightarrow> (gc \<times> process) option" where
  "exit_call h s = (case gc_exit_hook s of Some (Returns t) \<Rightarrow> Some t | _ \<Rightarrow> None)"

definition program_at_start :: "wait_answer list \<Rightarrow> process" where
  "program_at_start waits = \<lparr> p_live = {}, p_closed = [], p_waits = waits \<rparr>"

lemma holds_gc: "gc.holds hs N ps (g, w) \<longleftrightarrow> gc_rep N g ps hs \<and> p_live w = set ps \<and> (\<forall>p \<in> set ps. hashable p)"
  by (simp add: gc.holds_def)

lemma prog_run_ok:
  "gc.holds hs N ps s \<Longrightarrow> N + 34 * length cs + 30 \<le> 2 ^ 24 \<Longrightarrow> fair_run cs ps \<Longrightarrow>
   \<exists>t. prog_run cs s = Some (Returns t) \<and>
     gc.holds (hs @ registered cs) (N + 34 * length cs) (blocks_after cs ps) t \<and>
     p_closed (snd t) = p_closed (snd s) \<and> p_waits (snd t) = p_waits (snd s)"
proof (induction cs arbitrary: hs N ps s)
  case Nil
  then show ?case by simp
next
  case (Cons c cs)
  obtain g w where s: "s = (g, w)" by force
  have grow: "gc_rep N g' qs ks \<Longrightarrow> gc_rep (N + 34) g' qs ks" for g' qs ks
    by (rule gc.mono_law [where M = "N + 34"], assumption, rule le_add1)
  have "\<exists>t. prog_step c s = Some (Returns t) \<and>
      gc.holds (hs @ registered [c]) (N + 34) (blocks_after [c] ps) t \<and> fair_run cs (blocks_after [c] ps) \<and>
      p_closed (snd t) = p_closed (snd s) \<and> p_waits (snd t) = p_waits (snd s)"
  proof (cases c)
    case (Mem m)
    with gc.step_ok [OF Cons.prems(1), of m] Cons.prems(2,3) show ?thesis by (auto simp: gc.same_rest_def)
  next
    case (Register ty p d)
    with GC_N_ok [of N g ps hs p ty d w] Cons.prems(1,3) s show ?thesis
      by (auto simp: holds_gc dest: grow)
  next
    case (Unregister ty p)
    with GC_D_ok [of N g ps hs ty p w] Cons.prems(1,3) s show ?thesis
      by (auto simp: holds_gc dest: grow)
  qed
  then obtain t where t: "prog_step c s = Some (Returns t)"
    "gc.holds (hs @ registered [c]) (N + 34) (blocks_after [c] ps) t" "fair_run cs (blocks_after [c] ps)"
    "p_closed (snd t) = p_closed (snd s)" "p_waits (snd t) = p_waits (snd s)" by blast
  have N: "N + 34 + 34 * length cs = N + 34 * length (c # cs)" by simp
  have "registered (c # cs) = registered [c] @ registered cs"
    "blocks_after (c # cs) ps = blocks_after cs (blocks_after [c] ps)" by (cases c; simp)+
  with Cons.IH [OF t(2) _ t(3), unfolded N] Cons.prems(2) t(1,4,5) show ?case by simp
qed

lemma gc_start_holds:
  "\<exists>e g. gc_init 0 h no_handlers gc_at_start = Inr (e, g) \<and> handlers_are [] (Some h) e \<and> oe_hooked e \<and>
    oe_called_mode e = 0 \<and> gc.holds [] 1017 [] (g, program_at_start waits)"
proof -
  have "handlers_are [] None (no_handlers\<lparr> oe_setup_once := True, oe_hooked := True \<rparr>)"
    by (simp add: handlers_are_def no_handlers_def)
  from ExitHandlerOverrideGC_ok [OF this, of "\<lambda>_ u. Some u" "Some h" "()"] obtain e where
    "ExitHandlerOverrideGC (\<lambda>_ u. Some u) (Some h) (no_handlers\<lparr> oe_setup_once := True, oe_hooked := True \<rparr>) () = Some (e, ())"
    "handlers_are [] (Some h) e" "oe_hooked e" "oe_called_mode e = 0" by (auto simp: no_handlers_def)
  moreover have "gc_rep 1017 (gc_at_start\<lparr> gc_funct := True \<rparr>) [] []" by (simp add: gc_rep_def gc_at_start_def)
  ultimately show ?thesis
    by (intro exI [of _ e] exI [of _ "gc_at_start\<lparr> gc_funct := True \<rparr>"])
       (auto simp: gc_init_def ExitHandlerSetup_def no_handlers_def holds_gc program_at_start_def)
qed

lemma exit_hooks_gc:
  assumes "handlers_are [] (Some h) e" "oe_hooked e" "oe_called_mode e = 0"
    "gc_rep N g ps hs" "N + 47 \<le> 2 ^ 24" "set ps \<subseteq> p_live w" "processWaitForAll (p_waits w) = Some (st, waits)"
  shows "\<exists>e' g'. exit_hooks exit_call e (g, w) = Some (e', g', cleaned ps hs waits w)"
proof -
  from GC_FREE_ALL_ok [OF assms(4-7)] obtain g' where
    "GC_FREE_ALL (g, w) = Some (Returns (g', cleaned ps hs waits w))" by blast
  then have "exit_call h (g, w) = Some (g', cleaned ps hs waits w)" by (simp add: exit_call_def gc_exit_hook_def)
  moreover from ExitHandlerExec_ok [OF assms(1,3), of exit_call "(g, w)"] obtain e' where
    "ExitHandlerExec exit_call e (g, w) = map_option (Pair e') (call_all exit_call [h] (g, w))" by auto
  ultimately show ?thesis using assms(2) by (auto simp: exit_hooks_def)
qed



text \<open>
  C17: a call of an allocator with a negative size or count, or one for which the C library has no
  memory, ends the process with code -1 from a state that the exit hook cleans up: every block in use
  is freed once, except the block whose reallocation failed, which the collector has already forgotten.
\<close>

theorem failed_allocation_exits:
  assumes "fair_run cs []" "fails c (blocks_after cs [])" "34 * length cs + 1098 \<le> 2 ^ 24"
    "processWaitForAll waits = Some (st, rest)"
  shows "\<exists>e g s e' g'. gc_init 0 () no_handlers gc_at_start = Inr (e, g) \<and>
    prog_run (cs @ [Mem c]) (g, program_at_start waits) = Some (Exits (-1) s) \<and>
    exit_hooks exit_call e s =
      Some (e', g', \<lparr> p_live = set (blocks_after cs []) - set (still c (blocks_after cs [])),
        p_closed = closes (registered cs), p_waits = rest \<rparr>)"
proof -
  from gc_start_holds [of "()" waits] obtain e g where
    e: "gc_init 0 () no_handlers gc_at_start = Inr (e, g)" "handlers_are [] (Some ()) e" "oe_hooked e"
    "oe_called_mode e = 0" "gc.holds [] 1017 [] (g, program_at_start waits)" by blast
  from prog_run_ok [OF e(5) _ assms(1)] assms(3) obtain s1 where
    r: "prog_run cs (g, program_at_start waits) = Some (Returns s1)"
    "gc.holds (registered cs) (1017 + 34 * length cs) (blocks_after cs []) s1"
    "p_closed (snd s1) = []" "p_waits (snd s1) = waits" by (auto simp: program_at_start_def)
  let ?ps = "blocks_after cs []" and ?N = "1017 + 34 * length cs + 34"
  have "1017 + 34 * length cs + 64 \<le> 2 ^ 24" using assms(3) by simp
  from gc.fail_ok [OF r(2) this assms(2)] r(3,4) obtain g2 w2 where
    f: "mem_step GC_ON_ALLOC GC_ON_FREE c s1 = Some (Exits (-1) (g2, w2))"
    "gc_rep ?N g2 (still c ?ps) (registered cs)" "set (still c ?ps) \<subseteq> set ?ps" "p_live w2 = set ?ps"
    "p_closed w2 = []" "p_waits w2 = waits" by (auto simp: gc.remembers_def gc.same_rest_def)
  have run: "prog_run (xs @ ys) u = gc_bind (prog_run xs u) (prog_run ys)" for xs ys u
  proof (induction xs arbitrary: u)
    case (Cons x xs)
    then show ?case by (cases "prog_step x u" rule: option.exhaust, simp, case_tac x2, simp_all)
  qed simp
  have N: "?N + 47 \<le> 2 ^ 24" using assms(3) by simp
  from exit_hooks_gc [OF e(2-4) f(2) N, of w2] f(3,4,6) assms(4) obtain e' g' where
    x: "exit_hooks exit_call e (g2, w2) = Some (e', g', cleaned (still c ?ps) (registered cs) rest w2)" by auto
  have "cleaned (still c ?ps) (registered cs) rest w2 =
      \<lparr> p_live = set ?ps - set (still c ?ps), p_closed = closes (registered cs), p_waits = rest \<rparr>"
    using f(4,5) by (cases w2) (simp add: cleaned_def)
  with e(1) r(1) f(1) x run show ?thesis
    by (intro exI [of _ e] exI [of _ g] exI [of _ "(g2, w2)"] exI [of _ e'] exI [of _ g']) simp
qed

theorem failed_allocation_exits_witness:
  "\<exists>e g s e' g'. gc_init 0 () no_handlers gc_at_start = Inr (e, g) \<and>
    prog_run [Mem (Alloc 4096 24), Mem (Alloc 8192 24), Mem (ReallocArray 0 4096 1000 48)] (g, program_at_start [NoChildren]) =
      Some (Exits (-1) s) \<and>
    exit_hooks exit_call e s = Some (e', g', \<lparr> p_live = {4096}, p_closed = [], p_waits = [] \<rparr>)"
proof -
  have "in_int 4096" "in_int 8192" "in_int 48000" by (simp_all add: in_int_def)
  moreover have "{4096, 8192} - {8192} = {4096 :: int}" by auto
  ultimately show ?thesis
    using failed_allocation_exits [of "[Mem (Alloc 4096 24), Mem (Alloc 8192 24)]" "ReallocArray 0 4096 1000 48" "[NoChildren]" 1 "[]"]
    by (simp add: fresh_def hashable_def without_def processWaitForAll_def closes_def)
qed

text \<open>
  C36: a block whose address has a low half of absolute value 6135668 or more cannot be reported to the
  collector: the hash function multiplies that half by 350, and the product is not an \<open>int\<close>. An
  address of a usual heap is such a one.
\<close>

theorem allocation_overflows:
  assumes "gc_funct g" "gc_current_mode g" "0 \<le> nbytes" "6135668 \<le> \<bar>wrap32 answer\<bar>"
  shows "AllocateMemoryBlock GC_ON_ALLOC answer nbytes (g, w) = None"
proof -
  have "answer \<noteq> 0"
  proof
    assume "answer = 0"
    then show False using assms(4) by (simp add: in_int_def)
  qed
  then have "gc_allocated answer mem = None" for mem
    using HashMapCalcHash_overflow [OF assms(4)]
    by (simp add: gc_allocated_def as_ptr_def HashMapSet_def HashMapRemove_def)
  then have "GC_ON_ALLOC answer (g, v) = None" for v
    using gc_mem_tree_on [OF assms(1,2) _ refl]
    by (cases "first_maps g")
       (auto simp: GC_ON_ALLOC_def gc_mem_tree_proxy_def gc_mem_tree_def gc_defs first_maps_def Let_def assms
        split: option.splits)
  with assms(3) show ?thesis by (simp add: AllocateMemoryBlock_def libc_alloc_def)
qed

theorem allocation_overflows_witness:
  "AllocateMemoryBlock GC_ON_ALLOC 0x555555757260 24 (gc_at_start\<lparr> gc_funct := True \<rparr>, program_at_start []) = None"
proof -
  have "wrap32 0x555555757260 = 0x55757260" by (simp add: wrap32_def signed_take_bit_eq_take_bit_minus take_bit_eq_mod bit_iff_odd)
  then show ?thesis
    by (intro allocation_overflows) (simp_all add: gc_at_start_def)
qed

lemma free_dead: "p \<notin> p_live w \<Longrightarrow> libc_free (Some p) w = None"
  by (simp add: libc_free_def)

lemma destruct_live [simp]: "p_live (destruct d p w) = p_live w"
  by (cases d) (simp_all add: destructor_defs Let_def)

lemma call_destructor_live: "call_destructor g kv w = Some v \<Longrightarrow> p_live v = p_live w"
  unfolding call_destructor_def
  by (cases kv; cases "fst kv"; cases "snd kv"; cases "the (fst kv)") (auto simp: bind_eq_Some_conv)

lemma call_destructors_live: "call_destructors g kvs w = Some v \<Longrightarrow> p_live v = p_live w"
proof (induction kvs arbitrary: w)
  case (Cons kv kvs)
  then obtain u where "call_destructor g kv w = Some u" "call_destructors g kvs u = Some v"
    by (auto simp: bind_eq_Some_conv)
  with Cons.IH [of u] call_destructor_live show ?case by metis
qed simp

text \<open>
  C35: GC_FORK_FREE frees the blocks in use but, against its description, does not empty the maps: the
  next cleanup frees the same blocks again, which is undefined.
\<close>

theorem fork_free_frees_twice:
  assumes "gc_rep N g (p # ps) hs" "N + 64 \<le> 2 ^ 24" "set (p # ps) \<subseteq> p_live w"
    "processWaitForAll (p_waits w) = Some (st, waits)"
  shows "\<exists>s. GC_FORK_FREE (g, w) = Some (Returns s) \<and> p_live (snd s) = p_live w - set (p # ps) \<and> GC_FREE_ALL s = None"
proof -
  have N: "N + 47 \<le> 2 ^ 24" "N + 17 + 47 \<le> 2 ^ 24" using assms(2) by simp_all
  from GC_FORK_FREE_ok [OF assms(1) N(1) assms(3,4)] obtain g1 where
    g1: "GC_FORK_FREE (g, w) = Some (Returns (g1, cleaned (p # ps) hs (p_waits w) w))" "gc_rep (N + 17) g1 (p # ps) hs"
    by blast
  let ?w = "cleaned (p # ps) hs (p_waits w) w"
  from first_maps_ok [OF g1(2)] obtain mem handlers where
    f: "first_maps g1 = Some (mem, handlers)" "mem_rep (N + 17) mem (p # ps)" "handlers_rep (N + 17) handlers g1 hs" by blast
  have g: "gc_funct g1" "gc_current_mode g1" using g1(2) by (auto simp: gc_rep_def)
  let ?g = "g1\<lparr> gc_current_mode := False, gc_maps := Some (mem, handlers) \<rparr>"
  from cleanup_loops_ok [OF f(2) handlers_rep_off [OF f(3), where m = False and x = "Some (mem, handlers)"] N(2), of "?w\<lparr> p_live := set (p # ps) \<rparr>"]
  obtain kvs handlers' mem' where l: "loop_reading read_handler handlers = Some (kvs, handlers')"
    "LOOP_HASHMAP mem = Some (map Some (p # ps), mem')" by auto
  have dead: "libc_free (Some p) v = None" if "call_destructors ?g kvs ?w = Some v" for v
    using call_destructors_live [OF that] free_dead [of p v] by (simp add: cleaned_def)
  have "gc_cleanup 2 0 mem handlers ?g ?w = None"
    using l dead by (cases "call_destructors ?g kvs ?w") (simp_all add: gc_cleanup_def)
  then have "GC_FREE_ALL (g1, ?w) = None"
    unfolding GC_FREE_ALL_def gc_mem_tree_on [OF g f(1) refl] by simp
  with g1(1) show ?thesis by (intro exI [of _ "(g1, ?w)"]) (simp add: cleaned_def)
qed

theorem fork_free_frees_twice_witness:
  "\<exists>g s t. prog_run [Mem (Alloc 4096 24)] (gc_at_start\<lparr> gc_funct := True \<rparr>, program_at_start [NoChildren]) = Some (Returns g) \<and>
    GC_FORK_FREE g = Some (Returns s) \<and> p_live (snd s) = {} \<and> GC_FREE_ALL s = None"
proof -
  have "in_int 4096" by (simp add: in_int_def)
  then have fair: "fair_run [Mem (Alloc 4096 24)] []" by (simp add: fresh_def hashable_def)
  have "gc_rep 1017 (gc_at_start\<lparr> gc_funct := True \<rparr>) [] []" by (simp add: gc_rep_def gc_at_start_def)
  then have "gc.holds [] 1017 [] (gc_at_start\<lparr> gc_funct := True \<rparr>, program_at_start [NoChildren])"
    by (simp add: holds_gc program_at_start_def)
  from prog_run_ok [OF this _ fair] obtain g w where
    r: "prog_run [Mem (Alloc 4096 24)] (gc_at_start\<lparr> gc_funct := True \<rparr>, program_at_start [NoChildren]) = Some (Returns (g, w))"
    "gc_rep 1051 g [4096] []" "p_live w = {4096}" "p_waits w = [NoChildren]"
    by (auto simp: holds_gc program_at_start_def)
  from fork_free_frees_twice [OF r(2), of w 1 "[]"] r(3,4) obtain s where
    "GC_FORK_FREE (g, w) = Some (Returns s)" "p_live (snd s) = {}" "GC_FREE_ALL s = None"
    by (auto simp: processWaitForAll_def)
  with r(1) show ?thesis by blast
qed

end
