(* ===== verification/Autovalidator.thy ===== *)
theory Autovalidator
  imports Fork Getline CText
begin

text \<open>
  autovalidator.c: the program that starts a server and testers with their input and output
  redirected to files, waits for all of them and prints the files.

  Arguments of the definitions are what the kernel answers: the calls of fork (the first for the
  server, then one for each tester), the calls of a child (open, dup2, execlp), the calls of wait, and
  the files, a map from names to contents without null characters. The C library serves the
  allocations. A computation is \<open>None\<close> when it writes outside an array or a buffer.
\<close>

section \<open>The command line\<close>

definition MAX_TESTERS_PROCS :: nat where
  "MAX_TESTERS_PROCS = 100"

record av_args =
  av_verboseMode :: bool
  av_server_input :: "string option"
  av_server_output :: "string option"
  av_tester_input :: "string option list"
  av_tester_output :: "string option list"
  av_testers_count :: int

text \<open>The two arrays on the stack start with arbitrary pointers.\<close>

definition av_start :: "string option list \<Rightarrow> string option list \<Rightarrow> av_args" where
  "av_start ins outs = \<lparr> av_verboseMode = False, av_server_input = None, av_server_output = None,
     av_tester_input = ins, av_tester_output = outs, av_testers_count = -1 \<rparr>"

text \<open>The first loop assigns \<open>tester_input_file[MAX_TESTERS_PROCS]\<close> in each of its \<open>n\<close> rounds.\<close>

fun clear_inputs :: "nat \<Rightarrow> string option list \<Rightarrow> string option list option" where
  "clear_inputs 0 ins = Some ins"
| "clear_inputs (Suc n) ins =
     (if MAX_TESTERS_PROCS < length ins then clear_inputs n (ins[MAX_TESTERS_PROCS := None]) else None)"

definition tester_out :: "int \<Rightarrow> string" where
  "tester_out i = ''tester_out_'' @ show_int i @ ''.txt''"

definition read_arg :: "int \<Rightarrow> string \<Rightarrow> av_args \<Rightarrow> av_args option" where
  "read_arg i arg a =
     (if arg = ''-v'' then Some (a\<lparr> av_verboseMode := True \<rparr>)
      else if av_testers_count a = -1 then
        Some (a\<lparr> av_server_input := Some arg, av_server_output := Some ''server_out.txt'',
                av_testers_count := av_testers_count a + 1 \<rparr>)
      else if nat (av_testers_count a) < MAX_TESTERS_PROCS then
        Some (a\<lparr> av_tester_output := (av_tester_output a)[nat (av_testers_count a) := Some (tester_out i)],
                av_tester_input := (av_tester_input a)[nat (av_testers_count a) := Some arg],
                av_testers_count := av_testers_count a + 1 \<rparr>)
      else None)"

text \<open>\<open>argv\<close> from index \<open>i\<close> on.\<close>

fun read_args :: "int \<Rightarrow> string list \<Rightarrow> av_args \<Rightarrow> av_args option" where
  "read_args i [] a = Some a"
| "read_args i (arg # args) a = do { a \<leftarrow> read_arg i arg a; read_args (i + 1) args a }"

section \<open>The children\<close>

text \<open>The exit with -1 when the file was not opened or cannot be made the stream.\<close>

definition redirect :: "int \<Rightarrow> int \<Rightarrow> stop + unit" where
  "redirect dest dup2_result =
     (if dest = -1 then Inl (Exited (-1)) else if dup2_result = -1 then Inl (Exited (-1)) else Inr ())"

record child_calls =
  cc_input :: int
  cc_dup_input :: int
  cc_output :: int
  cc_dup_output :: int
  cc_exec :: bool

text \<open>What becomes of a child; \<open>None\<close> does not occur, the argument list ends with a null pointer.\<close>

definition av_child :: "bool \<Rightarrow> string \<Rightarrow> string \<Rightarrow> child_calls \<Rightarrow> outcome option" where
  "av_child verboseMode path name c = do {
     argv \<leftarrow> exec_argv name [if verboseMode then Some ''-v'' else None, None];
     Some (case and_then (redirect (cc_input c) (cc_dup_input c))
                  (\<lambda>_. redirect (cc_output c) (cc_dup_output c)) of
       Inr _ \<Rightarrow> if cc_exec c then Runs path argv else Ended (-1)
     | Inl (Exited code) \<Rightarrow> Ended code
     | Inl Undefined \<Rightarrow> Ended (-1)) }"

text \<open>
  One fork: the parent goes on with the id of the child, on an error it exits. Testers are started one
  after the other; the last result is the ids.
\<close>

definition av_fork :: "fork_answer \<Rightarrow> outcome option \<Rightarrow> (outcome + int) option" where
  "av_fork answer child = (case answer of
     ForkError \<Rightarrow> Some (Inl (Ended (-1)))
   | InChild \<Rightarrow> map_option Inl child
   | InParent pid \<Rightarrow> Some (Inr pid))"

fun start_testers :: "bool \<Rightarrow> child_calls \<Rightarrow> nat \<Rightarrow> fork_answer list \<Rightarrow> (outcome + int list) option" where
  "start_testers verboseMode c 0 answers = Some (Inr [])"
| "start_testers verboseMode c (Suc n) [] = None"
| "start_testers verboseMode c (Suc n) (answer # answers) = do {
     r \<leftarrow> av_fork answer (av_child verboseMode ''./tester'' ''tester'' c);
     case r of Inl out \<Rightarrow> Some (Inl out)
     | Inr pid \<Rightarrow> do {
         r \<leftarrow> start_testers verboseMode c n answers;
         Some (case r of Inl out \<Rightarrow> Inl out | Inr pids \<Rightarrow> Inr (pid # pids)) } }"

text \<open>
  A file is opened for the output of a child without O_TRUNC: the new text replaces the start of the
  old one.
\<close>

definition overwritten :: "string option \<Rightarrow> string \<Rightarrow> string" where
  "overwritten old new = new @ (case old of None \<Rightarrow> '''' | Some s \<Rightarrow> drop (length new) s)"

section \<open>Waiting\<close>

text \<open>The loop ends with the error ECHILD only; \<open>None\<close> as long as it waits.\<close>

fun av_wait :: "wait_answer list \<Rightarrow> wait_answer list option" where
  "av_wait [] = None"
| "av_wait (w # ws) = (if w = NoChildren then Some ws else av_wait ws)"

section \<open>Printing a file\<close>

definition AV_FILE_BUF_SIZE :: nat where
  "AV_FILE_BUF_SIZE = 10007"

text \<open>The text for standard output, or the exit with -1. \<open>broken\<close> says that reading fails at the end.\<close>

definition printFile :: "string \<Rightarrow> string option \<Rightarrow> bool \<Rightarrow> (stop + string) option" where
  "printFile header file broken = (case file of
     None \<Rightarrow> Some (Inl (Exited (-1)))
   | Some text \<Rightarrow> do {
       (content, input) \<leftarrow> read_content AV_FILE_BUF_SIZE 1 '''' \<lparr> f_rest = text, f_eof = False, f_error = False \<rparr>;
       Some (if broken then Inl (Exited (-1))
             else Inr (''[ '' @ header @ '' ]:'' @ [NEWLINE] @ content @ [NEWLINE])) })"

fun print_files :: "(string \<Rightarrow> string option) \<Rightarrow> (string \<Rightarrow> bool) \<Rightarrow> string option list \<Rightarrow> (stop + string) option" where
  "print_files files broken [] = Some (Inr '''')"
| "print_files files broken (None # names) = None"
| "print_files files broken (Some name # names) = do {
     r \<leftarrow> printFile ''TESTER'' (files name) (broken name);
     case r of Inl e \<Rightarrow> Some (Inl e)
     | Inr out \<Rightarrow> do {
         r \<leftarrow> print_files files broken names;
         Some (case r of Inl e \<Rightarrow> Inl e | Inr outs \<Rightarrow> Inr (out @ outs)) } }"

section \<open>The program\<close>

datatype av_end = AvReturns int string | AvBecomes outcome | AvWaiting | AvExits int

record av_calls =
  ac_forks :: "fork_answer list"
  ac_child :: child_calls
  ac_waits :: "wait_answer list"
  ac_files :: "string \<Rightarrow> string option"
  ac_broken :: "string \<Rightarrow> bool"

definition av_usage :: string where
  "av_usage = ''Usage:'' @ [NEWLINE] @ ''   autovalidator <validator file> [<tester_files>...]'' @ [NEWLINE]"

definition av_banner :: string where
  "av_banner = CHR 0x1B # ''[0m'' @ ''Program terminated.'' @ [NEWLINE] @ ''The generated output:'' @ [NEWLINE]"

text \<open>Behind the wait loop.\<close>

definition av_report :: "av_args \<Rightarrow> (string \<Rightarrow> string option) \<Rightarrow> (string \<Rightarrow> bool) \<Rightarrow> av_end option" where
  "av_report a files broken = do {
     server_out \<leftarrow> av_server_output a;
     r \<leftarrow> printFile ''SERVER'' (files server_out) (broken server_out);
     case r of Inl e \<Rightarrow> Some (AvExits (-1))
     | Inr out \<Rightarrow> do {
         r \<leftarrow> print_files files broken (take (nat (av_testers_count a)) (av_tester_output a));
         Some (case r of Inl e \<Rightarrow> AvExits (-1) | Inr outs \<Rightarrow> AvReturns 0 (av_banner @ out @ outs)) } }"

text \<open>main behind its first loop.\<close>

definition av_rest :: "string list \<Rightarrow> av_args \<Rightarrow> av_calls \<Rightarrow> av_end option" where
  "av_rest args a k = do {
     a \<leftarrow> read_args 1 args a;
     if av_testers_count a < 0 \<or> av_server_input a = None then Some (AvReturns 0 av_usage)
     else case ac_forks k of
       [] \<Rightarrow> None
     | answer # answers \<Rightarrow> do {
         r \<leftarrow> av_fork answer (av_child (av_verboseMode a) ''./validator'' ''validator'' (ac_child k));
         case r of Inl out \<Rightarrow> Some (AvBecomes out)
         | Inr server_pid \<Rightarrow> do {
             r \<leftarrow> start_testers (av_verboseMode a) (ac_child k) (nat (av_testers_count a)) answers;
             case r of Inl out \<Rightarrow> Some (AvBecomes out)
             | Inr tester_pids \<Rightarrow>
                 (case av_wait (ac_waits k) of None \<Rightarrow> Some AvWaiting
                  | Some _ \<Rightarrow> av_report a (ac_files k) (ac_broken k)) } } }"

definition av_main :: "string list \<Rightarrow> string option list \<Rightarrow> string option list \<Rightarrow> av_calls \<Rightarrow> av_end option" where
  "av_main args ins outs k = do {
     ins \<leftarrow> clear_inputs MAX_TESTERS_PROCS ins;
     av_rest args (av_start ins outs) k }"

section \<open>Printing\<close>

lemma printFile_ok:
  "printFile header (Some text) False = Some (Inr (''[ '' @ header @ '' ]:'' @ [NEWLINE] @ text @ [NEWLINE]))"
  using read_content_all [of AV_FILE_BUF_SIZE "''''" 1 "\<lparr> f_rest = text, f_eof = False, f_error = False \<rparr>"]
  by (auto simp: printFile_def AV_FILE_BUF_SIZE_def)

section \<open>Reading the command line\<close>

text \<open>What is not the flag: the validator file, then the tester files with their indices.\<close>

definition is_file :: "string \<Rightarrow> bool" where
  "is_file arg \<longleftrightarrow> arg \<noteq> ''-v''"

text \<open>The state of the loop when the server file and the testers \<open>ts\<close> have been read.\<close>

definition args_are :: "bool \<Rightarrow> string option \<Rightarrow> (int \<times> string) list \<Rightarrow> av_args \<Rightarrow> bool" where
  "args_are v server ts a \<longleftrightarrow> av_verboseMode a = v \<and> av_server_input a = server \<and>
     av_testers_count a = (case server of None \<Rightarrow> -1 | Some _ \<Rightarrow> int (length ts)) \<and>
     (server \<noteq> None \<longrightarrow> av_server_output a = Some ''server_out.txt'') \<and> (server = None \<longrightarrow> ts = []) \<and>
     length ts \<le> MAX_TESTERS_PROCS \<and>
     length (av_tester_output a) = MAX_TESTERS_PROCS \<and> length (av_tester_input a) = MAX_TESTERS_PROCS \<and>
     take (length ts) (av_tester_output a) = map (\<lambda>(i, t). Some (tester_out i)) ts \<and>
     take (length ts) (av_tester_input a) = map (\<lambda>(i, t). Some t) ts"

text \<open>The files among the arguments with their indices, from \<open>i\<close> on.\<close>

fun files_of :: "int \<Rightarrow> string list \<Rightarrow> (int \<times> string) list" where
  "files_of i [] = []"
| "files_of i (arg # args) = (if is_file arg then (i, arg) # files_of (i + 1) args else files_of (i + 1) args)"

lemma take_next:
  "take n xs = ys \<Longrightarrow> n < length xs \<Longrightarrow> take (Suc n) (xs[n := y]) = ys @ [y]"
  by (simp add: take_Suc_conv_app_nth)

lemma read_arg_tester:
  assumes "args_are v (Some s) ts a" "is_file arg" "length ts < MAX_TESTERS_PROCS"
  shows "\<exists>a'. read_arg i arg a = Some a' \<and> args_are v (Some s) (ts @ [(i, arg)]) a'"
  using assms take_next [of "length ts" "av_tester_output a" _ "Some (tester_out i)"]
    take_next [of "length ts" "av_tester_input a" _ "Some arg"]
  by (simp add: read_arg_def args_are_def is_file_def)

lemma read_args_testers:
  "args_are v (Some s) ts a \<Longrightarrow> length ts + length (files_of i args) \<le> MAX_TESTERS_PROCS \<Longrightarrow>
   \<exists>a'. read_args i args a = Some a' \<and>
     args_are (v \<or> ''-v'' \<in> set args) (Some s) (ts @ files_of i args) a'"
proof (induction args arbitrary: i v ts a)
  case (Cons arg args)
  show ?case
  proof (cases "is_file arg")
    case True
    with read_arg_tester [OF Cons.prems(1) True, of i] Cons.prems(2) obtain a1 where
      a1: "read_arg i arg a = Some a1" "args_are v (Some s) (ts @ [(i, arg)]) a1" by auto
    with Cons.IH [OF a1(2), of "i + 1"] Cons.prems(2) True show ?thesis by (auto simp: is_file_def)
  next
    case False
    then have v: "arg = ''-v''" by (simp add: is_file_def)
    have "args_are True (Some s) ts (a\<lparr> av_verboseMode := True \<rparr>)" using Cons.prems(1) by (simp add: args_are_def)
    from Cons.IH [OF this, of "i + 1"] Cons.prems(2) v show ?thesis by (auto simp: read_arg_def is_file_def)
  qed
qed simp

lemma read_args_overflow:
  "args_are v (Some s) ts a \<Longrightarrow> MAX_TESTERS_PROCS < length ts + length (files_of i args) \<Longrightarrow> read_args i args a = None"
proof (induction args arbitrary: i v ts a)
  case Nil
  then show ?case by (simp add: args_are_def)
next
  case (Cons arg args)
  show ?case
  proof (cases "is_file arg")
    case True
    show ?thesis
    proof (cases "length ts < MAX_TESTERS_PROCS")
      case less: True
      with read_arg_tester [OF Cons.prems(1) True, of i] obtain a1 where
        a1: "read_arg i arg a = Some a1" "args_are v (Some s) (ts @ [(i, arg)]) a1" by auto
      with Cons.IH [OF a1(2), of "i + 1"] Cons.prems(2) True show ?thesis by simp
    next
      case False
      with Cons.prems(1) True show ?thesis by (simp add: read_arg_def args_are_def is_file_def)
    qed
  next
    case False
    then have v: "arg = ''-v''" by (simp add: is_file_def)
    have "args_are True (Some s) ts (a\<lparr> av_verboseMode := True \<rparr>)" using Cons.prems(1) by (simp add: args_are_def)
    from Cons.IH [OF this, of "i + 1"] Cons.prems(2) v show ?thesis by (simp add: read_arg_def is_file_def)
  qed
qed

text \<open>Flags in front of the server file.\<close>

lemma read_args_server:
  "args_are v None [] a \<Longrightarrow> files_of i args = (j, s) # ts \<Longrightarrow>
   (length ts \<le> MAX_TESTERS_PROCS \<longrightarrow> (\<exists>a'. read_args i args a = Some a' \<and>
      args_are (v \<or> ''-v'' \<in> set args) (Some s) ts a')) \<and>
   (MAX_TESTERS_PROCS < length ts \<longrightarrow> read_args i args a = None)"
proof (induction args arbitrary: i v a)
  case (Cons arg args)
  show ?case
  proof (cases "is_file arg")
    case True
    then have f: "s = arg" "ts = files_of (i + 1) args" using Cons.prems(2) by auto
    let ?a = "a\<lparr> av_server_input := Some arg, av_server_output := Some ''server_out.txt'',
                av_testers_count := av_testers_count a + 1 \<rparr>"
    have r: "read_arg i arg a = Some ?a" "args_are v (Some s) [] ?a"
      using Cons.prems(1) True f(1) by (auto simp: read_arg_def args_are_def is_file_def)
    with read_args_testers [OF r(2), of "i + 1" args] read_args_overflow [OF r(2), of "i + 1" args] f True
    show ?thesis by (auto simp: is_file_def)
  next
    case False
    then have v: "arg = ''-v''" by (simp add: is_file_def)
    have "args_are True None [] (a\<lparr> av_verboseMode := True \<rparr>)" using Cons.prems(1) by (simp add: args_are_def)
    from Cons.IH [OF this, of "i + 1"] Cons.prems(2) v show ?thesis by (simp add: read_arg_def is_file_def)
  qed
qed simp

lemma read_args_none: "args_are v None [] a \<Longrightarrow> files_of i args = [] \<Longrightarrow>
  \<exists>a'. read_args i args a = Some a' \<and> args_are (v \<or> ''-v'' \<in> set args) None [] a'"
proof (induction args arbitrary: i v a)
  case (Cons arg args)
  then have v: "arg = ''-v''" "files_of (i + 1) args = []" by (auto simp: is_file_def split: if_splits)
  have "args_are True None [] (a\<lparr> av_verboseMode := True \<rparr>)" using Cons.prems(1) by (simp add: args_are_def)
  from Cons.IH [OF this v(2)] v show ?case by (auto simp: read_arg_def)
qed auto

section \<open>Properties\<close>

definition section_of :: "string \<Rightarrow> string \<Rightarrow> string" where
  "section_of header text = ''[ '' @ header @ '' ]:'' @ [NEWLINE] @ text @ [NEWLINE]"

text \<open>The files when the server has written \<open>text\<close> and the testers the texts in \<open>xs\<close>.\<close>

definition outputs :: "(string \<Rightarrow> string option) \<Rightarrow> string \<Rightarrow> ((int \<times> string) \<times> string) list \<Rightarrow> string \<Rightarrow> string option" where
  "outputs old text xs name =
     (if name = ''server_out.txt'' then Some (overwritten (old name) text)
      else case map_of (map (\<lambda>((i, _), t). (tester_out i, t)) xs) name of
        Some t \<Rightarrow> Some (overwritten (old name) t) | None \<Rightarrow> old name)"

lemma files_of_indices: "(j, t) \<in> set (files_of i args) \<Longrightarrow> i \<le> j"
proof (induction args arbitrary: i)
  case (Cons arg args)
  show ?case
  proof (cases "(j, t) \<in> set (files_of (i + 1) args)")
    case True
    from Cons.IH [OF this] show ?thesis by simp
  next
    case False
    with Cons.prems show ?thesis by (simp split: if_splits)
  qed
qed simp

lemma files_of_distinct: "distinct (map fst (files_of i args))"
proof (induction args arbitrary: i)
  case (Cons arg args)
  have "i \<notin> fst ` set (files_of (i + 1) args)" using files_of_indices [of _ _ "i + 1" args] by fastforce
  with Cons show ?case by simp
qed simp

lemma show_int_inj: "0 \<le> i \<Longrightarrow> 0 \<le> j \<Longrightarrow> show_int i = show_int j \<longleftrightarrow> i = j"
proof
  assume p: "0 \<le> i" "0 \<le> j" and "show_int i = show_int j"
  then have "show_nat (nat i) = show_nat (nat j)" by (simp add: show_int_def)
  then have "nat i = nat j" by (metis read_show_nat)
  with p show "i = j" by simp
qed simp

lemma tester_out_inj: "0 \<le> i \<Longrightarrow> 0 \<le> j \<Longrightarrow> tester_out i = tester_out j \<longleftrightarrow> i = j"
  by (simp add: tester_out_def show_int_inj)

lemma outputs_tester:
  assumes "distinct (map (fst \<circ> fst) xs)" "\<forall>x \<in> set xs. 0 \<le> fst (fst x)" "((i, f), t) \<in> set xs"
  shows "outputs old text xs (tester_out i) = Some (overwritten (old (tester_out i)) t)"
proof -
  have "map_of (map (\<lambda>((i, _), t). (tester_out i, t)) xs) (tester_out i) = Some t"
    using assms
  proof (induction xs)
    case (Cons x xs)
    obtain j g u where x: "x = ((j, g), u)" by (metis prod.collapse)
    show ?case
    proof (cases "j = i")
      case True
      then have "((i, f), t) \<notin> set xs" using Cons.prems(1) x by (auto simp: image_iff)
      with Cons.prems(3) x True show ?thesis by simp
    next
      case False
      moreover have "tester_out j \<noteq> tester_out i" using Cons.prems x False by (fastforce simp: tester_out_inj)
      ultimately show ?thesis using Cons x by auto
    qed
  qed simp
  then show ?thesis by (simp add: outputs_def tester_out_def)
qed

lemma printFile_section: "printFile header (Some text) False = Some (Inr (section_of header text))"
  by (simp add: printFile_ok section_of_def)

lemma print_files_ok:
  "\<forall>x \<in> set xs. files (tester_out (fst (fst x))) = Some (content x) \<Longrightarrow>
   print_files files (\<lambda>_. False) (map (\<lambda>((i, f), t). Some (tester_out i)) xs) =
     Some (Inr (concat (map (\<lambda>x. section_of ''TESTER'' (content x)) xs)))"
  by (induction xs) (auto simp: printFile_section split_beta)

lemma start_testers_ok:
  "length pids = n \<Longrightarrow> start_testers v c n (map InParent pids @ answers) = Some (Inr pids)"
  by (induction n arbitrary: pids) (auto simp: av_fork_def length_Suc_conv)

lemma av_wait_ok: "av_wait (map Reaped cs @ [NoChildren]) = Some []"
  by (induction cs) auto

lemma args_are_start:
  "length ins = MAX_TESTERS_PROCS \<Longrightarrow> length outs = MAX_TESTERS_PROCS \<Longrightarrow> args_are False None [] (av_start ins outs)"
  by (simp add: args_are_def av_start_def)



text \<open>
  C39: where the arrays of 100 are left. The first loop of main assigns to index 100 whatever the
  arguments, and the loop over the arguments writes a hundred and first tester behind both arrays.
\<close>

theorem autovalidator_overflows:
  assumes "length ins = 100" "length outs = 100"
  shows "av_main args ins outs k = None \<and>
    (100 < length (tl (files_of 1 args)) \<longrightarrow> av_rest args (av_start ins outs) k = None)"
proof -
  have "clear_inputs 100 ins = None" using assms(1) by (simp add: eval_nat_numeral MAX_TESTERS_PROCS_def)
  then have "av_main args ins outs k = None" by (simp add: av_main_def MAX_TESTERS_PROCS_def)
  moreover have "av_rest args (av_start ins outs) k = None" if long: "100 < length (tl (files_of 1 args))"
  proof -
    from long obtain j server ts where f: "files_of 1 args = (j, server) # ts"
      by (cases "files_of 1 args") auto
    have "args_are False None [] (av_start ins outs)"
      using assms by (intro args_are_start) (simp_all add: MAX_TESTERS_PROCS_def)
    from read_args_server [OF this f] long f show ?thesis by (simp add: av_rest_def MAX_TESTERS_PROCS_def)
  qed
  ultimately show ?thesis by blast
qed

lemma files_of_replicate: "is_file f \<Longrightarrow> length (files_of i (replicate n f)) = n"
  by (induction n arbitrary: i) simp_all

theorem autovalidator_overflows_witness:
  "\<forall>k. av_main [] (replicate 100 None) (replicate 100 None) k = None \<and>
    av_rest (replicate 102 ''t.in'') (av_start (replicate 100 None) (replicate 100 None)) k = None"
proof
  fix k
  have "100 < length (tl (files_of 1 (replicate 102 ''t.in'')))" by (simp add: files_of_replicate is_file_def)
  then show "av_main [] (replicate 100 None) (replicate 100 None) k = None \<and>
    av_rest (replicate 102 ''t.in'') (av_start (replicate 100 None) (replicate 100 None)) k = None"
    using autovalidator_overflows [of "replicate 100 None" "replicate 100 None" "[]" k]
      autovalidator_overflows [of "replicate 100 None" "replicate 100 None" "replicate 102 ''t.in''" k] by simp
qed

text \<open>
  A child of the autovalidator becomes the server or the tester, with the flag -v exactly when the
  autovalidator has it, if both files are opened and made its streams; in every other case it ends
  with code -1, and so does the autovalidator when a fork fails, whatever it has started before.
\<close>

theorem autovalidator_children:
  "av_child v path name c = Some
     (if cc_input c \<noteq> -1 \<and> cc_dup_input c \<noteq> -1 \<and> cc_output c \<noteq> -1 \<and> cc_dup_output c \<noteq> -1 \<and> cc_exec c
      then Runs path (name # (if v then [''-v''] else [])) else Ended (-1)) \<and>
   start_testers v c (Suc (length pids + n)) (map InParent pids @ ForkError # answers) = Some (Inl (Ended (-1))) \<and>
   start_testers v c (Suc (length pids + n)) (map InParent pids @ InChild # answers) =
     map_option Inl (av_child v ''./tester'' ''tester'' c)"
proof -
  have e: "start_testers v c (Suc (length pids + n)) (map InParent pids @ ForkError # answers) = Some (Inl (Ended (-1)))"
    by (induction pids) (simp_all add: av_fork_def)
  have "start_testers v c (Suc (length pids + n)) (map InParent pids @ InChild # answers) =
     map_option Inl (av_child v ''./tester'' ''tester'' c)"
  proof (induction pids)
    case Nil
    then show ?case by (cases "av_child v ''./tester'' ''tester'' c") (simp_all add: av_fork_def)
  next
    case (Cons p ps)
    then show ?case by (cases "av_child v ''./tester'' ''tester'' c") (simp_all add: av_fork_def)
  qed
  with e show ?thesis by (simp add: av_child_def exec_argv_def redirect_def)
qed

end
