(* ===== verification/ServerLife.thy ===== *)
theory ServerLife
  imports ServerProperties Syslog OnExit GraphLoaderCorrect QueueLife
begin

text \<open>
  The two ends of the server, validator.c in front of its event loop and behind it: the command line,
  the exit handlers, the description from standard input, the three queues it opens, and, behind the
  loop, the pipes, sessions and queues it closes. \<open>Server\<close> is what happens in between.

  The queues are those of MsgQueue; \<open>handles\<close> gives the queue that the session of a tester has open.
  The exit handler onExit goes over the global table of testers.
\<close>

section \<open>Starting\<close>

definition reportQueueName :: string where
  "reportQueueName = ''/FinAutomReportQueue''"

definition runOutputQueueName :: string where
  "runOutputQueueName = ''/FinAutomRunOutQueue''"

definition registerQueueName :: string where
  "registerQueueName = ''/FinAutomRegisterQueue''"

lemmas queue_names = reportQueueName_def runOutputQueueName_def registerQueueName_def

record server_queues =
  sq_report :: MsgQueue
  sq_run :: MsgQueue
  sq_register :: MsgQueue

text \<open>\<open>log_set(0)\<close>, then the loop over the arguments: the state of the log and \<open>verboseMode\<close>.\<close>

definition server_flags :: "string list \<Rightarrow> int \<times> bool" where
  "server_flags args =
     fold (\<lambda>arg (status, v). if arg = ''-v'' then (log_set default_log True status, True) else (status, v))
       args (log_set default_log False 1, False)"

datatype server_hook = GcHook | OnExit

text \<open>GC_SETUP, ExitHandlerSetup and ExitHandlerAdd: the first two both ask for the hook of exit.\<close>

definition server_handlers :: "int \<Rightarrow> stop + server_hook exit_handlers" where
  "server_handlers registered =
     and_then (ExitHandlerSetup registered no_handlers) (\<lambda>e.
       case ExitHandlerOverrideGC (\<lambda>_ u. Some u) (Some GcHook) e () of
         None \<Rightarrow> Inl Undefined
       | Some (e, _) \<Rightarrow>
           and_then (ExitHandlerSetup registered e) (\<lambda>e.
             case ExitHandlerAdd (\<lambda>_ u. Some u) (Some OnExit) e () of
               None \<Rightarrow> Inl Undefined
             | Some (e, _) \<Rightarrow> Inr e))"

definition open_queues :: "(string \<Rightarrow> bool) \<Rightarrow> mq_system \<Rightarrow> stop + (server_queues \<times> mq_system)" where
  "open_queues available s =
     and_then (msgQueueOpen (available reportQueueName) (Some reportQueueName) MSG_SIZE MSG_QUEUE_SIZE s) (\<lambda>(report, s).
     and_then (msgQueueOpenNonBlocking (available runOutputQueueName) (Some runOutputQueueName) MSG_SIZE MSG_QUEUE_SIZE s) (\<lambda>(run, s).
     and_then (msgQueueOpenNonBlocking (available registerQueueName) (Some registerQueueName) MSG_SIZE MSG_QUEUE_SIZE s) (\<lambda>(register, s).
       Inr (\<lparr> sq_report = report, sq_run = run, sq_register = register \<rparr>, s))))"

text \<open>main up to its loop; \<open>garbage\<close> and \<open>garbage2\<close> are what the two buffers hold.\<close>

definition server_begin ::
  "string \<Rightarrow> string \<Rightarrow> descriptors \<Rightarrow> int \<Rightarrow> string list \<Rightarrow> FILE \<Rightarrow> (string \<Rightarrow> bool) \<Rightarrow> mq_system
    \<Rightarrow> stop + (server_hook exit_handlers \<times> int \<times> server \<times> server_queues \<times> mq_system)" where
  "server_begin garbage garbage2 fds registered args stdin available sys =
     and_then (server_handlers registered) (\<lambda>e.
     let (status, verbose) = server_flags args in
     and_then (loadTransitionGraphDescFromStdin stdin) (\<lambda>graph.
     and_then (open_queues available sys) (\<lambda>(qs, sys).
       Inr (e, status, server_start garbage garbage2 fds graph verbose, qs, sys))))"

section \<open>The exit handler\<close>

fun tell_testers :: "(int \<Rightarrow> MsgQueue) \<Rightarrow> TesterSlot option list \<Rightarrow> mq_system \<Rightarrow> stop + mq_system option" where
  "tell_testers handles [] s = Inr (Some s)"
| "tell_testers handles (None # ts) s = Inl Undefined"
| "tell_testers handles (Some t # ts) s =
     when_done (msgQueueWritef (handles (ts_pid t)) ''exit'' [] s) (\<lambda>(_, s). tell_testers handles ts s)"

definition onExit ::
  "bool \<Rightarrow> (int, TesterSlot) HashMap \<Rightarrow> (int \<Rightarrow> MsgQueue) \<Rightarrow> mq_system
    \<Rightarrow> stop + (mq_system \<times> (int, TesterSlot) HashMap) option" where
  "onExit slots_inited testerSlots handles s =
     (if \<not> slots_inited then Inr (Some (s, testerSlots))
      else case LOOP_HASHMAP testerSlots of
        None \<Rightarrow> Inl Undefined
      | Some (ts, testerSlots) \<Rightarrow> when_done (tell_testers handles ts s) (\<lambda>s. Inr (Some (s, testerSlots))))"

text \<open>A global variable starts with zeros; main declares a variable of the same name and fills that.\<close>

definition global_testerSlots :: "(int, TesterSlot) HashMap" where
  "global_testerSlots = \<lparr> hm_nodes = \<lparr> al_data = [], al_alloc_size = 0, al_size = 0 \<rparr>, hm_cmp = (\<lambda>_ _. 0),
     hm_store = empty_store, hm_elem = (\<lambda>_. None), hm_elem_next = 0, hm_node = (\<lambda>_. None), hm_node_next = 0 \<rparr>"

section \<open>Ending\<close>

fun close_testers :: "(int \<Rightarrow> MsgQueue) \<Rightarrow> (int \<times> TesterSlot) list \<Rightarrow> mq_system \<Rightarrow> stop + mq_system" where
  "close_testers handles [] s = Inr s"
| "close_testers handles ((_, t) # ts) s =
     and_then (msgQueueClose (handles (ts_pid t)) s) (\<lambda>(_, _, s). close_testers handles ts s)"

definition remove_queues :: "server_queues \<Rightarrow> mq_system \<Rightarrow> stop + mq_system" where
  "remove_queues qs s =
     and_then (msgQueueRemove (sq_report qs) s) (\<lambda>(_, _, s).
     and_then (msgQueueRemove (sq_run qs) s) (\<lambda>(_, _, s).
     and_then (msgQueueRemove (sq_register qs) s) (\<lambda>(_, _, s). Inr s)))"

text \<open>
  main behind its loop: the exit code, what is printed and what is left. The waiting for the children
  comes last; the sessions are gone then.
\<close>

definition server_end ::
  "server \<Rightarrow> server_queues \<Rightarrow> (int \<Rightarrow> MsgQueue) \<Rightarrow> mq_system \<Rightarrow> wait_answer list
    \<Rightarrow> stop + (int \<times> string \<times> descriptors \<times> mq_system) option" where
  "server_end s qs handles sys waits =
     and_then (server_finish s) (\<lambda>(report, fds).
     and_then (close_testers handles (sv_testers s) sys) (\<lambda>sys.
     and_then (remove_queues qs sys) (\<lambda>sys.
       case processWaitForAll waits of None \<Rightarrow> Inr None
       | Some _ \<Rightarrow> Inr (Some (0, report, fds, sys)))))"

section \<open>Closing the sessions\<close>

lemma close_testers_ok:
  "\<forall>t \<in> snd ` set ts. q_open s (handles (ts_pid t)) \<Longrightarrow> distinct (map (\<lambda>kt. q_desc (handles (ts_pid (snd kt)))) ts) \<Longrightarrow>
   close_testers handles ts s = Inr (without_desc ((\<lambda>kt. q_desc (handles (ts_pid (snd kt)))) ` set ts) s)"
proof (induction ts arbitrary: s)
  case (Cons kt ts)
  obtain k t where kt: "kt = (k, t)" by force
  let ?d = "q_desc (handles (ts_pid t))"
  have "q_open s (handles (ts_pid t))" using Cons.prems(1) kt by simp
  from msgQueueClose_open [OF this] obtain q' where
    c: "msgQueueClose (handles (ts_pid t)) s = Inr (1, q', without_desc {?d} s)" by blast
  have "\<forall>u \<in> snd ` set ts. q_open (without_desc {?d} s) (handles (ts_pid u))"
    using Cons.prems kt by (auto simp: q_open_without image_iff)
  from Cons.IH [OF this] Cons.prems(2) c kt show ?case by simp
qed simp

lemma close_pipes_ok: "pipes_ok t fds \<Longrightarrow> distinct (map fst t) \<Longrightarrow> \<exists>fds'. close_pipes t fds = Inr fds'"
proof (induction t arbitrary: fds)
  case (Cons kr t)
  obtain pid rs where kr: "kr = (pid, rs)" by force
  from close_session_pipe [OF Cons.prems(1), of pid rs] kr obtain m' fds1 where
    c: "msgPipeClose (rs_graphDataPipe rs) fds = Inr (1, m', fds1)" "pipes_ok (table_del pid (kr # t)) fds1" by auto
  have "pid \<notin> fst ` set t" using Cons.prems(2) kr by simp
  then have "table_del pid (kr # t) = t" using kr by (auto simp: table_del_def intro!: filter_True)
  with Cons.IH [of fds1] c Cons.prems(2) kr show ?case by auto
qed simp

section \<open>Properties\<close>

lemma server_flags_ok: "server_flags args = (if ''-v'' \<in> set args then 1 else 0, ''-v'' \<in> set args)"
proof -
  have "fold (\<lambda>arg (status, v). if arg = ''-v'' then (log_set default_log True status, True) else (status, v)) args (s, v) =
      (if ''-v'' \<in> set args then 1 else s, v \<or> ''-v'' \<in> set args)" for s v
    by (induction args arbitrary: s v) (auto simp: log_set_def default_log_def log_on_def)
  then show ?thesis by (simp add: server_flags_def log_set_def default_log_def log_off_def)
qed

lemma server_handlers_ok:
  "\<exists>e. server_handlers 0 = Inr e \<and> handlers_are [OnExit] (Some GcHook) e \<and> oe_hooked e \<and> oe_called_mode e = 0"
proof -
  let ?e0 = "(no_handlers :: server_hook exit_handlers)\<lparr> oe_setup_once := True, oe_hooked := True \<rparr>"
  have s: "ExitHandlerSetup 0 no_handlers = Inr ?e0" by (simp add: ExitHandlerSetup_def no_handlers_def)
  have "handlers_are [] None ?e0" by (simp add: handlers_are_def no_handlers_def)
  from ExitHandlerOverrideGC_ok [OF this, of "\<lambda>_ u. Some u" "Some GcHook" "()"] obtain e1 where
    e1: "ExitHandlerOverrideGC (\<lambda>_ u. Some u) (Some GcHook) ?e0 () = Some (e1, ())" "handlers_are [] (Some GcHook) e1"
    "oe_hooked e1" "oe_called_mode e1 = 0" by (auto simp: no_handlers_def)
  have "oe_setup_once e1"
    using e1(1) by (auto simp: ExitHandlerOverrideGC_def onexit_handler_op_def no_handlers_def Let_def)
  then have "ExitHandlerSetup 0 e1 = Inr e1" by (simp add: ExitHandlerSetup_def)
  moreover from ExitHandlerAdd_ok [OF e1(2), of "\<lambda>_ u. Some u" OnExit "()"] e1(3,4) obtain e2 where
    "ExitHandlerAdd (\<lambda>_ u. Some u) (Some OnExit) e1 () = Some (e2, ())" "handlers_are [OnExit] (Some GcHook) e2"
    "oe_hooked e2" "oe_called_mode e2 = 0" by (auto simp: ON_EXIT_MAX_HANDLERS_COUNT_def)
  ultimately show ?thesis using s e1(1) by (auto simp: server_handlers_def)
qed

lemma open_queues_ok:
  assumes "\<forall>n \<in> {reportQueueName, runOutputQueueName, registerQueueName}. map_of (sys_names sys) n = None"
    and "\<forall>nq \<in> set (sys_names sys). snd nq < sys_next_queue sys"
  shows "\<exists>qs sys'. open_queues (\<lambda>_. True) sys = Inr (qs, sys') \<and>
    q_rep (sq_report qs) 10 1020 True sys' [] \<and> q_rep (sq_run qs) 10 1020 False sys' [] \<and>
    q_rep (sq_register qs) 10 1020 False sys' [] \<and>
    map q_name [sq_report qs, sq_run qs, sq_register qs] = map Some [reportQueueName, runOutputQueueName, registerQueueName] \<and>
    map q_desc [sq_report qs, sq_run qs, sq_register qs] = [sys_next_desc sys, sys_next_desc sys + 1, sys_next_desc sys + 2]"
proof -
  have names: "mq_name_ok reportQueueName" "mq_name_ok runOutputQueueName" "mq_name_ok registerQueueName"
    "length reportQueueName < 50" "length runOutputQueueName < 50" "length registerQueueName < 50"
    "reportQueueName \<noteq> runOutputQueueName" "reportQueueName \<noteq> registerQueueName" "runOutputQueueName \<noteq> registerQueueName"
    by (simp_all add: queue_names)
  from open_queue_new [OF names(1,4), of sys True] assms(1) obtain q1 s1 where
    q1: "msgQueueOpenEx True (Some reportQueueName) MSG_SIZE MSG_QUEUE_SIZE True sys = Inr (q1, s1)"
    "q_rep q1 10 1020 True s1 []" "q_name q1 = Some reportQueueName" "q_desc q1 = sys_next_desc sys"
    "sys_next_desc s1 = sys_next_desc sys + 1" "sys_next_queue s1 = Suc (sys_next_queue sys)"
    "sys_names s1 = (reportQueueName, sys_next_queue sys) # sys_names sys"
    "sys_queue s1 = (sys_queue sys)(sys_next_queue sys := \<lparr> mq_maxmsg = 10, mq_msgsize = 1020, mq_msgs = [] \<rparr>)" by auto
  from open_queue_new [OF names(2,5), of s1 False] assms(1) q1(7) names(7) obtain q2 s2 where
    q2: "msgQueueOpenEx True (Some runOutputQueueName) MSG_SIZE MSG_QUEUE_SIZE False s1 = Inr (q2, s2)"
    "q_rep q2 10 1020 False s2 []" "q_name q2 = Some runOutputQueueName" "q_desc q2 = sys_next_desc s1"
    "sys_next_desc s2 = sys_next_desc s1 + 1" "sys_next_queue s2 = Suc (sys_next_queue s1)"
    "sys_names s2 = (runOutputQueueName, sys_next_queue s1) # sys_names s1"
    "sys_desc s2 = (sys_next_desc s1, sys_next_queue s1, True) # sys_desc s1"
    "sys_queue s2 = (sys_queue s1)(sys_next_queue s1 := \<lparr> mq_maxmsg = 10, mq_msgsize = 1020, mq_msgs = [] \<rparr>)" by auto
  from open_queue_new [OF names(3,6), of s2 False] assms(1) q1(7) q2(7) names(8,9) obtain q3 s3 where
    q3: "msgQueueOpenEx True (Some registerQueueName) MSG_SIZE MSG_QUEUE_SIZE False s2 = Inr (q3, s3)"
    "q_rep q3 10 1020 False s3 []" "q_name q3 = Some registerQueueName" "q_desc q3 = sys_next_desc s2"
    "sys_names s3 = (registerQueueName, sys_next_queue s2) # sys_names s2"
    "sys_desc s3 = (sys_next_desc s2, sys_next_queue s2, True) # sys_desc s2"
    "sys_queue s3 = (sys_queue s2)(sys_next_queue s2 := \<lparr> mq_maxmsg = 10, mq_msgsize = 1020, mq_msgs = [] \<rparr>)" by auto
  have r1: "q_rep q1 10 1020 True s2 []"
    by (rule q_rep_frame [OF q1(2) q2(7,8,9)]) (use q1 names(7) in auto)
  have r2: "q_rep q1 10 1020 True s3 []"
    by (rule q_rep_frame [OF r1 q3(5,6,7)]) (use q1 q2 names(7,8) in auto)
  have r3: "q_rep q2 10 1020 False s3 []"
    by (rule q_rep_frame [OF q2(2) q3(5,6,7)]) (use q1 q2 names(9) in auto)
  let ?qs = "\<lparr> sq_report = q1, sq_run = q2, sq_register = q3 \<rparr>"
  have "open_queues (\<lambda>_. True) sys = Inr (?qs, s3)"
    using q1(1) q2(1) q3(1) by (simp add: open_queues_def msgQueueOpen_def msgQueueOpenNonBlocking_def)
  then show ?thesis
    using r2 r3 q3(2,3,4) q1(3,4,5) q2(3,4,5) by (intro exI [of _ ?qs] exI [of _ s3]) simp
qed

text \<open>The start: the handlers, the flag, the description and the queues.\<close>

lemma server_begin_ok:
  assumes "length input < 2 ^ 31 - 1" "\<forall>n \<in> {reportQueueName, runOutputQueueName, registerQueueName}. map_of (sys_names sys) n = None"
    and "\<forall>nq \<in> set (sys_names sys). snd nq < sys_next_queue sys"
  shows "\<exists>e qs sys'. server_begin g g2 fds 0 args (fresh_file input) (\<lambda>_. True) sys =
      Inr (e, if ''-v'' \<in> set args then 1 else 0, server_start g g2 fds input (''-v'' \<in> set args), qs, sys') \<and>
    handlers_are [OnExit] (Some GcHook) e \<and> oe_hooked e \<and>
    q_rep (sq_report qs) 10 1020 True sys' [] \<and> q_rep (sq_run qs) 10 1020 False sys' [] \<and>
    q_rep (sq_register qs) 10 1020 False sys' [] \<and>
    map q_name [sq_report qs, sq_run qs, sq_register qs] = map Some [reportQueueName, runOutputQueueName, registerQueueName] \<and>
    map q_desc [sq_report qs, sq_run qs, sq_register qs] = [sys_next_desc sys, sys_next_desc sys + 1, sys_next_desc sys + 2]"
proof -
  from open_queues_ok [OF assms(2,3)] obtain qs sys' where
    q: "open_queues (\<lambda>_. True) sys = Inr (qs, sys')"
    "q_rep (sq_report qs) 10 1020 True sys' []" "q_rep (sq_run qs) 10 1020 False sys' []"
    "q_rep (sq_register qs) 10 1020 False sys' []"
    "map q_name [sq_report qs, sq_run qs, sq_register qs] = map Some [reportQueueName, runOutputQueueName, registerQueueName]"
    "map q_desc [sq_report qs, sq_run qs, sq_register qs] = [sys_next_desc sys, sys_next_desc sys + 1, sys_next_desc sys + 2]"
    by (elim exE conjE) (rule that)
  from server_handlers_ok obtain e where
    "server_handlers 0 = Inr e" "handlers_are [OnExit] (Some GcHook) e" "oe_hooked e" by blast
  moreover have "1 < FILE_BUF_SIZE" by (simp add: GraphLoader.FILE_BUF_SIZE_def)
  from read_content_all [OF this, of "[]" 1 "fresh_file input"]
  have "loadTransitionGraphDescFromStdin (fresh_file input) = Inr input"
    by (auto simp: loadTransitionGraphDescFromStdin_def fresh_file_def)
  ultimately show ?thesis
    using q by (intro exI [of _ e] exI [of _ qs] exI [of _ sys']) (simp add: server_begin_def server_flags_ok)
qed

lemma global_testerSlots_empty: "hm_rep 64 0 global_testerSlots []"
proof -
  have "al_ok 64 (ArrayListNew :: addr ArrayList) []" by (rule al_ok_New) simp_all
  then show ?thesis
    by (auto simp: hm_rep_def ents_rep_def slots_ok_def ok_store_def empty_store_def elems_ok_def slot_of_def fun_eq_iff
        bucket_ok_def global_testerSlots_def ArrayListNew_def intro!: exI [of _ "None :: addr option"])
qed

text \<open>Over the table of main the handler would tell every tester.\<close>

lemma onExit_over_sessions:
  assumes "hm_rep B n hm (map (\<lambda>t. (ts_pid t, Some t)) ts)" "int n + 47 \<le> B"
  shows "\<exists>t. onExit True hm handles s = when_done (tell_testers handles (map Some ts) s) (\<lambda>s. Inr (Some (s, t)))"
proof -
  from LOOP_HASHMAP_ok [OF assms] obtain hm' where "LOOP_HASHMAP hm = Some (map Some ts, hm')" by (auto simp: comp_def)
  then show ?thesis by (auto simp: onExit_def)
qed

text \<open>
  onExit tells nobody. The table it goes over is the global one, which main never fills, since it
  declares a table of the same name: whatever testers are registered, none of their queues gets the
  message that the handler was written to send.
\<close>

theorem onExit_tells_nobody:
  "\<exists>t. onExit slots_inited global_testerSlots handles s = Inr (Some (s, t))"
proof -
  from LOOP_HASHMAP_ok [OF global_testerSlots_empty] obtain t where
    "LOOP_HASHMAP global_testerSlots = Some ([], t)" by auto
  then show ?thesis by (cases slots_inited) (auto simp: onExit_def)
qed

text \<open>The end, from any state the loop is left in.\<close>

lemma server_end_ok:
  assumes "server_ok s" "processWaitForAll waits = Some (st, rest)"
    and "\<forall>t \<in> snd ` set (sv_testers s). q_open sys (handles (ts_pid t))"
    and "\<forall>q \<in> {sq_report qs, sq_run qs, sq_register qs}. q_open sys q"
    and "map q_name [sq_report qs, sq_run qs, sq_register qs] = map Some [reportQueueName, runOutputQueueName, registerQueueName]"
    and "\<forall>n \<in> {reportQueueName, runOutputQueueName, registerQueueName}. map_of (sys_names sys) n \<noteq> None"
    and "distinct (map q_desc [sq_report qs, sq_run qs, sq_register qs] @
           map (\<lambda>kt. q_desc (handles (ts_pid (snd kt)))) (sv_testers s))"
  shows "\<exists>fds sys'. server_end s qs handles sys waits = Inr (Some (0, server_report s, fds, sys')) \<and>
    sys_names sys' = filter (\<lambda>e. fst e \<notin> {reportQueueName, runOutputQueueName, registerQueueName}) (sys_names sys) \<and>
    sys_queue sys' = sys_queue sys \<and>
    (\<forall>q \<in> {sq_report qs, sq_run qs, sq_register qs} \<union> (handles \<circ> ts_pid \<circ> snd) ` set (sv_testers s). \<not> q_open sys' q)"
proof -
  let ?T = "(\<lambda>kt. q_desc (handles (ts_pid (snd kt)))) ` set (sv_testers s)"
  let ?s1 = "without_desc ?T sys"
  from assms(1) have "pipes_ok (sv_run s) (sv_fds s)" "distinct (map fst (sv_run s))"
    by (auto simp: server_ok_def sessions_ok_def)
  from close_pipes_ok [OF this] obtain fds where f: "close_pipes (sv_run s) (sv_fds s) = Inr fds" by blast
  have t: "close_testers handles (sv_testers s) sys = Inr ?s1"
    using assms(3,7) by (intro close_testers_ok) auto
  have o1: "q_open ?s1 (sq_report qs)" using assms(4,7) by (auto simp: q_open_without)
  have n: "q_name (sq_report qs) = Some reportQueueName" "q_name (sq_run qs) = Some runOutputQueueName"
    "q_name (sq_register qs) = Some registerQueueName" using assms(5) by simp_all
  have d: "reportQueueName \<noteq> runOutputQueueName" "reportQueueName \<noteq> registerQueueName" "runOutputQueueName \<noteq> registerQueueName"
    by (simp_all add: queue_names)
  have names: "map_of (filter (\<lambda>e. fst e \<noteq> m) xs) k = (if k \<noteq> m then map_of xs k else None)" for m k and xs :: "(string \<times> nat) list"
    using map_of_filter_key [of "\<lambda>x. x \<noteq> m" xs k] by simp
  have k3: "map_of (filter (\<lambda>e. fst e \<noteq> reportQueueName \<and> fst e \<noteq> runOutputQueueName) (sys_names sys)) registerQueueName \<noteq> None"
    using map_of_filter_key [of "\<lambda>x. x \<noteq> reportQueueName \<and> x \<noteq> runOutputQueueName" "sys_names sys" registerQueueName]
      assms(6) d by simp
  let ?s2 = "without_name reportQueueName (without_desc {q_desc (sq_report qs)} ?s1)"
  from msgQueueRemove_open [OF o1 n(1)] assms(6) obtain q1 where
    r1: "msgQueueRemove (sq_report qs) ?s1 = Inr (1, q1, ?s2)" by auto
  have o2: "q_open ?s2 (sq_run qs)" using assms(4,7) by (auto simp: q_open_without)
  let ?s3 = "without_name runOutputQueueName (without_desc {q_desc (sq_run qs)} ?s2)"
  from msgQueueRemove_open [OF o2 n(2)] assms(6) d obtain q2 where
    r2: "msgQueueRemove (sq_run qs) ?s2 = Inr (1, q2, ?s3)" by (auto simp: names)
  have o3: "q_open ?s3 (sq_register qs)" using assms(4,7) by (auto simp: q_open_without)
  let ?s4 = "without_name registerQueueName (without_desc {q_desc (sq_register qs)} ?s3)"
  from msgQueueRemove_open [OF o3 n(3)] k3 obtain q3 where
    r3: "msgQueueRemove (sq_register qs) ?s3 = Inr (1, q3, ?s4)" by auto
  have e: "server_end s qs handles sys waits = Inr (Some (0, server_report s, fds, ?s4))"
    using f t r1 r2 r3 assms(2) by (simp add: server_end_def server_finish_def remove_queues_def)
  have "sys_names ?s4 = filter (\<lambda>e. fst e \<notin> {reportQueueName, runOutputQueueName, registerQueueName}) (sys_names sys)"
    by (auto intro: filter_cong)
  moreover have "sys_queue ?s4 = sys_queue sys" by (simp add: without_name_def without_desc_def)
  moreover have "\<not> q_open ?s4 q" if "q \<in> {sq_report qs, sq_run qs, sq_register qs} \<union> (handles \<circ> ts_pid \<circ> snd) ` set (sv_testers s)" for q
    using that by (auto simp: q_open_without image_iff)
  ultimately show ?thesis using e by blast
qed


text \<open>A server without testers, so what their queues are does not matter.\<close>

definition demo_handle :: MsgQueue where
  "demo_handle = \<lparr> q_maxmsg = 10, q_msgsize = 1020, q_desc = 9, q_name = None, q_buff_size = 1021, q_is_blocking = True \<rparr>"

lemma idle_server_leaves:
  "\<exists>y. moves (\<lambda>_. True) (\<lambda>_. True) (\<lambda>_. True) (boot idle_server) y \<and> sy_phase y = Left \<and> sv_testers (sy_server y) = [] \<and>
     server_report (sy_server y) = server_report idle_server"
proof -
  let ?y = "(boot idle_server)\<lparr> sy_phase := ReadingReport, sy_report := [''exit''] \<rparr>"
  let ?z = "boot (idle_server\<lparr> sv_shouldTerminate := True \<rparr>)"
  let ?l = "?z\<lparr> sy_phase := Left, sy_server := idle_server\<lparr> sv_shouldTerminate := True, sv_forceTermination := True \<rparr> \<rparr>"
  have "moves (\<lambda>_. True) (\<lambda>_. True) (\<lambda>_. True) (boot idle_server) ?y" using reads_report by simp
  moreover have "server_step granting ?y = Some ?z"
    by (simp add: server_step_def continue_with_def boot_def handle_report_def)
  ultimately have m: "moves (\<lambda>_. True) (\<lambda>_. True) (\<lambda>_. True) (boot idle_server) ?z" by (rule moves.serves)
  have "serve 3 granting ?z = Some ?l"
    by (simp add: numeral_3_eq_3 server_step_def boot_def continue_with_def throttle_lock_off config after_children_def
        reap_none no_child_ended_def granting_def check_force_def broadcast_exit_def Let_def)
  from serve_moves [OF this m] show ?thesis
    by (intro exI [of _ ?l]) (simp add: server_report_def)
qed


end
