(* ===== verification/Printers.thy ===== *)
theory Printers
  imports ArrayListCorrect DynListCorrect CText Getline
begin

text \<open>
  The printers: those of generics.h for one element, and those of the array list and the linked list.
  A computation gives the text for standard output. A printer takes the \<open>void*\<close> of an element,
  \<open>None\<close> for NULL; how printf writes an address is the argument \<open>show_ptr\<close>.
\<close>

section \<open>Elements\<close>

type_synonym 'a GenericsPrinter = "'a option \<Rightarrow> string"

definition GenericsIntPrinter :: "int GenericsPrinter" where
  "GenericsIntPrinter data = (case data of None \<Rightarrow> ''nil'' | Some n \<Rightarrow> show_int n)"

definition GenericsPtrPrinter :: "('a option \<Rightarrow> string) \<Rightarrow> 'a GenericsPrinter" where
  "GenericsPtrPrinter show_ptr data = show_ptr data"

section \<open>Array lists\<close>

function ArrayListPrintNodes :: "'a ArrayList \<Rightarrow> ArrayListIterator \<Rightarrow> 'a GenericsPrinter \<Rightarrow> string option" where
  "ArrayListPrintNodes l it printer =
     (if ArrayListIsEnd l it then Some ''''
      else do {
        v \<leftarrow> ArrayListGetValue l it;
        rest \<leftarrow> ArrayListPrintNodes l (ArrayListNext l it) printer;
        Some (printer v @ ''; '' @ rest) })"
  by pat_completeness auto
termination
  by (relation "measure (\<lambda>(l, it, p). nat (al_size l - it_position it))")
     (auto simp: ArrayListNext_def ArrayListIsEnd_def split: if_splits)

declare ArrayListPrintNodes.simps [simp del]

text \<open>The iterator of the null pointer has no target.\<close>

definition ArrayListPrint :: "'a al_ptr \<Rightarrow> 'a GenericsPrinter \<Rightarrow> string option" where
  "ArrayListPrint lp printer = do {
     nodes \<leftarrow> (case lp of None \<Rightarrow> Some '''' | Some l \<Rightarrow> ArrayListPrintNodes l (ArrayListBegin lp) printer);
     Some (''[ '' @ nodes @ ''] '') }"

definition ArrayListPrintln :: "'a al_ptr \<Rightarrow> 'a GenericsPrinter \<Rightarrow> string option" where
  "ArrayListPrintln lp printer = do { out \<leftarrow> ArrayListPrint lp printer; Some (out @ [NEWLINE]) }"

definition ArrayListPrintData :: "('a option \<Rightarrow> string) \<Rightarrow> 'a al_ptr \<Rightarrow> string option" where
  "ArrayListPrintData show_ptr lp = ArrayListPrint lp (GenericsPtrPrinter show_ptr)"

definition ArrayListPrintlnData :: "('a option \<Rightarrow> string) \<Rightarrow> 'a al_ptr \<Rightarrow> string option" where
  "ArrayListPrintlnData show_ptr lp = do { out \<leftarrow> ArrayListPrintData show_ptr lp; Some (out @ [NEWLINE]) }"

section \<open>Linked lists\<close>

partial_function (option) ListPrintNodes :: "addr option \<Rightarrow> 'a GenericsPrinter \<Rightarrow> 'a store \<Rightarrow> string option" where
  "ListPrintNodes l printer s =
     (if l = None then Some ''''
      else do {
        v \<leftarrow> ListGetValue s l;
        right \<leftarrow> ListNext s l;
        rest \<leftarrow> ListPrintNodes right printer s;
        Some (printer v @ ''; '' @ rest) })"

declare ListPrintNodes.simps [code]

definition ListPrint :: "ListRoot option \<Rightarrow> 'a GenericsPrinter \<Rightarrow> 'a store \<Rightarrow> string option" where
  "ListPrint lp printer s = do {
     l \<leftarrow> lp;
     nodes \<leftarrow> ListPrintNodes (lr_begin l) printer s;
     Some (''[ '' @ nodes @ ''] '') }"

definition ListPrintln :: "ListRoot option \<Rightarrow> 'a GenericsPrinter \<Rightarrow> 'a store \<Rightarrow> string option" where
  "ListPrintln lp printer s =
     (if lp = None then Some (''NULL'' @ [NEWLINE])
      else do { out \<leftarrow> ListPrint lp printer s; Some (out @ [NEWLINE]) })"

definition ListPrintData :: "('a option \<Rightarrow> string) \<Rightarrow> ListRoot option \<Rightarrow> 'a store \<Rightarrow> string option" where
  "ListPrintData show_ptr lp s = ListPrint lp (GenericsPtrPrinter show_ptr) s"

definition ListPrintlnData :: "('a option \<Rightarrow> string) \<Rightarrow> ListRoot option \<Rightarrow> 'a store \<Rightarrow> string option" where
  "ListPrintlnData show_ptr lp s = ListPrintln lp (GenericsPtrPrinter show_ptr) s"

section \<open>What is printed\<close>

definition printed_nodes :: "'a GenericsPrinter \<Rightarrow> 'a option list \<Rightarrow> string" where
  "printed_nodes printer vs = concat (map (\<lambda>v. printer v @ ''; '') vs)"

lemma printed_nodes_simps [simp]:
  "printed_nodes printer [] = ''''" "printed_nodes printer (v # vs) = printer v @ ''; '' @ printed_nodes printer vs"
  by (simp_all add: printed_nodes_def)

lemma ArrayListPrintNodes_ok:
  assumes "al_rep l vs"
  shows "ArrayListPrintNodes l \<lparr> it_target = True, it_position = int i \<rparr> printer = Some (printed_nodes printer (drop i vs))"
proof (induction "length vs - i" arbitrary: i)
  case 0
  then show ?case by (simp add: ArrayListPrintNodes.simps ArrayListIsEnd_at [OF assms])
next
  case (Suc k)
  then have i: "i < length vs" and k: "k = length vs - Suc i" by auto
  have "ArrayListGetValue l \<lparr> it_target = True, it_position = int i \<rparr> = Some (vs ! i)"
    using al_read_rep [OF assms, of "int i"] i by (simp add: ArrayListGetValue_def)
  moreover have "ArrayListNext l \<lparr> it_target = True, it_position = int i \<rparr> = \<lparr> it_target = True, it_position = int (Suc i) \<rparr>"
    using i by (simp add: ArrayListNext_def ArrayListIsEnd_at [OF assms] add.commute)
  ultimately show ?case
    using Suc.hyps(1) [OF k] i by (subst ArrayListPrintNodes.simps) (simp add: ArrayListIsEnd_at [OF assms] Cons_nth_drop_Suc [symmetric])
qed

lemma ArrayListPrint_ok:
  assumes "al_rep l vs"
  shows "ArrayListPrint (Some l) printer = Some (''[ '' @ printed_nodes printer vs @ ''] '')"
proof (cases "vs = []")
  case True
  with assms show ?thesis
    by (simp add: ArrayListPrint_def ArrayListBegin_def al_rep_size null_iterator_def ArrayListPrintNodes.simps ArrayListIsEnd_def)
next
  case False
  with ArrayListPrintNodes_ok [OF assms, of 0 printer] assms show ?thesis
    by (simp add: ArrayListPrint_def ArrayListBegin_def al_rep_size)
qed

lemma ListPrintNodes_ok:
  "chain (st_node s) l xs None \<Longrightarrow> ListPrintNodes (first_of xs None) printer s = Some (printed_nodes printer (map snd xs))"
proof (induction xs arbitrary: l)
  case (Cons x xs)
  then have "ListPrintNodes (first_of xs None) printer s = Some (printed_nodes printer (map snd xs))"
    by (intro Cons.IH [of "Some (fst x)"]) simp
  with Cons.prems show ?case
    by (subst ListPrintNodes.simps) (simp add: ListNext_def ListGetValue_def deref_def)
qed (simp add: ListPrintNodes.simps)

text \<open>
  An array list and a linked list with the same values print the same text: the values in order,
  each followed by a semicolon, between brackets. Lists of numbers print as numbers.
\<close>

theorem lists_print_alike:
  assumes "al_rep a (map snd xs)" "list_at s l xs"
  shows "ArrayListPrint (Some a) printer = Some (''[ '' @ printed_nodes printer (map snd xs) @ ''] '') \<and>
    ListPrint (Some l) printer s = ArrayListPrint (Some a) printer \<and>
    ListPrintln (Some l) printer s = ArrayListPrintln (Some a) printer \<and>
    ListPrintlnData show_ptr (Some l) s = ArrayListPrintlnData show_ptr (Some a)"
proof -
  have a: "ArrayListPrint (Some a) p = Some (''[ '' @ printed_nodes p (map snd xs) @ ''] '')" for p
    by (rule ArrayListPrint_ok [OF assms(1)])
  moreover have "ListPrint (Some l) p s = ArrayListPrint (Some a) p" for p
    using ListPrintNodes_ok [of s None xs p] assms(2) by (simp add: a ListPrint_def list_at_def)
  ultimately show ?thesis
    by (simp add: ListPrintln_def ArrayListPrintln_def ListPrintlnData_def ArrayListPrintlnData_def ArrayListPrintData_def)
qed

end
